(* ===== verification/C_Prelude.thy ===== *)
theory C_Prelude
  imports Main "HOL-Library.Word" "HOL-Library.Multiset"
begin

text \<open>
  The prelude of the development: the C integer ranges and the overflow-checked
  arithmetic on them, the character classes of the ``C'' locale, and generic lemmas on
  lists and multisets that several components share.

  A C string is a HOL \<^typ>\<open>string\<close> without its terminating NUL; a byte is a HOL \<^typ>\<open>char\<close>.
  An operation whose C behaviour is undefined on overflow returns \<open>None\<close> there.
\<close>

named_theorems c_int_simps \<open>unfolding rules for the C integer ranges\<close>
named_theorems c_char_simps \<open>unfolding rules for the character classes\<close>

section \<open>C integers\<close>

definition INT_MAX :: int where [c_int_simps]: "INT_MAX = 2147483647"
definition INT_MIN :: int where [c_int_simps]: "INT_MIN = - 2147483648"
definition LONG_MAX :: int where [c_int_simps]: "LONG_MAX = 9223372036854775807"
definition LONG_MIN :: int where [c_int_simps]: "LONG_MIN = - 9223372036854775808"

definition in_int :: "int \<Rightarrow> bool" where
  [c_int_simps]: "in_int x \<longleftrightarrow> INT_MIN \<le> x \<and> x \<le> INT_MAX"

definition in_long :: "int \<Rightarrow> bool" where
  [c_int_simps]: "in_long x \<longleftrightarrow> LONG_MIN \<le> x \<and> x \<le> LONG_MAX"

text \<open>Signed \<open>int\<close> arithmetic: \<open>None\<close> where the C expression overflows.\<close>

definition int_add :: "int \<Rightarrow> int \<Rightarrow> int option" where
  "int_add a b = (if in_int (a + b) then Some (a + b) else None)"

definition int_sub :: "int \<Rightarrow> int \<Rightarrow> int option" where
  "int_sub a b = (if in_int (a - b) then Some (a - b) else None)"

definition int_mul :: "int \<Rightarrow> int \<Rightarrow> int option" where
  "int_mul a b = (if in_int (a * b) then Some (a * b) else None)"

text \<open>Conversion of a \<open>long\<close> to \<open>int\<close> keeps the low 32 bits.\<close>

definition int_of_long :: "int \<Rightarrow> int" where
  "int_of_long x = (x + 2147483648) mod 4294967296 - 2147483648"

lemma int_of_long_id [simp]: "in_int x \<Longrightarrow> int_of_long x = x"
  by (simp add: int_of_long_def c_int_simps)

lemma int_of_long_range [simp]: "in_int (int_of_long x)"
proof -
  have "0 \<le> (x + 2147483648) mod 4294967296" "(x + 2147483648) mod 4294967296 < 4294967296"
    by simp_all
  then show ?thesis unfolding int_of_long_def c_int_simps by linarith
qed

lemma int_add_Some_iff: "int_add a b = Some c \<longleftrightarrow> in_int c \<and> c = a + b"
  by (auto simp: int_add_def)

lemma int_sub_Some_iff: "int_sub a b = Some c \<longleftrightarrow> in_int c \<and> c = a - b"
  by (auto simp: int_sub_def)

lemma int_mul_Some_iff: "int_mul a b = Some c \<longleftrightarrow> in_int c \<and> c = a * b"
  by (auto simp: int_mul_def)

lemmas int_arith_Some = int_add_Some_iff int_sub_Some_iff int_mul_Some_iff

section \<open>Characters\<close>

abbreviation code :: "char \<Rightarrow> nat" where "code c \<equiv> of_char c"

definition isspace :: "char \<Rightarrow> bool" where
  [c_char_simps]: "isspace c \<longleftrightarrow> code c = 32 \<or> (9 \<le> code c \<and> code c \<le> 13)"

definition isdigit :: "char \<Rightarrow> bool" where
  [c_char_simps]: "isdigit c \<longleftrightarrow> 48 \<le> code c \<and> code c \<le> 57"

definition isupper :: "char \<Rightarrow> bool" where
  [c_char_simps]: "isupper c \<longleftrightarrow> 65 \<le> code c \<and> code c \<le> 90"

definition islower :: "char \<Rightarrow> bool" where
  [c_char_simps]: "islower c \<longleftrightarrow> 97 \<le> code c \<and> code c \<le> 122"

definition isalnum :: "char \<Rightarrow> bool" where
  [c_char_simps]: "isalnum c \<longleftrightarrow> isdigit c \<or> isupper c \<or> islower c"

definition tolower :: "char \<Rightarrow> char" where
  "tolower c = (if isupper c then char_of (code c + 32) else c)"

text \<open>The C string in a buffer: the bytes before the first NUL.\<close>

definition c_str :: "string \<Rightarrow> string" where
  "c_str s = takeWhile (\<lambda>c. c \<noteq> CHR 0x00) s"

abbreviation newline :: char where "newline \<equiv> CHR 0x0A"
abbreviation carriage_return :: char where "carriage_return \<equiv> CHR 0x0D"
abbreviation tab :: char where "tab \<equiv> CHR 0x09"

lemma code_less_256: "code c < 256"
  by simp

lemma code_tolower: "code (tolower c) = (if isupper c then code c + 32 else code c)"
  by (simp add: tolower_def isupper_def of_char_of)

lemma tolower_idem [simp]: "tolower (tolower c) = tolower c"
proof (cases "isupper c")
  case True
  then have "\<not> isupper (tolower c)"
    by (simp add: isupper_def code_tolower)
  then show ?thesis by (simp add: tolower_def [of "tolower c"])
next
  case False
  then show ?thesis by (simp add: tolower_def)
qed

section \<open>Lists and multisets\<close>

lemma takeWhile_all: "(\<forall>x\<in>set xs. P x) \<Longrightarrow> takeWhile P (xs @ ys) = xs @ takeWhile P ys"
  by (induction xs) auto

lemma dropWhile_all: "(\<forall>x\<in>set xs. P x) \<Longrightarrow> dropWhile P (xs @ ys) = dropWhile P ys"
  by (induction xs) auto

lemma sum_list_update:
  fixes xs :: "'a::ab_group_add list"
  assumes "i < length xs"
  shows "sum_list (xs[i := v]) = sum_list xs - xs ! i + v"
  using assms
proof (induction xs arbitrary: i)
  case (Cons x xs)
  then show ?case by (cases i) (auto simp: algebra_simps)
qed simp

lemma sum_list_map_update:
  fixes f :: "'b \<Rightarrow> 'a::ab_group_add"
  assumes "i < length xs"
  shows "sum_list (map f (xs[i := v])) = sum_list (map f xs) - f (xs ! i) + f v"
  using sum_list_update [of i "map f xs" "f v"] assms by (simp add: map_update)

lemma set_update_subset: "set (xs[i := v]) \<subseteq> insert v (set xs)"
  by (rule set_update_subset_insert)

lemma list_all_update: "list_all P xs \<Longrightarrow> P v \<Longrightarrow> list_all P (xs[i := v])"
  using set_update_subset [of xs i v] by (auto simp: list_all_iff)

lemma nth_mem_mset: "i < length xs \<Longrightarrow> xs ! i \<in># mset xs"
  by simp

lemma mset_map_update:
  assumes "i < length xs"
  shows "add_mset (f (xs ! i)) (mset (map f (xs[i := v]))) = add_mset (f v) (mset (map f xs))"
  using assms by (simp add: map_update mset_update)

end
