(* ===== verification/C_Stdlib.thy ===== *)
theory C_Stdlib
  imports C_Prelude
begin

text \<open>
  The part of the C library that the sources call on strings, as executable functions:
  decimal printing, \<open>strtol\<close>, \<open>sscanf\<close> with the directives that occur in the sources,
  \<open>strtok_r\<close>, \<open>fgets\<close> and the truncation of \<open>snprintf\<close> and \<open>strncpy\<close>. A file is the string
  of its bytes; the texts hold no NUL byte.
\<close>

section \<open>Printing numbers\<close>

fun show_nat :: "nat \<Rightarrow> string" where
  "show_nat n = (if n < 10 then [char_of (48 + n)] else show_nat (n div 10) @ [char_of (48 + n mod 10)])"

declare show_nat.simps [simp del]

definition show_int :: "int \<Rightarrow> string" where
  "show_int i = (if i < 0 then CHR ''-'' # show_nat (nat (- i)) else show_nat (nat i))"

section \<open>Reading numbers\<close>

definition digits_val :: "string \<Rightarrow> int" where
  "digits_val ds = foldl (\<lambda>v c. 10 * v + (int (code c) - 48)) 0 ds"

text \<open>The optional sign of a number: whether it is negative, and the rest.\<close>

fun take_sign :: "string \<Rightarrow> bool \<times> string" where
  "take_sign (c # cs) =
     (if c = CHR ''-'' then (True, cs) else if c = CHR ''+'' then (False, cs) else (False, c # cs))"
| "take_sign [] = (False, [])"

text \<open>\<open>strtol (text, end, 10)\<close>: the value, the text at \<open>end\<close>, and whether \<open>errno = ERANGE\<close>.
  Without a digit \<open>end\<close> is the start of the text.\<close>

definition strtol :: "string \<Rightarrow> int \<times> string \<times> bool" where
  "strtol s =
     (let (neg, u) = take_sign (dropWhile isspace s);
          ds = takeWhile isdigit u;
          v = (if neg then - digits_val ds else digits_val ds)
      in if ds = [] then (0, s, False)
         else if v > LONG_MAX then (LONG_MAX, dropWhile isdigit u, True)
         else if v < LONG_MIN then (LONG_MIN, dropWhile isdigit u, True)
         else (v, dropWhile isdigit u, False))"

definition atoi :: "string \<Rightarrow> int" where
  "atoi s = int_of_long (fst (strtol s))"

section \<open>Scanning\<close>

datatype scan_dir = SSpace | SLit char | SInt | SLong | SStr nat | SChar

datatype scan_val = VInt int | VStr string | VChar char

text \<open>\<open>sscanf\<close>: the values converted before the first directive that fails, so its return
  value is their number. \<open>SInt\<close> is \<open>%d\<close>, \<open>SLong\<close> is \<open>%ld\<close>, \<open>SStr w\<close> is \<open>%ws\<close>.\<close>

fun sscanf :: "scan_dir list \<Rightarrow> string \<Rightarrow> scan_val list" where
  "sscanf [] s = []"
| "sscanf (SSpace # ds) s = sscanf ds (dropWhile isspace s)"
| "sscanf (SLit c # ds) s = (case s of x # xs \<Rightarrow> if x = c then sscanf ds xs else [] | [] \<Rightarrow> [])"
| "sscanf (SInt # ds) s =
     (let (v, rest, _) = strtol s in if rest = s then [] else VInt (int_of_long v) # sscanf ds rest)"
| "sscanf (SLong # ds) s =
     (let (v, rest, _) = strtol s in if rest = s then [] else VInt v # sscanf ds rest)"
| "sscanf (SStr w # ds) s =
     (let t = dropWhile isspace s; u = take w (takeWhile (\<lambda>c. \<not> isspace c) t)
      in if u = [] then [] else VStr u # sscanf ds (drop (length u) t))"
| "sscanf (SChar # ds) s = (case s of x # xs \<Rightarrow> VChar x # sscanf ds xs | [] \<Rightarrow> [])"

text \<open>A literal text inside a format.\<close>

abbreviation SLits :: "string \<Rightarrow> scan_dir list" where
  "SLits s \<equiv> map (\<lambda>c. if isspace c then SSpace else SLit c) s"

section \<open>Tokens and lines\<close>

text \<open>The tokens that repeated \<open>strtok_r\<close> calls return.\<close>

function strtok :: "(char \<Rightarrow> bool) \<Rightarrow> string \<Rightarrow> string list" where
  "strtok sep s =
     (let t = dropWhile sep s
      in if t = [] then []
         else takeWhile (\<lambda>c. \<not> sep c) t # strtok sep (dropWhile (\<lambda>c. \<not> sep c) t))"
  by pat_completeness auto
termination
proof (relation "measure (\<lambda>(sep, s). length s)")
  fix sep :: "char \<Rightarrow> bool" and s t
  assume t: "t = dropWhile sep s" and "t \<noteq> []"
  then have "\<not> sep (hd t)" using hd_dropWhile by blast
  with \<open>t \<noteq> []\<close> have "length (dropWhile (\<lambda>c. \<not> sep c) t) < length t"
    by (cases t) (auto simp: le_imp_less_Suc length_dropWhile_le)
  also have "\<dots> \<le> length s" unfolding t by (rule length_dropWhile_le)
  finally show "((sep, dropWhile (\<lambda>c. \<not> sep c) t), sep, s) \<in> measure (\<lambda>(sep, s). length s)"
    by simp
qed simp

declare strtok.simps [simp del]

text \<open>\<open>fgets\<close> into a buffer of \<open>n\<close> bytes: up to \<open>n - 1\<close> bytes, ending after a newline.
  \<open>None\<close> at the end of the file.\<close>

fun take_line :: "nat \<Rightarrow> string \<Rightarrow> string \<times> string" where
  "take_line 0 s = ([], s)"
| "take_line (Suc n) [] = ([], [])"
| "take_line (Suc n) (c # cs) =
     (if c = newline then ([c], cs) else (case take_line n cs of (l, r) \<Rightarrow> (c # l, r)))"

definition fgets :: "nat \<Rightarrow> string \<Rightarrow> (string \<times> string) option" where
  "fgets n s = (if s = [] then None else Some (take_line (n - 1) s))"

lemma take_line_append: "take_line n s = (l, r) \<Longrightarrow> l @ r = s"
  by (induction n s arbitrary: l r rule: take_line.induct) (auto split: if_splits prod.splits)

lemma take_line_nonempty: "take_line (Suc n) s = (l, r) \<Longrightarrow> s \<noteq> [] \<Longrightarrow> l \<noteq> []"
  by (cases s) (auto split: if_splits prod.splits)

lemma take_line_shorter: "0 < n \<Longrightarrow> s \<noteq> [] \<Longrightarrow> length (snd (take_line n s)) < length s"
proof -
  assume "0 < n" "s \<noteq> []"
  obtain l r where lr: "take_line n s = (l, r)" by (cases "take_line n s")
  with \<open>0 < n\<close> \<open>s \<noteq> []\<close> have "l \<noteq> []" by (cases n) (auto dest: take_line_nonempty)
  with take_line_append [OF lr] show ?thesis by (auto simp: lr)
qed

text \<open>The lines that a loop of \<open>fgets\<close> calls on a file returns.\<close>

function fgets_lines :: "nat \<Rightarrow> string \<Rightarrow> string list" where
  "fgets_lines n s =
     (if s = [] \<or> n \<le> 1 then []
      else fst (take_line (n - 1) s) # fgets_lines n (snd (take_line (n - 1) s)))"
  by pat_completeness auto
termination
  by (relation "measure (\<lambda>(n, s). length s)") (auto simp: take_line_shorter)

declare fgets_lines.simps [simp del]

text \<open>\<open>snprintf\<close> and \<open>strncpy\<close> into a buffer of \<open>n\<close> bytes keep at most \<open>n - 1\<close> bytes of text.\<close>

definition fit :: "nat \<Rightarrow> string \<Rightarrow> string" where
  "fit n s = take (n - 1) s"

lemma fit_id: "length s < n \<Longrightarrow> fit n s = s"
  by (simp add: fit_def)

lemma length_fit: "0 < n \<Longrightarrow> length (fit n s) < n"
  by (simp add: fit_def)

section \<open>Facts\<close>

lemma isdigit_char_of: "d < (10::nat) \<Longrightarrow> isdigit (char_of (48 + d))"
  by (simp add: isdigit_def of_char_of)

lemma show_nat_digits: "\<forall>c\<in>set (show_nat n). isdigit c"
proof (induction n rule: show_nat.induct)
  case (1 n)
  show ?case
  proof (cases "n < 10")
    case True
    then show ?thesis by (subst show_nat.simps) (simp add: isdigit_char_of)
  next
    case False
    with 1 show ?thesis by (subst show_nat.simps) (auto simp: isdigit_char_of)
  qed
qed

lemma show_nat_nonempty [simp]: "show_nat n \<noteq> []"
  by (subst show_nat.simps) simp

lemma digits_val_snoc: "digits_val (ds @ [c]) = 10 * digits_val ds + (int (code c) - 48)"
  by (simp add: digits_val_def)

lemma digits_val_show_nat [simp]: "digits_val (show_nat n) = int n"
proof (induction n rule: show_nat.induct)
  case (1 n)
  show ?case
  proof (cases "n < 10")
    case True
    then show ?thesis by (subst show_nat.simps) (simp add: digits_val_def of_char_of)
  next
    case False
    with 1 have "digits_val (show_nat (n div 10)) = int (n div 10)" by simp
    moreover have "10 * int (n div 10) + int (n mod 10) = int n" by presburger
    ultimately show ?thesis using False
      by (subst show_nat.simps) (simp add: digits_val_snoc of_char_of)
  qed
qed

lemma isdigit_not_isspace: "isdigit c \<Longrightarrow> \<not> isspace c"
  by (auto simp: isdigit_def isspace_def)

lemma isdigit_not_sign: "isdigit c \<Longrightarrow> c \<noteq> CHR ''-'' \<and> c \<noteq> CHR ''+''"
  by (auto simp: isdigit_def)

lemma show_int_not_space: "\<forall>c\<in>set (show_int v). \<not> isspace c"
proof -
  have "\<forall>c\<in>set (show_nat n). \<not> isspace c" for n
    using show_nat_digits [of n] isdigit_not_isspace by blast
  moreover have "\<not> isspace (CHR ''-'')" by (simp add: isspace_def)
  ultimately show ?thesis by (auto simp: show_int_def)
qed

lemma take_sign_digits: "isdigit c \<Longrightarrow> take_sign (c # cs) = (False, c # cs)"
  by (simp add: isdigit_not_sign)

text \<open>Reading back a printed number, whatever non-digit follows it.\<close>

lemma strtol_show_int:
  assumes "in_long v" and "rest = [] \<or> \<not> isdigit (hd rest)"
  shows "strtol (show_int v @ rest) = (v, rest, False)"
proof -
  have tw: "takeWhile isdigit (show_nat n @ rest) = show_nat n"
    and dw: "dropWhile isdigit (show_nat n @ rest) = rest" for n
    using assms(2) show_nat_digits [of n]
    by (cases rest; simp add: takeWhile_all dropWhile_all)+
  obtain c cs where c: "show_nat (nat v) = c # cs" "isdigit c"
    using show_nat_digits [of "nat v"] show_nat_nonempty [of "nat v"] by (cases "show_nat (nat v)") auto
  show ?thesis
  proof (cases "v < 0")
    case True
    have "\<not> isspace (CHR ''-'')" by (simp add: isspace_def)
    then have "dropWhile isspace (show_int v @ rest) = CHR ''-'' # show_nat (nat (- v)) @ rest"
      using True by (simp add: show_int_def)
    then show ?thesis using True assms(1) by (simp add: strtol_def tw dw c_int_simps)
  next
    case False
    then have "dropWhile isspace (show_int v @ rest) = show_nat (nat v) @ rest"
      using c by (simp add: show_int_def isdigit_not_isspace)
    moreover have "take_sign (show_nat (nat v) @ rest) = (False, show_nat (nat v) @ rest)"
      using c by (simp add: isdigit_not_sign)
    ultimately show ?thesis using False assms(1) by (simp add: strtol_def tw dw c_int_simps)
  qed
qed

lemma show_int_nonempty [simp]: "show_int v \<noteq> []"
  by (simp add: show_int_def)

text \<open>Scanning back a printed number and a word.\<close>

lemma sscanf_show_int:
  assumes "in_int v" and "rest = [] \<or> \<not> isdigit (hd rest)"
  shows "sscanf (SInt # ds) (show_int v @ rest) = VInt v # sscanf ds rest"
proof -
  have "in_long v" using assms(1) by (simp add: c_int_simps)
  from strtol_show_int [OF this assms(2)] assms(1) show ?thesis by simp
qed

lemma sscanf_show_long:
  assumes "in_long v" and "rest = [] \<or> \<not> isdigit (hd rest)"
  shows "sscanf (SLong # ds) (show_int v @ rest) = VInt v # sscanf ds rest"
  using strtol_show_int [OF assms] by simp

lemma sscanf_show_word:
  assumes "w \<noteq> []" and "\<forall>c\<in>set w. \<not> isspace c" and "length w \<le> n" and "rest = [] \<or> isspace (hd rest)"
  shows "sscanf (SStr n # ds) (w @ rest) = VStr w # sscanf ds rest"
proof -
  have "dropWhile isspace (w @ rest) = w @ rest" using assms(1,2) by (cases w) auto
  moreover have "takeWhile (\<lambda>c. \<not> isspace c) (w @ rest) = w"
    using takeWhile_all [OF assms(2), of rest] assms(4) by (cases rest) auto
  moreover have "take n w = w" using assms(3) by simp
  moreover have "0 < n" using assms(1,3) by (cases n) auto
  ultimately show ?thesis using assms(1) by (simp add: Let_def)
qed

text \<open>A loop of \<open>fgets\<close> calls on a file of complete lines that fit into the buffer returns them.\<close>

definition full_line :: "nat \<Rightarrow> string \<Rightarrow> bool" where
  "full_line n l \<longleftrightarrow> l \<noteq> [] \<and> last l = newline \<and> newline \<notin> set (butlast l) \<and> length l < n"

lemma take_line_full: "newline \<notin> set b \<Longrightarrow> length b < n \<Longrightarrow> take_line n (b @ newline # r) = (b @ [newline], r)"
proof (induction b arbitrary: n)
  case Nil
  then show ?case by (cases n) auto
next
  case (Cons c b)
  then show ?case by (cases n) auto
qed

lemma fgets_lines_full: "list_all (full_line n) ls \<Longrightarrow> fgets_lines n (concat ls) = ls"
proof (induction ls)
  case Nil
  show ?case by (subst fgets_lines.simps) simp
next
  case (Cons l ls)
  then have l: "full_line n l" by simp
  then have b: "butlast l @ [newline] = l" using append_butlast_last_id [of l] by (auto simp: full_line_def)
  have "take_line (n - 1) (butlast l @ newline # concat ls) = (butlast l @ [newline], concat ls)"
    using l by (intro take_line_full) (auto simp: full_line_def less_diff_conv Suc_le_eq)
  moreover have "butlast l @ newline # concat ls = (butlast l @ [newline]) @ concat ls" by simp
  ultimately have t: "take_line (n - 1) (l @ concat ls) = (l, concat ls)" by (simp only: b)
  have "1 < n" "l \<noteq> []" using l by (cases l, auto simp: full_line_def)+
  with t Cons show ?case by (subst fgets_lines.simps) (simp del: concat_eq_Nil_conv)
qed

lemma strtok_Nil [simp]: "strtok sep [] = []"
  by (subst strtok.simps) simp

lemma strtok_sep: "sep c \<Longrightarrow> strtok sep (c # s) = strtok sep s"
  by (subst (1 2) strtok.simps) simp

lemma strtok_token:
  assumes "t \<noteq> []" and "\<forall>c\<in>set t. \<not> sep c" and "r = [] \<or> sep (hd r)"
  shows "strtok sep (t @ r) = t # strtok sep r"
proof -
  have "dropWhile sep (t @ r) = t @ r" using assms(1,2) by (cases t) auto
  moreover have "takeWhile (\<lambda>c. \<not> sep c) (t @ r) = t" "dropWhile (\<lambda>c. \<not> sep c) (t @ r) = r"
    using takeWhile_all [OF assms(2), of r] dropWhile_all [OF assms(2), of r] assms(3) by (cases r; simp)+
  moreover have "t @ r \<noteq> []" using assms(1) by simp
  ultimately show ?thesis unfolding strtok.simps [of sep "t @ r"] Let_def by simp
qed

text \<open>The lines of a text that ends with a newline.\<close>

lemma strtok_lines:
  "list_all (\<lambda>l. l \<noteq> [] \<and> newline \<notin> set l) ls \<Longrightarrow> strtok (\<lambda>c. c = newline) (concat (map (\<lambda>l. l @ [newline]) ls)) = ls"
proof (induction ls)
  case (Cons l ls)
  then have "strtok (\<lambda>c. c = newline) (l @ newline # concat (map (\<lambda>l. l @ [newline]) ls)) =
      l # strtok (\<lambda>c. c = newline) (newline # concat (map (\<lambda>l. l @ [newline]) ls))"
    by (intro strtok_token) auto
  with Cons show ?case by (simp add: strtok_sep)
qed simp

lemma strtok_no_sep: "\<forall>t\<in>set (strtok sep s). t \<noteq> [] \<and> (\<forall>c\<in>set t. \<not> sep c)"
proof (induction sep s rule: strtok.induct)
  case (1 sep s)
  show ?case
  proof (cases "dropWhile sep s")
    case Nil
    then show ?thesis by (subst strtok.simps) simp
  next
    case (Cons c cs)
    then have "\<not> sep c" using hd_dropWhile [of sep s] by simp
    then have hd_ok: "takeWhile (\<lambda>c. \<not> sep c) (c # cs) \<noteq> []" by simp
    have tl_ok: "\<forall>t\<in>set (strtok sep (dropWhile (\<lambda>c. \<not> sep c) (c # cs))). t \<noteq> [] \<and> (\<forall>c\<in>set t. \<not> sep c)"
      by (rule 1) (simp_all add: Cons)
    have "strtok sep s = takeWhile (\<lambda>c. \<not> sep c) (c # cs) # strtok sep (dropWhile (\<lambda>c. \<not> sep c) (c # cs))"
      by (subst strtok.simps) (simp add: Cons Let_def)
    with hd_ok tl_ok show ?thesis
      by (metis set_ConsD set_takeWhileD)
  qed
qed

lemma concat_fgets_lines: "1 < n \<Longrightarrow> concat (fgets_lines n s) = s"
proof (induction n s rule: fgets_lines.induct)
  case (1 n s)
  show ?case
  proof (cases "s = []")
    case True
    then show ?thesis by (subst fgets_lines.simps) simp
  next
    case False
    with 1 have "concat (fgets_lines n (snd (take_line (n - 1) s))) = snd (take_line (n - 1) s)"
      by simp
    moreover have "fst (take_line (n - 1) s) @ snd (take_line (n - 1) s) = s"
      by (rule take_line_append) simp
    ultimately show ?thesis using False 1(2) by (subst fgets_lines.simps) simp
  qed
qed

section \<open>Sorting with a comparison function\<close>

text \<open>\<open>qsort\<close> with a comparison function that returns a negative, zero or positive number.\<close>

fun insert_by :: "('a \<Rightarrow> 'a \<Rightarrow> int) \<Rightarrow> 'a \<Rightarrow> 'a list \<Rightarrow> 'a list" where
  "insert_by cmp x [] = [x]"
| "insert_by cmp x (y # ys) = (if cmp x y \<le> 0 then x # y # ys else y # insert_by cmp x ys)"

definition qsort_by :: "('a \<Rightarrow> 'a \<Rightarrow> int) \<Rightarrow> 'a list \<Rightarrow> 'a list" where
  "qsort_by cmp xs = foldr (insert_by cmp) xs []"

text \<open>What \<open>qsort\<close> expects of the comparison function and what it gives in return.\<close>

locale comparator =
  fixes cmp :: "'a \<Rightarrow> 'a \<Rightarrow> int"
  assumes cmp_linear: "cmp x y \<le> 0 \<or> cmp y x \<le> 0"
    and cmp_trans: "cmp x y \<le> 0 \<Longrightarrow> cmp y z \<le> 0 \<Longrightarrow> cmp x z \<le> 0"
begin

lemma mset_insert_by: "mset (insert_by cmp x ys) = add_mset x (mset ys)"
  by (induction ys) auto

lemma mset_qsort_by: "mset (qsort_by cmp xs) = mset xs"
  by (induction xs) (auto simp: qsort_by_def mset_insert_by)

lemma sorted_insert_by:
  assumes "sorted_wrt (\<lambda>x y. cmp x y \<le> 0) ys"
  shows "sorted_wrt (\<lambda>x y. cmp x y \<le> 0) (insert_by cmp x ys)"
  using assms
proof (induction ys)
  case (Cons y ys)
  have "set (insert_by cmp x ys) = insert x (set ys)"
    using mset_insert_by [of x ys] by (metis set_mset_add_mset_insert set_mset_mset)
  then show ?case using Cons cmp_linear [of x y] cmp_trans [of x y] by auto
qed simp

lemma sorted_qsort_by: "sorted_wrt (\<lambda>x y. cmp x y \<le> 0) (qsort_by cmp xs)"
  by (induction xs) (auto simp: qsort_by_def intro: sorted_insert_by)

end

end
