(* ===== verification/Order_Queue.thy ===== *)
theory Order_Queue
  imports C_Stdlib
begin

text \<open>
  The order queue of the courier simulation (\<open>HW5/order_queue.c\<close>, \<open>HW5/order_queue.h\<close>): a
  singly linked list of heap nodes kept sorted by priority and order id. The heap is a
  partial map from 64-bit addresses to nodes, with 0 as \<open>NULL\<close>; an access to an address
  outside it is undefined behaviour, the value \<open>None\<close>. The abstract contents of a queue are
  the orders along the chain of nodes (\<open>queue_rep\<close>), and the locale \<open>priority_queue\<close> states
  what the clients of the queue rely on.
\<close>

section \<open>Data\<close>

datatype Priority = PRIORITY_EXPRESS | PRIORITY_STANDARD | PRIORITY_ECONOMY

fun prio_code :: "Priority \<Rightarrow> int" where
  "prio_code PRIORITY_EXPRESS = 1"
| "prio_code PRIORITY_STANDARD = 2"
| "prio_code PRIORITY_ECONOMY = 3"

record Order =
  order_id :: int
  recipient :: string
  priority :: Priority
  duration_units :: int

type_synonym addr = "64 word"

record OrderNode =
  node_order :: Order
  next_node :: addr

type_synonym heap = "addr \<rightharpoonup> OrderNode"

record OrderQueue =
  queue_head :: addr
  queue_len :: "64 word"

type_synonym qstate = "heap \<times> OrderQueue"

section \<open>Operations\<close>

definition queue_init :: "heap \<Rightarrow> qstate" where
  "queue_init h = (h, \<lparr>queue_head = 0, queue_len = 0\<rparr>)"

definition order_has_higher_priority :: "Order \<Rightarrow> Order \<Rightarrow> bool" where
  "order_has_higher_priority new_order queued_order =
     (if priority new_order \<noteq> priority queued_order
      then prio_code (priority new_order) < prio_code (priority queued_order)
      else order_id new_order < order_id queued_order)"

text \<open>The scanning loop of \<open>queue_push\<close>: the node after which the new one is linked.\<close>

partial_function (option) scan_node :: "heap \<Rightarrow> Order \<Rightarrow> addr \<Rightarrow> addr option" where
  "scan_node h order p =
     (case h p of
        None \<Rightarrow> None
      | Some n \<Rightarrow>
          if next_node n = 0 then Some p
          else (case h (next_node n) of
                  None \<Rightarrow> None
                | Some m \<Rightarrow>
                    if \<not> order_has_higher_priority order (node_order m)
                    then scan_node h order (next_node n)
                    else Some p))"

text \<open>\<open>queue_push\<close>; \<open>new_node\<close> is the address that \<open>malloc\<close> returned, 0 when it failed. The
  result is the return code and the new state.\<close>

definition queue_push :: "addr \<Rightarrow> qstate \<Rightarrow> Order \<Rightarrow> (int \<times> qstate) option" where
  "queue_push new_node st order =
     (case st of (h, queue) \<Rightarrow>
        if new_node = 0 then Some (- 1, (h, queue))
        else
          let h1 = h(new_node \<mapsto> \<lparr>node_order = order, next_node = 0\<rparr>) in
          if queue_head queue = 0
          then Some (0, (h1(new_node \<mapsto> \<lparr>node_order = order, next_node = queue_head queue\<rparr>),
                         queue\<lparr>queue_head := new_node, queue_len := queue_len queue + 1\<rparr>))
          else (case h1 (queue_head queue) of
             None \<Rightarrow> None
           | Some first \<Rightarrow>
               if order_has_higher_priority order (node_order first)
               then Some (0, (h1(new_node \<mapsto> \<lparr>node_order = order, next_node = queue_head queue\<rparr>),
                              queue\<lparr>queue_head := new_node, queue_len := queue_len queue + 1\<rparr>))
               else (case scan_node h1 order (queue_head queue) of
                  None \<Rightarrow> None
                | Some p \<Rightarrow>
                    (case h1 p of
                       None \<Rightarrow> None
                     | Some n \<Rightarrow>
                         Some (0, (h1(new_node \<mapsto> \<lparr>node_order = order, next_node = next_node n\<rparr>,
                                      p \<mapsto> n\<lparr>next_node := new_node\<rparr>),
                                   queue\<lparr>queue_len := queue_len queue + 1\<rparr>))))))"

text \<open>\<open>queue_pop\<close>: \<open>None\<close> inside the result when it returns 0, the removed order when it
  returns 1. The freed node leaves the heap.\<close>

definition queue_pop :: "qstate \<Rightarrow> (Order option \<times> qstate) option" where
  "queue_pop st =
     (case st of (h, queue) \<Rightarrow>
        if queue_head queue = 0 then Some (None, (h, queue))
        else (case h (queue_head queue) of
                None \<Rightarrow> None
              | Some first_node \<Rightarrow>
                  Some (Some (node_order first_node),
                        (h(queue_head queue := None),
                         queue\<lparr>queue_head := next_node first_node,
                               queue_len := queue_len queue - 1\<rparr>))))"

definition queue_size :: "qstate \<Rightarrow> 64 word" where
  "queue_size st = queue_len (snd st)"

partial_function (option) queue_clear :: "qstate \<Rightarrow> qstate option" where
  "queue_clear st =
     (case queue_pop st of
        None \<Rightarrow> None
      | Some (None, st') \<Rightarrow> Some st'
      | Some (Some ignored, st') \<Rightarrow> queue_clear st')"

text \<open>The \<open>default\<close> case of the switch is not reachable: an enumerator is the only value
  that \<open>parse_priority\<close> stores.\<close>

fun priority_to_string :: "Priority \<Rightarrow> string" where
  "priority_to_string PRIORITY_EXPRESS = ''EXPRESS''"
| "priority_to_string PRIORITY_STANDARD = ''STANDARD''"
| "priority_to_string PRIORITY_ECONOMY = ''ECONOMY''"

definition parse_priority :: "string \<Rightarrow> Priority option" where
  "parse_priority text =
     (if text = ''EXPRESS'' then Some PRIORITY_EXPRESS
      else if text = ''STANDARD'' then Some PRIORITY_STANDARD
      else if text = ''ECONOMY'' then Some PRIORITY_ECONOMY
      else None)"

section \<open>Abstract contents\<close>

text \<open>The nodes reached from an address, with the orders they hold.\<close>

fun chain :: "heap \<Rightarrow> addr \<Rightarrow> (addr \<times> Order) list \<Rightarrow> bool" where
  "chain h p [] = (p = 0)"
| "chain h p ((a, x) # xs) =
     (p = a \<and> a \<noteq> 0 \<and>
      (case h a of None \<Rightarrow> False | Some n \<Rightarrow> node_order n = x \<and> chain h (next_node n) xs))"

abbreviation later_order :: "Order \<Rightarrow> Order \<Rightarrow> bool" where
  "later_order a b \<equiv> \<not> order_has_higher_priority b a"

text \<open>The queue holds the orders \<open>os\<close>, in priority order; the heap holds its nodes and
  nothing else; the size field counts them.\<close>

definition queue_rep :: "qstate \<Rightarrow> Order list \<Rightarrow> bool" where
  "queue_rep st os \<longleftrightarrow>
     (\<exists>xs. chain (fst st) (queue_head (snd st)) xs \<and> distinct (map fst xs) \<and> map snd xs = os \<and>
           dom (fst st) = fst ` set xs \<and> queue_len (snd st) = of_nat (length xs) \<and>
           sorted_wrt later_order os)"

text \<open>The reference operation: insertion behind every order that is not after the new one.\<close>

fun insert_order :: "Order \<Rightarrow> Order list \<Rightarrow> Order list" where
  "insert_order x [] = [x]"
| "insert_order x (y # ys) =
     (if order_has_higher_priority x y then x # y # ys else y # insert_order x ys)"

section \<open>The interface\<close>

text \<open>Running a pop operation \<open>n\<close> times.\<close>

fun drain :: "('q \<Rightarrow> ('a option \<times> 'q) option) \<Rightarrow> nat \<Rightarrow> 'q \<Rightarrow> 'a list" where
  "drain pop 0 q = []"
| "drain pop (Suc n) q =
     (case pop q of Some (Some x, q') \<Rightarrow> x # drain pop n q' | _ \<Rightarrow> [])"

locale priority_queue =
  fixes rep :: "'q \<Rightarrow> 'a list \<Rightarrow> bool"
    and before :: "'a \<Rightarrow> 'a \<Rightarrow> bool"
    and fresh :: "'q \<Rightarrow> 'm \<Rightarrow> bool"
    and push :: "'m \<Rightarrow> 'q \<Rightarrow> 'a \<Rightarrow> (int \<times> 'q) option"
    and pop :: "'q \<Rightarrow> ('a option \<times> 'q) option"
    and len :: "'q \<Rightarrow> 64 word"
  assumes rep_unique: "rep q xs \<Longrightarrow> rep q ys \<Longrightarrow> xs = ys"
    and rep_sorted: "rep q xs \<Longrightarrow> sorted_wrt (\<lambda>a b. \<not> before b a) xs"
    and rep_push: "rep q xs \<Longrightarrow> fresh q m \<Longrightarrow>
          \<exists>q' us vs. push m q x = Some (0, q') \<and> xs = us @ vs \<and> rep q' (us @ x # vs)"
    and rep_pop_Nil: "rep q [] \<Longrightarrow> pop q = Some (None, q)"
    and rep_pop_Cons: "rep q (x # xs) \<Longrightarrow> \<exists>q'. pop q = Some (Some x, q') \<and> rep q' xs"
    and rep_len: "rep q xs \<Longrightarrow> len q = 0 \<longleftrightarrow> xs = []"
begin

lemma rep_push_mset:
  assumes "rep q xs" and "fresh q m"
  shows "\<exists>q' ys. push m q x = Some (0, q') \<and> rep q' ys \<and> mset ys = add_mset x (mset xs)"
  using rep_push [OF assms, of x] by fastforce

lemma rep_pop_cases:
  assumes "rep q xs"
  shows "(xs = [] \<and> pop q = Some (None, q)) \<or>
         (\<exists>x ys q'. xs = x # ys \<and> pop q = Some (Some x, q') \<and> rep q' ys)"
  using assms rep_pop_Nil rep_pop_Cons by (cases xs) auto

lemma drain_all: "rep q xs \<Longrightarrow> drain pop (length xs) q = xs"
proof (induction xs arbitrary: q)
  case (Cons x xs)
  then obtain q' where "pop q = Some (Some x, q')" "rep q' xs"
    using rep_pop_Cons by blast
  with Cons.IH show ?case by simp
qed simp

lemma drain_sorted: "rep q xs \<Longrightarrow> sorted_wrt (\<lambda>a b. \<not> before b a) (drain pop (length xs) q)"
  by (simp add: drain_all rep_sorted)

end

section \<open>The order\<close>

lemma order_has_higher_priority_iff:
  "order_has_higher_priority a b \<longleftrightarrow>
     prio_code (priority a) < prio_code (priority b) \<or>
     (prio_code (priority a) = prio_code (priority b) \<and> order_id a < order_id b)"
  by (cases "priority a"; cases "priority b") (auto simp: order_has_higher_priority_def)

lemma higher_trans:
  "order_has_higher_priority a b \<Longrightarrow> \<not> order_has_higher_priority c b \<Longrightarrow> order_has_higher_priority a c"
  by (auto simp: order_has_higher_priority_iff)

lemma higher_asym: "order_has_higher_priority a b \<Longrightarrow> \<not> order_has_higher_priority b a"
  by (auto simp: order_has_higher_priority_iff)

lemma insert_order_split:
  assumes "\<forall>x\<in>set us. \<not> order_has_higher_priority o' x"
    and "vs = [] \<or> order_has_higher_priority o' (hd vs)"
  shows "insert_order o' (us @ vs) = us @ o' # vs"
  using assms by (induction us) (cases vs; auto)+

lemma insert_order_parts:
  "\<exists>us vs. xs = us @ vs \<and> insert_order x xs = us @ x # vs \<and>
           (\<forall>y\<in>set us. \<not> order_has_higher_priority x y) \<and>
           (vs = [] \<or> order_has_higher_priority x (hd vs))"
proof (induction xs)
  case (Cons y ys)
  then obtain us vs where IH: "ys = us @ vs" "insert_order x ys = us @ x # vs"
    "\<forall>y\<in>set us. \<not> order_has_higher_priority x y" "vs = [] \<or> order_has_higher_priority x (hd vs)"
    by blast
  show ?case
  proof (cases "order_has_higher_priority x y")
    case True
    then have "y # ys = [] @ (y # ys) \<and> insert_order x (y # ys) = [] @ x # y # ys \<and>
      (\<forall>y\<in>set []. \<not> order_has_higher_priority x y) \<and> order_has_higher_priority x (hd (y # ys))"
      by simp
    then show ?thesis by blast
  next
    case False
    then have "y # ys = (y # us) @ vs \<and> insert_order x (y # ys) = (y # us) @ x # vs"
      using IH by simp
    then show ?thesis using IH(3,4) False by (metis set_ConsD)
  qed
qed simp

lemma mset_insert_order [simp]: "mset (insert_order x xs) = add_mset x (mset xs)"
  by (induction xs) auto

lemma set_insert_order [simp]: "set (insert_order x xs) = insert x (set xs)"
  by (induction xs) auto

lemma sorted_insert_order:
  "sorted_wrt later_order xs \<Longrightarrow> sorted_wrt later_order (insert_order x xs)"
  by (induction xs) (auto simp: higher_asym dest: higher_trans)

section \<open>Chains\<close>

lemma chain_Cons_node [simp]:
  "chain h p ((a, x) # xs) \<longleftrightarrow>
     p = a \<and> a \<noteq> 0 \<and> (\<exists>n. h a = Some n \<and> node_order n = x \<and> chain h (next_node n) xs)"
  by (auto split: option.splits)

declare chain.simps(2) [simp del]

lemma chain_frame: "a \<notin> fst ` set xs \<Longrightarrow> chain (h(a := v)) p xs = chain h p xs"
proof (induction xs arbitrary: p)
  case (Cons w ws)
  then show ?case by (cases w) auto
qed simp

lemma chain_unique: "chain h p xs \<Longrightarrow> chain h p ys \<Longrightarrow> xs = ys"
proof (induction xs arbitrary: p ys)
  case Nil
  then show ?case by (cases ys) auto
next
  case (Cons x xs)
  then show ?case by (cases x; cases ys) auto
qed

lemma chain_split_node:
  assumes "chain h p (us @ (a, x) # vs)"
  obtains n where "h a = Some n" "node_order n = x" "chain h (next_node n) vs" "a \<noteq> 0"
  using assms
proof (induction us arbitrary: p)
  case (Cons u us)
  then show ?case by (cases u) auto
qed auto

lemma chain_insert_after:
  assumes "chain h p (us @ (a, x) # vs)" and "distinct (map fst (us @ (a, x) # vs))"
    and "b \<notin> fst ` set (us @ (a, x) # vs)" and "b \<noteq> 0" and "h a = Some n"
  shows "chain (h(b \<mapsto> \<lparr>node_order = y, next_node = next_node n\<rparr>, a \<mapsto> n\<lparr>next_node := b\<rparr>)) p
           (us @ (a, x) # (b, y) # vs)"
  using assms
proof (induction us arbitrary: p)
  case Nil
  let ?h' = "h(b \<mapsto> \<lparr>node_order = y, next_node = next_node n\<rparr>)"
  have "chain (?h'(a \<mapsto> n\<lparr>next_node := b\<rparr>)) (next_node n) vs = chain h (next_node n) vs"
    using Nil by (simp add: chain_frame del: fun_upd_apply)
  then show ?case using Nil by (simp del: fun_upd_apply add: fun_upd_same fun_upd_other)
next
  case (Cons u us)
  then show ?case by (cases u) auto
qed

lemma scan_node_spec:
  assumes "chain h p ((p, x) # xs)" and "\<not> order_has_higher_priority o' x"
  shows "\<exists>us a y vs. (p, x) # xs = us @ (a, y) # vs \<and> scan_node h o' p = Some a \<and>
           (\<forall>z\<in>set (map snd us @ [y]). \<not> order_has_higher_priority o' z) \<and>
           (vs = [] \<or> order_has_higher_priority o' (snd (hd vs)))"
  using assms
proof (induction xs arbitrary: p x)
  case Nil
  then have "scan_node h o' p = Some p"
    by (auto simp: scan_node.simps [of h o' p] split: option.splits)
  with Nil(2) have "(p, x) # [] = [] @ (p, x) # [] \<and> scan_node h o' p = Some p \<and>
      (\<forall>z\<in>set (map snd [] @ [x]). \<not> order_has_higher_priority o' z)"
    by simp
  then show ?case by blast
next
  case (Cons w ws)
  obtain q y where w: "w = (q, y)" by (cases w)
  from Cons.prems obtain n where n: "h p = Some n" "next_node n = q" "chain h q ((q, y) # ws)"
    by (auto simp: w split: option.splits)
  then obtain m where m: "h q = Some m" "node_order m = y" "q \<noteq> 0"
    by auto
  show ?case
  proof (cases "order_has_higher_priority o' y")
    case True
    then have "scan_node h o' p = Some p"
      using n m by (auto simp: scan_node.simps [of h o' p])
    with True Cons.prems(2) have "(p, x) # w # ws = [] @ (p, x) # (w # ws) \<and> scan_node h o' p = Some p \<and>
      (\<forall>z\<in>set (map snd [] @ [x]). \<not> order_has_higher_priority o' z) \<and> order_has_higher_priority o' (snd (hd (w # ws)))"
      by (simp add: w)
    then show ?thesis by blast
  next
    case False
    from Cons.IH [OF n(3) False] obtain us a z vs where IH:
      "(q, y) # ws = us @ (a, z) # vs" "scan_node h o' q = Some a"
      "\<forall>z\<in>set (map snd us @ [z]). \<not> order_has_higher_priority o' z"
      "vs = [] \<or> order_has_higher_priority o' (snd (hd vs))" by blast
    have "scan_node h o' p = Some a"
      using n m False IH(2) by (auto simp: scan_node.simps [of h o' p])
    moreover have "(p, x) # w # ws = ((p, x) # us) @ (a, z) # vs" using IH(1) w by simp
    moreover have "\<forall>z\<in>set (map snd ((p, x) # us) @ [z]). \<not> order_has_higher_priority o' z"
      using IH(3) Cons.prems(2) by simp
    ultimately show ?thesis using IH(4) by blast
  qed
qed

section \<open>The operations refine the list operations\<close>

text \<open>The number of nodes stays below \<open>2 ^ 64\<close>: their addresses are distinct and not \<open>NULL\<close>.\<close>

lemma chain_nonnull: "chain h p xs \<Longrightarrow> 0 \<notin> fst ` set xs"
proof (induction xs arbitrary: p)
  case (Cons w ws)
  obtain a x where w: "w = (a, x)" by (cases w)
  with Cons.prems obtain q where "chain h q ws" "a \<noteq> 0" by auto
  with Cons.IH show ?case by (force simp: w)
qed simp

lemma chain_length_bound:
  assumes "chain h p xs" and "distinct (map fst xs)"
  shows "length xs < 2 ^ 64"
proof -
  have "length xs = card (fst ` set xs)"
    using assms(2) by (metis distinct_card length_map list.set_map)
  also have "\<dots> < card (UNIV :: addr set)"
    using chain_nonnull [OF assms(1)] by (intro psubset_card_mono) auto
  finally show ?thesis by (simp add: card_word)
qed

lemma queue_rep_unique: "queue_rep st xs \<Longrightarrow> queue_rep st ys \<Longrightarrow> xs = ys"
  by (metis chain_unique queue_rep_def)

lemma queue_rep_init: "queue_rep (queue_init Map.empty) []"
  by (auto simp: queue_rep_def queue_init_def)

lemma queue_rep_size: "queue_rep st os \<Longrightarrow> queue_size st = of_nat (length os) \<and> length os < 2 ^ 64"
  by (auto simp: queue_rep_def queue_size_def dest: chain_length_bound)

lemma queue_rep_size_0: "queue_rep st os \<Longrightarrow> queue_size st = 0 \<longleftrightarrow> os = []"
proof -
  assume rep: "queue_rep st os"
  then have "unat (queue_size st) = length os"
    using queue_rep_size [OF rep] by (simp add: unat_of_nat take_bit_nat_eq_self)
  then show ?thesis by (metis length_0_conv unat_eq_zero)
qed

lemma queue_pop_Nil: "queue_rep st [] \<Longrightarrow> queue_pop st = Some (None, st)"
  by (cases st) (auto simp: queue_rep_def queue_pop_def)

lemma queue_pop_Cons:
  assumes "queue_rep st (x # os)"
  shows "\<exists>st'. queue_pop st = Some (Some x, st') \<and> queue_rep st' os"
proof -
  obtain h q where st: "st = (h, q)" by (cases st)
  from assms obtain a ys where ys: "chain h (queue_head q) ((a, x) # ys)" "distinct (map fst ((a, x) # ys))"
      "map snd ys = os" "dom h = fst ` set ((a, x) # ys)" "queue_len q = of_nat (length ((a, x) # ys))"
      "sorted_wrt later_order (x # os)"
    unfolding queue_rep_def st by (auto simp: Cons_eq_map_conv)
  then obtain n where n: "h a = Some n" "node_order n = x" "chain h (next_node n) ys"
    "queue_head q = a" "a \<noteq> 0" by (auto simp: chain_Cons_node)
  let ?st' = "(h(a := None), q\<lparr>queue_head := next_node n, queue_len := queue_len q - 1\<rparr>)"
  have "queue_pop st = Some (Some x, ?st')" using n by (simp add: queue_pop_def st)
  moreover have "chain (h(a := None)) (next_node n) ys" using n(3) ys(2) by (simp add: chain_frame)
  moreover have "dom (h(a := None)) = fst ` set ys" using ys(2,4) by auto
  ultimately show ?thesis using ys unfolding queue_rep_def by fastforce
qed

lemma queue_push_cases:
  assumes rep: "queue_rep (h, q) os" and fresh: "b \<noteq> 0" "h b = None"
  shows "\<exists>st'. queue_push b (h, q) x = Some (0, st') \<and> queue_rep st' (insert_order x os)"
proof -
  from rep obtain xs where xs: "chain h (queue_head q) xs" "distinct (map fst xs)" "map snd xs = os"
      "dom h = fst ` set xs" "queue_len q = of_nat (length xs)" "sorted_wrt later_order os"
    unfolding queue_rep_def by auto
  have nb: "b \<notin> fst ` set xs" using fresh(2) xs(4) by auto
  let ?h1 = "h(b \<mapsto> \<lparr>node_order = x, next_node = 0\<rparr>)"
  have front: "queue_rep (?h1(b \<mapsto> \<lparr>node_order = x, next_node = queue_head q\<rparr>),
      q\<lparr>queue_head := b, queue_len := queue_len q + 1\<rparr>) (insert_order x os)"
    if "insert_order x os = x # os"
  proof -
    have "chain (h(b \<mapsto> \<lparr>node_order = x, next_node = queue_head q\<rparr>)) b ((b, x) # xs)"
      using xs(1) fresh(1) nb by (simp add: chain_frame)
    moreover have "sorted_wrt later_order (insert_order x os)" by (rule sorted_insert_order [OF xs(6)])
    ultimately show ?thesis unfolding queue_rep_def
      using xs nb that by (intro exI [of _ "(b, x) # xs"]) auto
  qed
  show ?thesis
  proof (cases xs)
    case Nil
    then show ?thesis using xs fresh(1) front by (auto simp: queue_push_def Let_def)
  next
    case (Cons w ws)
    obtain p y where w: "w = (p, y)" by (cases w)
    with Cons xs(1) obtain n where n: "queue_head q = p" "p \<noteq> 0" "h p = Some n" "node_order n = y"
      by (auto simp: chain_Cons_node)
    have pb: "p \<noteq> b" using nb Cons w by auto
    have os: "os = y # map snd ws" using xs(3) Cons w by auto
    show ?thesis
    proof (cases "order_has_higher_priority x y")
      case True
      then show ?thesis using n pb fresh(1) front os by (auto simp: queue_push_def Let_def)
    next
      case False
      have "chain ?h1 p ((p, y) # ws)" 
        using xs(1) nb Cons w n(1) chain_frame [of b xs h _ p] by simp
      from scan_node_spec [OF this False] obtain us a z vs where sc:
        "(p, y) # ws = us @ (a, z) # vs" "scan_node ?h1 x p = Some a"
        "\<forall>z\<in>set (map snd us @ [z]). \<not> order_has_higher_priority x z"
        "vs = [] \<or> order_has_higher_priority x (snd (hd vs))" by blast
      have xs': "xs = us @ (a, z) # vs" using sc(1) Cons w by simp
      with xs(1) obtain m where m: "h a = Some m" "a \<noteq> 0" by (auto elim: chain_split_node)
      have ab: "a \<noteq> b" using nb xs' by auto
      let ?h2 = "h(b \<mapsto> \<lparr>node_order = x, next_node = next_node m\<rparr>, a \<mapsto> m\<lparr>next_node := b\<rparr>)"
      have ch: "chain ?h2 p (us @ (a, z) # (b, x) # vs)"
        by (rule chain_insert_after) (use xs(1,2) nb xs' fresh(1) m n(1) in auto)
      have ins: "insert_order x os = map snd us @ z # x # map snd vs"
      proof -
        have "insert_order x ((map snd us @ [z]) @ map snd vs) = (map snd us @ [z]) @ x # map snd vs"
          by (rule insert_order_split) (use sc(3,4) in \<open>cases vs; auto\<close>)+
        then show ?thesis using xs(3) xs' by simp
      qed
      have "queue_push b (h, q) x = Some (0, (?h2, q\<lparr>queue_len := queue_len q + 1\<rparr>))"
        using n pb ab m fresh(1) False sc(2) by (simp add: queue_push_def Let_def)
      moreover have "queue_rep (?h2, q\<lparr>queue_len := queue_len q + 1\<rparr>) (insert_order x os)"
        unfolding queue_rep_def
        using ch xs(2,4,5) xs' nb n(1) ins sorted_insert_order [OF xs(6), of x]
        by (intro exI [of _ "us @ (a, z) # (b, x) # vs"]) auto
      ultimately show ?thesis by blast
    qed
  qed
qed

abbreviation fresh_addr :: "qstate \<Rightarrow> addr \<Rightarrow> bool" where
  "fresh_addr st a \<equiv> a \<noteq> 0 \<and> fst st a = None"

lemma queue_push_insert:
  assumes "queue_rep st os" and "fresh_addr st a"
  shows "\<exists>st'. queue_push a st x = Some (0, st') \<and> queue_rep st' (insert_order x os)"
  using queue_push_cases [of "fst st" "snd st" os a x] assms by simp

interpretation order_pq: priority_queue queue_rep order_has_higher_priority fresh_addr
  queue_push queue_pop queue_size
proof
  show "queue_rep q xs \<Longrightarrow> queue_rep q ys \<Longrightarrow> xs = ys" for q xs ys
    by (rule queue_rep_unique)
  show "queue_rep q xs \<Longrightarrow> sorted_wrt later_order xs" for q xs
    by (auto simp: queue_rep_def)
  show "\<exists>q' us vs. queue_push m q x = Some (0, q') \<and> xs = us @ vs \<and> queue_rep q' (us @ x # vs)"
    if "queue_rep q xs" "fresh_addr q m" for q xs m x
    using queue_push_insert [OF that, of x] insert_order_parts [of xs x] by metis
  show "queue_rep q [] \<Longrightarrow> queue_pop q = Some (None, q)" for q
    by (rule queue_pop_Nil)
  show "queue_rep q (x # xs) \<Longrightarrow> \<exists>q'. queue_pop q = Some (Some x, q') \<and> queue_rep q' xs" for q x xs
    by (rule queue_pop_Cons)
  show "queue_rep q xs \<Longrightarrow> queue_size q = 0 \<longleftrightarrow> xs = []" for q xs
    by (rule queue_rep_size_0)
qed

text \<open>Pushing a list of orders at the given addresses, and popping a number of times.\<close>

fun push_all :: "addr list \<Rightarrow> Order list \<Rightarrow> qstate \<Rightarrow> qstate option" where
  "push_all addrs [] st = Some st"
| "push_all [] (x # xs) st = None"
| "push_all (a # addrs) (x # xs) st =
     (case queue_push a st x of
        Some (rc, st') \<Rightarrow> if rc = 0 then push_all addrs xs st' else None
      | None \<Rightarrow> None)"

fun pop_all :: "nat \<Rightarrow> qstate \<Rightarrow> (Order list \<times> qstate) option" where
  "pop_all 0 st = Some ([], st)"
| "pop_all (Suc n) st =
     (case queue_pop st of
        Some (Some x, st') \<Rightarrow> map_option (apfst ((#) x)) (pop_all n st')
      | _ \<Rightarrow> None)"

lemma queue_push_dom: "queue_push a st x = Some (0, st') \<Longrightarrow> dom (fst st') = insert a (dom (fst st))"
  by (auto simp: queue_push_def Let_def split: prod.splits if_splits option.splits)

lemma push_all_rep:
  assumes "queue_rep st os" "distinct addrs" "0 \<notin> set addrs" "length addrs = length xs" "set addrs \<inter> dom (fst st) = {}"
  shows "\<exists>st'. push_all addrs xs st = Some st' \<and> queue_rep st' (foldl (\<lambda>os x. insert_order x os) os xs)"
  using assms
proof (induction addrs xs st arbitrary: os rule: push_all.induct)
  case (3 a addrs x xs st)
  then obtain st1 where st1: "queue_push a st x = Some (0, st1)" "queue_rep st1 (insert_order x os)"
    using queue_push_insert [of st os a x] by (auto simp: domIff)
  with 3 queue_push_dom [OF st1(1)] show ?case by simp
qed auto

lemma pop_all_rep: "queue_rep st os \<Longrightarrow> \<exists>st'. pop_all (length os) st = Some (os, st') \<and> queue_rep st' []"
proof (induction os arbitrary: st)
  case (Cons x os)
  from queue_pop_Cons [OF Cons.prems] Cons.IH show ?case by force
qed simp

lemma mset_insert_all: "mset (foldl (\<lambda>os x. insert_order x os) os xs) = mset os + mset xs"
  by (induction xs arbitrary: os) simp_all

lemma queue_clear_empties:
  "queue_rep st os \<Longrightarrow> \<exists>st'. queue_clear st = Some st' \<and> queue_rep st' []"
proof (induction os arbitrary: st)
  case Nil
  then show ?case by (auto simp: queue_clear.simps [of st] queue_pop_Nil)
next
  case (Cons x os)
  then obtain st1 where "queue_pop st = Some (Some x, st1)" "queue_rep st1 os"
    using queue_pop_Cons by blast
  with Cons.IH [of st1] show ?case by (auto simp: queue_clear.simps [of st])
qed

section \<open>Properties\<close>

text \<open>A concrete queue for the witnesses.\<close>

definition demo_order :: "int \<Rightarrow> Priority \<Rightarrow> Order" where
  "demo_order i p = \<lparr>order_id = i, recipient = ''Ada'', priority = p, duration_units = 1\<rparr>"

definition demo_queue :: qstate where
  "demo_queue =
     ([4 \<mapsto> \<lparr>node_order = demo_order 2 PRIORITY_EXPRESS, next_node = 9\<rparr>,
       9 \<mapsto> \<lparr>node_order = demo_order 1 PRIORITY_ECONOMY, next_node = 0\<rparr>],
      \<lparr>queue_head = 4, queue_len = 2\<rparr>)"

abbreviation demo_orders :: "Order list" where
  "demo_orders \<equiv> [demo_order 2 PRIORITY_EXPRESS, demo_order 1 PRIORITY_ECONOMY]"

lemma demo_queue_rep: "queue_rep demo_queue demo_orders"
  unfolding queue_rep_def
  by (intro exI [of _ "[(4, demo_order 2 PRIORITY_EXPRESS), (9, demo_order 1 PRIORITY_ECONOMY)]"])
    (auto simp: demo_queue_def demo_order_def order_has_higher_priority_def)

text \<open>(C5) \<open>queue_push\<close> at a fresh node returns 0 and inserts the order behind every queued order
  that it does not precede: the pointer surgery refines insertion into a sorted list, the
  chain stays acyclic, nothing else enters the heap and the size field is right.\<close>

theorem queue_push_refines_insertion:
  assumes "queue_rep st os" and "a \<noteq> 0" and "fst st a = None"
  shows "\<exists>st'. queue_push a st x = Some (0, st') \<and> queue_rep st' (insert_order x os) \<and>
               queue_size st' = of_nat (length os + 1)"
proof -
  obtain st' where st': "queue_push a st x = Some (0, st')" "queue_rep st' (insert_order x os)"
    using queue_push_insert [OF assms(1)] assms(2,3) by blast
  moreover have "length (insert_order x os) = length os + 1"
    by (metis mset_insert_order size_add_mset size_mset Suc_eq_plus1)
  ultimately show ?thesis using queue_rep_size [OF st'(2)] by auto
qed

theorem queue_push_refines_insertion_witness:
  "\<exists>st'. queue_push 5 demo_queue (demo_order 3 PRIORITY_STANDARD) = Some (0, st') \<and>
     queue_rep st' [demo_order 2 PRIORITY_EXPRESS, demo_order 3 PRIORITY_STANDARD, demo_order 1 PRIORITY_ECONOMY]"
  using queue_push_refines_insertion [OF demo_queue_rep, of 5 "demo_order 3 PRIORITY_STANDARD"]
  by (auto simp: demo_queue_def demo_order_def order_has_higher_priority_def)

text \<open>(C6) Orders that are pushed into an empty queue, in any order and at any distinct addresses, come out when the
  queue is popped until it is empty: each once, those of higher priority first, by ascending id within one priority,
  and in the order of the pushes where neither precedes the other. Every push succeeds, and the queue is empty
  afterwards.\<close>

theorem queue_pop_priority_order:
  assumes "distinct addrs" and "0 \<notin> set addrs" and "length addrs = length xs"
  shows "\<exists>st st'. push_all addrs xs (queue_init Map.empty) = Some st \<and> queue_size st = of_nat (length xs) \<and>
           pop_all (length xs) st = Some (foldl (\<lambda>os x. insert_order x os) [] xs, st') \<and>
           mset (foldl (\<lambda>os x. insert_order x os) [] xs) = mset xs \<and>
           sorted_wrt later_order (foldl (\<lambda>os x. insert_order x os) [] xs) \<and>
           fst st' = Map.empty \<and> queue_size st' = 0 \<and> queue_pop st' = Some (None, st')"
proof -
  let ?os = "foldl (\<lambda>os x. insert_order x os) [] xs"
  have dom: "set addrs \<inter> dom (fst (queue_init Map.empty)) = {}" by (simp add: queue_init_def)
  from push_all_rep [OF queue_rep_init assms dom]
  obtain st where st: "push_all addrs xs (queue_init Map.empty) = Some st" "queue_rep st ?os" by blast
  have m: "mset ?os = mset xs" using mset_insert_all [of "[]" xs] by simp
  then have len: "length ?os = length xs" by (metis size_mset)
  from pop_all_rep [OF st(2)] obtain st' where st': "pop_all (length xs) st = Some (?os, st')" "queue_rep st' []"
    unfolding len by blast
  have "fst st' = Map.empty" using st'(2) by (auto simp: queue_rep_def)
  then show ?thesis
    using st st' m len order_pq.rep_sorted [OF st(2)] queue_rep_size [OF st(2)] queue_rep_size [OF st'(2)] queue_pop_Nil [OF st'(2)]
    by (intro exI [of _ st] exI [of _ st']) simp
qed

theorem queue_pop_priority_order_witness:
  "\<exists>st st'. push_all [9, 4] [demo_order 1 PRIORITY_ECONOMY, demo_order 2 PRIORITY_EXPRESS] (queue_init Map.empty) = Some st \<and>
     pop_all 2 st = Some (demo_orders, st')"
proof -
  let ?xs = "[demo_order 1 PRIORITY_ECONOMY, demo_order 2 PRIORITY_EXPRESS]"
  have e: "foldl (\<lambda>os x. insert_order x os) [] ?xs = demo_orders" "length ?xs = 2"
    by (simp_all add: demo_order_def order_has_higher_priority_def)
  have "distinct [9, 4 :: addr]" "0 \<notin> set [9, 4 :: addr]" "length [9, 4 :: addr] = length ?xs" by simp_all
  from queue_pop_priority_order [OF this] show ?thesis unfolding e by blast
qed

text \<open>\<open>queue_clear\<close> terminates on every well-formed queue and frees every node.\<close>

theorem queue_clear_frees_all:
  assumes "queue_rep st os"
  shows "\<exists>q. queue_clear st = Some (Map.empty, q) \<and> queue_head q = 0 \<and> queue_len q = 0"
proof -
  obtain h q where hq: "queue_clear st = Some (h, q)" "queue_rep (h, q) []"
    using queue_clear_empties [OF assms] by (metis prod.exhaust)
  then have "dom h = {}" "queue_head q = 0" "queue_len q = 0" by (auto simp: queue_rep_def)
  with hq show ?thesis by simp
qed

theorem queue_clear_frees_all_witness:
  "\<exists>q. queue_clear demo_queue = Some (Map.empty, q) \<and> queue_head q = 0 \<and> queue_len q = 0"
  by (rule queue_clear_frees_all [OF demo_queue_rep])

end
