(* ===== verification/Courier_Shift.thy ===== *)
theory Courier_Shift
  imports Order_Queue
begin

text \<open>
  The courier shift of \<open>HW5/main.c\<close>: loading the orders, the courier threads, the SIGINT
  cancellation, the main thread that waits for the end of the shift, and the summary file.

  The shared variables are the record \<open>shift\<close>; each courier thread has a program counter.
  A critical section under \<open>queue_lock\<close> is one step. Outside the lock a step makes at most
  one access to a shared variable (the atomic counters), together with the accesses to the
  courier's own statistics. \<open>pthread_cond_broadcast\<close> moves the waiting couriers back to the
  loop condition they re-test; a spurious wake-up does the same to one courier.
  A line of the log is an element of \<open>log\<close>.
\<close>

section \<open>State\<close>

definition DELIVERY_UNIT_MS :: int where "DELIVERY_UNIT_MS = 500"

record CourierStats =
  delivered_order_count :: int
  delivered_time_ms :: int

datatype courier_pc =
    At_Top                 \<comment> \<open>about to lock and test the loop condition\<close>
  | Waiting                \<comment> \<open>in \<open>pthread_cond_wait\<close>\<close>
  | Delivering Order       \<comment> \<open>order taken, lock released\<close>
  | Counted Order          \<comment> \<open>own statistics and \<open>total_completed_orders\<close> updated\<close>
  | Timed Order            \<comment> \<open>\<open>total_completed_delivery_time\<close> updated\<close>
  | Logged Order           \<comment> \<open>completion printed, about to lock again\<close>
  | Shift_Over             \<comment> \<open>returned\<close>

datatype main_pc =
    Creating nat           \<comment> \<open>in the \<open>pthread_create\<close> loop\<close>
  | Create_Failed nat      \<comment> \<open>\<open>pthread_create\<close> failed, about to cancel\<close>
  | Waiting_Shift          \<comment> \<open>in \<open>wait_for_shift_to_finish\<close>\<close>
  | Cancelling             \<comment> \<open>there, lock released after SIGINT\<close>
  | Joining                \<comment> \<open>in the \<open>pthread_join\<close> loop\<close>
  | Finished

datatype log_line =
    ORDER_QUEUED Order
  | COURIER_WAITING nat
  | DELIVERY_START nat Order
  | DELIVERY_COMPLETE nat Order
  | SHIFT_OVER nat
  | SIGINT_RECEIVED "64 word"
  | ORDER_CANCELLED Order

record shift =
  pending_order_queue :: qstate
  total_completed_orders :: int
  total_cancelled_orders :: int
  total_completed_delivery_time :: int
  sigint_flag :: bool
  shift_stopping :: bool
  active_delivery_count :: int
  valid_order_count :: int
  courier_stats_list :: "CourierStats list"
  num_couriers :: nat
  couriers :: "courier_pc list"
  main_thread :: main_pc
  log :: "log_line list"

section \<open>Loading the orders\<close>

text \<open>\<open>parse_positive_int\<close>: \<open>Some\<close> of the value when it returns 1.\<close>

definition parse_positive_int :: "string \<Rightarrow> int option" where
  "parse_positive_int text =
     (case strtol text of (parsed, rest, erange) \<Rightarrow>
        if erange then None
        else if rest = text \<or> rest \<noteq> [] then None
        else if parsed < 1 \<or> parsed > 2147483647 then None
        else Some parsed)"

definition is_valid_recipient_name :: "string \<Rightarrow> bool" where
  "is_valid_recipient_name name \<longleftrightarrow>
     name \<noteq> [] \<and> list_all (\<lambda>ch. isupper ch \<or> islower ch \<or> isdigit ch \<or> ch = CHR ''_'') name"

text \<open>One line of the orders file: the order, or \<open>None\<close> when the loop body skips it.\<close>

definition parse_order_line :: "string \<Rightarrow> Order option" where
  "parse_order_line line =
     (case sscanf [SSpace, SInt, SSpace, SStr 32, SSpace, SStr 8, SSpace, SInt, SSpace, SChar] (c_str line) of
        [VInt oid, VStr name, VStr priority_text, VInt duration] \<Rightarrow>
          if oid < 1 \<or> duration < 1 then None
          else if \<not> is_valid_recipient_name name then None
          else (case parse_priority priority_text of
                  None \<Rightarrow> None
                | Some p \<Rightarrow> Some \<lparr>order_id = oid, recipient = name, priority = p, duration_units = duration\<rparr>)
      | _ \<Rightarrow> None)"

text \<open>The reading loop. \<open>malloc\<close> gives the address of the next node, 0 on failure. The result
  is the return code, the queue and \<open>valid_order_count\<close>.\<close>

fun load_orders :: "(heap \<Rightarrow> addr) \<Rightarrow> string list \<Rightarrow> qstate \<Rightarrow> int \<Rightarrow> (int \<times> qstate \<times> int) option" where
  "load_orders malloc [] q n = Some (0, q, n)"
| "load_orders malloc (line # ls) q n =
     (case parse_order_line line of
        None \<Rightarrow> load_orders malloc ls q n
      | Some order \<Rightarrow>
          (case queue_push (malloc (fst q)) q order of
             None \<Rightarrow> None
           | Some (rc, q') \<Rightarrow> if rc \<noteq> 0 then Some (- 1, q', n) else load_orders malloc ls q' (n + 1)))"

text \<open>\<open>file\<close> is the content of the orders file, \<open>None\<close> when \<open>fopen\<close> fails.\<close>

definition load_orders_from_file ::
  "(heap \<Rightarrow> addr) \<Rightarrow> string option \<Rightarrow> qstate \<Rightarrow> (int \<times> qstate \<times> int) option" where
  "load_orders_from_file malloc file q =
     (case file of None \<Rightarrow> Some (- 1, q, 0)
      | Some text \<Rightarrow> load_orders malloc (fgets_lines 256 text) q 0)"

section \<open>Couriers\<close>

text \<open>The sleeping time \<open>(seconds, nanoseconds)\<close>; the product is an \<open>int\<close>, so it is undefined
  when it overflows.\<close>

definition simulate_delivery_time :: "int \<Rightarrow> (int \<times> int) option" where
  "simulate_delivery_time units =
     (case int_mul units DELIVERY_UNIT_MS of
        None \<Rightarrow> None
      | Some ms \<Rightarrow> Some (ms div 1000, (ms mod 1000) * 1000000))"

definition wake_all :: "courier_pc list \<Rightarrow> courier_pc list" where
  "wake_all cs = map (\<lambda>pc. if pc = Waiting then At_Top else pc) cs"

text \<open>The broadcast on \<open>courier_wakeup_cond\<close>. The signal on \<open>shift_finished_cond\<close> only shortens
  a timed wait of the main thread.\<close>

definition stop_shift :: "shift \<Rightarrow> shift" where
  "stop_shift s = s\<lparr>shift_stopping := True, couriers := wake_all (couriers s)\<rparr>"

definition set_pc :: "nat \<Rightarrow> courier_pc \<Rightarrow> shift \<Rightarrow> shift" where
  "set_pc i pc s = s\<lparr>couriers := (couriers s)[i := pc]\<rparr>"

definition put_log :: "log_line list \<Rightarrow> shift \<Rightarrow> shift" where
  "put_log ls s = s\<lparr>log := log s @ ls\<rparr>"

text \<open>The first critical section of \<open>courier_thread\<close> for the courier with index \<open>i\<close>.\<close>

definition courier_top :: "nat \<Rightarrow> shift \<Rightarrow> shift option" where
  "courier_top i s =
     (if queue_size (pending_order_queue s) = 0 \<and> \<not> shift_stopping s \<and> active_delivery_count s > 0
      then Some (put_log [COURIER_WAITING (i + 1)] (set_pc i Waiting s))
      else if shift_stopping s
      then Some (put_log [SHIFT_OVER (i + 1)] (set_pc i Shift_Over s))
      else (case queue_pop (pending_order_queue s) of
              None \<Rightarrow> None
            | Some (None, q) \<Rightarrow>
                let s1 = s\<lparr>pending_order_queue := q\<rparr> in
                Some (put_log [SHIFT_OVER (i + 1)]
                       (set_pc i Shift_Over (if active_delivery_count s = 0 then stop_shift s1 else s1)))
            | Some (Some selected_order, q) \<Rightarrow>
                Some (put_log [DELIVERY_START (i + 1) selected_order]
                       (set_pc i (Delivering selected_order)
                         (s\<lparr>pending_order_queue := q,
                            active_delivery_count := active_delivery_count s + 1\<rparr>)))))"

definition delivery_ms :: "Order \<Rightarrow> int" where
  "delivery_ms order = duration_units order * DELIVERY_UNIT_MS"

text \<open>After the sleep: the courier's own statistics, then the first atomic counter.\<close>

definition courier_count :: "nat \<Rightarrow> Order \<Rightarrow> shift \<Rightarrow> shift" where
  "courier_count i order s =
     set_pc i (Counted order)
      (s\<lparr>courier_stats_list := (courier_stats_list s)
            [i := \<lparr>delivered_order_count = delivered_order_count (courier_stats_list s ! i) + 1,
                   delivered_time_ms = delivered_time_ms (courier_stats_list s ! i) + delivery_ms order\<rparr>],
         total_completed_orders := total_completed_orders s + 1\<rparr>)"

definition courier_time :: "nat \<Rightarrow> Order \<Rightarrow> shift \<Rightarrow> shift" where
  "courier_time i order s =
     set_pc i (Timed order)
      (s\<lparr>total_completed_delivery_time := total_completed_delivery_time s + delivery_ms order\<rparr>)"

definition courier_report :: "nat \<Rightarrow> Order \<Rightarrow> shift \<Rightarrow> shift" where
  "courier_report i order s = put_log [DELIVERY_COMPLETE (i + 1) order] (set_pc i (Logged order) s)"

text \<open>The second critical section of \<open>courier_thread\<close>.\<close>

definition courier_finish :: "nat \<Rightarrow> shift \<Rightarrow> shift" where
  "courier_finish i s =
     (let s1 = s\<lparr>active_delivery_count := active_delivery_count s - 1\<rparr>;
          s2 = (if (queue_size (pending_order_queue s1) = 0 \<and> active_delivery_count s1 = 0) \<or> shift_stopping s1
                then stop_shift s1
                else if queue_size (pending_order_queue s1) > 0
                then s1\<lparr>couriers := wake_all (couriers s1)\<rparr>
                else s1)
      in set_pc i At_Top s2)"

section \<open>Cancellation and the main thread\<close>

partial_function (option) cancel_loop :: "shift \<Rightarrow> shift option" where
  "cancel_loop s =
     (case queue_pop (pending_order_queue s) of
        None \<Rightarrow> None
      | Some (None, q) \<Rightarrow> Some (s\<lparr>pending_order_queue := q\<rparr>)
      | Some (Some cancelled_order, q) \<Rightarrow>
          cancel_loop (put_log [ORDER_CANCELLED cancelled_order]
            (s\<lparr>pending_order_queue := q, total_cancelled_orders := total_cancelled_orders s + 1\<rparr>)))"

definition cancel_pending_orders_after_sigint :: "shift \<Rightarrow> shift option" where
  "cancel_pending_orders_after_sigint s =
     (if shift_stopping s then Some s
      else (case cancel_loop (put_log [SIGINT_RECEIVED (queue_size (pending_order_queue s))]
                   (s\<lparr>shift_stopping := True\<rparr>)) of
              None \<Rightarrow> None
            | Some s' \<Rightarrow> Some (s'\<lparr>couriers := wake_all (couriers s')\<rparr>)))"

text \<open>The labels of the steps: \<open>Progress\<close> for the work of the program, \<open>Poll\<close> for the main
  thread's timed wait and its spinning after SIGINT, \<open>Spurious\<close> for a spurious wake-up and
  \<open>Signal\<close> for the arrival of SIGINT.\<close>

datatype label = Progress | Poll | Spurious | Signal

definition keep_waiting :: "shift \<Rightarrow> bool" where
  "keep_waiting s \<longleftrightarrow> \<not> shift_stopping s \<or> active_delivery_count s > 0"

inductive cstep :: "label \<Rightarrow> shift \<Rightarrow> shift \<Rightarrow> bool" where
  create: "main_thread s = Creating i \<Longrightarrow> i < num_couriers s \<Longrightarrow>
     cstep Progress s (s\<lparr>couriers := couriers s @ [At_Top], main_thread := Creating (Suc i)\<rparr>)"
| create_fail: "main_thread s = Creating i \<Longrightarrow> i < num_couriers s \<Longrightarrow>
     cstep Poll s (s\<lparr>main_thread := Create_Failed i\<rparr>)"
| create_cancel: "main_thread s = Create_Failed i \<Longrightarrow> cancel_pending_orders_after_sigint s = Some s' \<Longrightarrow>
     cstep Poll s (s'\<lparr>num_couriers := i, main_thread := Waiting_Shift\<rparr>)"
| create_done: "main_thread s = Creating i \<Longrightarrow> \<not> i < num_couriers s \<Longrightarrow>
     cstep Poll s (s\<lparr>main_thread := Waiting_Shift\<rparr>)"
| sigint: "cstep Signal s (s\<lparr>sigint_flag := True\<rparr>)"
| wait_sigint: "main_thread s = Waiting_Shift \<Longrightarrow> keep_waiting s \<Longrightarrow> sigint_flag s \<Longrightarrow>
     cstep Poll s (s\<lparr>main_thread := Cancelling\<rparr>)"
| wait_cancel: "main_thread s = Cancelling \<Longrightarrow> cancel_pending_orders_after_sigint s = Some s' \<Longrightarrow>
     cstep Poll s (s'\<lparr>main_thread := Waiting_Shift\<rparr>)"
| wait_timeout: "main_thread s = Waiting_Shift \<Longrightarrow> keep_waiting s \<Longrightarrow> \<not> sigint_flag s \<Longrightarrow> cstep Poll s s"
| wait_done: "main_thread s = Waiting_Shift \<Longrightarrow> \<not> keep_waiting s \<Longrightarrow>
     cstep Poll s (s\<lparr>main_thread := Joining\<rparr>)"
| joined: "main_thread s = Joining \<Longrightarrow> \<forall>pc\<in>set (couriers s). pc = Shift_Over \<Longrightarrow>
     cstep Poll s (s\<lparr>main_thread := Finished\<rparr>)"
| top: "i < length (couriers s) \<Longrightarrow> couriers s ! i = At_Top \<Longrightarrow> courier_top i s = Some s' \<Longrightarrow>
     cstep Progress s s'"
| deliver: "i < length (couriers s) \<Longrightarrow> couriers s ! i = Delivering x \<Longrightarrow>
     simulate_delivery_time (duration_units x) \<noteq> None \<Longrightarrow> cstep Progress s (courier_count i x s)"
| time: "i < length (couriers s) \<Longrightarrow> couriers s ! i = Counted x \<Longrightarrow> cstep Progress s (courier_time i x s)"
| report: "i < length (couriers s) \<Longrightarrow> couriers s ! i = Timed x \<Longrightarrow> cstep Progress s (courier_report i x s)"
| finish: "i < length (couriers s) \<Longrightarrow> couriers s ! i = Logged x \<Longrightarrow> cstep Progress s (courier_finish i s)"
| spurious: "i < length (couriers s) \<Longrightarrow> couriers s ! i = Waiting \<Longrightarrow> cstep Spurious s (set_pc i At_Top s)"

text \<open>The state when \<open>main\<close> enters the \<open>pthread_create\<close> loop, after \<open>print_queued_orders\<close>.\<close>

definition init_shift :: "nat \<Rightarrow> qstate \<Rightarrow> Order list \<Rightarrow> shift" where
  "init_shift n q queued =
     \<lparr>pending_order_queue = q, total_completed_orders = 0, total_cancelled_orders = 0,
      total_completed_delivery_time = 0, sigint_flag = False, shift_stopping = False,
      active_delivery_count = 0, valid_order_count = int (length queued),
      courier_stats_list = replicate n \<lparr>delivered_order_count = 0, delivered_time_ms = 0\<rparr>,
      num_couriers = n, couriers = [], main_thread = Creating 0,
      log = map ORDER_QUEUED queued\<rparr>"

inductive shift_reach :: "nat \<Rightarrow> qstate \<Rightarrow> Order list \<Rightarrow> shift \<Rightarrow> bool" for n q os where
  reach_init: "shift_reach n q os (init_shift n q os)"
| reach_step: "shift_reach n q os s \<Longrightarrow> cstep l s t \<Longrightarrow> shift_reach n q os t"

section \<open>The summary file\<close>

definition summary_average :: "int \<Rightarrow> int \<Rightarrow> int" where
  "summary_average completed time_sum = (if completed = 0 then 0 else time_sum div completed)"

definition courier_line :: "nat \<Rightarrow> CourierStats \<Rightarrow> string" where
  "courier_line i st =
     ''Courier-'' @ show_nat (i + 1) @ ''  completed='' @ show_int (delivered_order_count st) @
     ''  total_time='' @ show_int (delivered_time_ms st) @ ''ms'' @ [newline]"

definition write_summary_file :: "shift \<Rightarrow> string" where
  "write_summary_file s =
     ''SHIFT_SUMMARY'' @ [newline] @
     ''Total orders    : '' @ show_int (valid_order_count s) @ [newline] @
     ''Completed       : '' @ show_int (total_completed_orders s) @ [newline] @
     ''Cancelled       : '' @ show_int (total_cancelled_orders s) @ [newline] @
     ''Total time      : '' @ show_int (total_completed_delivery_time s) @ ''ms'' @ [newline] @
     ''Avg per order   : '' @
       show_int (summary_average (total_completed_orders s) (total_completed_delivery_time s)) @ ''ms'' @
       [newline, newline] @
     ''COURIER_STATS'' @ [newline] @
     concat (map (\<lambda>i. courier_line i (courier_stats_list s ! i)) [0..<num_couriers s])"

end
