(* ===== verification/Courier_Load.thy ===== *)
theory Courier_Load
  imports Courier_Shift
begin

text \<open>
  Loading the orders file of the courier simulation: the queue that \<open>load_orders_from_file\<close>
  builds, and the range of the durations it accepts.
\<close>

text \<open>An allocator returns 0 or an address that is not in use.\<close>

definition malloc_ok :: "(heap \<Rightarrow> addr) \<Rightarrow> bool" where
  "malloc_ok malloc \<longleftrightarrow> (\<forall>h. malloc h = 0 \<or> h (malloc h) = None)"

abbreviation parsed_orders :: "string list \<Rightarrow> Order list" where
  "parsed_orders ls \<equiv> List.map_filter parse_order_line ls"

abbreviation insert_orders :: "Order list \<Rightarrow> Order list \<Rightarrow> Order list" where
  "insert_orders xs os \<equiv> fold insert_order xs os"

lemma mset_insert_orders: "mset (insert_orders xs os) = mset xs + mset os"
  by (induction xs arbitrary: os) auto

lemma sorted_insert_orders:
  "sorted_wrt later_order os \<Longrightarrow> sorted_wrt later_order (insert_orders xs os)"
  by (induction xs arbitrary: os) (auto intro: sorted_insert_order)

lemma queue_push_oom: "queue_push 0 q x = Some (- 1, q)"
  by (cases q) (simp add: queue_push_def)

lemma load_orders_spec:
  assumes "malloc_ok malloc" and "queue_rep q os"
  shows "\<exists>rc q' xs. load_orders malloc ls q n = Some (rc, q', n + int (length xs)) \<and>
           queue_rep q' (insert_orders xs os) \<and>
           (rc = 0 \<and> xs = parsed_orders ls \<or> rc = - 1 \<and> (\<exists>ys. ys \<noteq> [] \<and> parsed_orders ls = xs @ ys))"
  using assms(2)
proof (induction ls arbitrary: q os n)
  case Nil
  then show ?case by (intro exI [of _ 0] exI [of _ q] exI [of _ "[]"]) (simp add: map_filter_simps)
next
  case (Cons line ls)
  show ?case
  proof (cases "parse_order_line line")
    case None
    then show ?thesis using Cons.IH [OF Cons.prems, of n] by (simp add: map_filter_simps)
  next
    case (Some x)
    show ?thesis
    proof (cases "malloc (fst q) = 0")
      case True
      then show ?thesis using Some Cons.prems
        by (intro exI [of _ "- 1"] exI [of _ q] exI [of _ "[]"]) (simp add: queue_push_oom map_filter_simps)
    next
      case False
      then have "fresh_addr q (malloc (fst q))" using assms(1) by (auto simp: malloc_ok_def)
      from queue_push_insert [OF Cons.prems this] obtain q1 where
        q1: "queue_push (malloc (fst q)) q x = Some (0, q1)" "queue_rep q1 (insert_order x os)" by blast
      from Cons.IH [OF q1(2), of "n + 1"] obtain rc q' xs where IH:
        "load_orders malloc ls q1 (n + 1) = Some (rc, q', n + 1 + int (length xs))"
        "queue_rep q' (insert_orders xs (insert_order x os))"
        "rc = 0 \<and> xs = parsed_orders ls \<or> rc = - 1 \<and> (\<exists>ys. ys \<noteq> [] \<and> parsed_orders ls = xs @ ys)" by blast
      then show ?thesis using Some q1
        by (intro exI [of _ rc] exI [of _ q'] exI [of _ "x # xs"]) (auto simp: map_filter_simps)
    qed
  qed
qed

section \<open>Properties\<close>

text \<open>Loading: the queue is always well formed. When the loader returns 0 it holds the valid
  lines of the file, each once, in priority order, and \<open>valid_order_count\<close> counts them; it
  returns \<open>-1\<close> only when the file cannot be opened or an allocation failed, with a queue of
  orders of the file.\<close>

theorem load_orders_from_file_builds_queue:
  assumes "malloc_ok malloc"
  shows "\<exists>rc q os. load_orders_from_file malloc content (queue_init Map.empty) = Some (rc, q, int (length os)) \<and>
           queue_rep q os \<and> sorted_wrt later_order os \<and>
           (case content of
              None \<Rightarrow> rc = - 1 \<and> os = []
            | Some body \<Rightarrow>
                (rc = 0 \<and> mset os = mset (parsed_orders (fgets_lines 256 body))) \<or>
                (rc = - 1 \<and> mset os \<subset># mset (parsed_orders (fgets_lines 256 body))))"
proof (cases content)
  case None
  then show ?thesis using queue_rep_init
    by (intro exI [of _ "- 1"] exI [of _ "queue_init Map.empty"] exI [of _ "[]"])
      (simp add: load_orders_from_file_def)
next
  case (Some body)
  from load_orders_spec [OF assms queue_rep_init, of "fgets_lines 256 body" 0] obtain rc q xs where sp:
    "load_orders malloc (fgets_lines 256 body) (queue_init Map.empty) 0 = Some (rc, q, int (length xs))"
    "queue_rep q (insert_orders xs [])"
    "rc = 0 \<and> xs = parsed_orders (fgets_lines 256 body) \<or>
     rc = - 1 \<and> (\<exists>ys. ys \<noteq> [] \<and> parsed_orders (fgets_lines 256 body) = xs @ ys)" by auto
  have ms: "mset (insert_orders xs []) = mset xs" by (simp add: mset_insert_orders)
  then have "length (insert_orders xs []) = length xs" by (metis size_mset)
  moreover have "sorted_wrt later_order (insert_orders xs [])" by (rule sorted_insert_orders) simp
  moreover have "mset xs \<subset># mset (xs @ ys)" if "ys \<noteq> []" for ys :: "Order list"
    using that by (simp add: subset_mset.less_le)
  ultimately show ?thesis using sp ms Some
    by (intro exI [of _ rc] exI [of _ q] exI [of _ "insert_orders xs []"])
      (auto simp: load_orders_from_file_def)
qed

definition demo_file :: string where
  "demo_file = ''1 Ada ECONOMY 2'' @ [newline] @ ''x bad'' @ [newline] @ ''2 Bob EXPRESS 1'' @ [newline]"

definition bump_malloc :: "heap \<Rightarrow> addr" where
  "bump_malloc h = (if h 8 = None then 8 else if h 16 = None then 16 else 0)"

theorem load_orders_from_file_builds_queue_witness:
  "malloc_ok bump_malloc \<and>
   (\<exists>rc q os. load_orders_from_file bump_malloc (Some demo_file) (queue_init Map.empty) = Some (rc, q, int (length os)) \<and>
      queue_rep q os \<and> sorted_wrt later_order os)"
proof -
  have ok: "malloc_ok bump_malloc" by (simp add: malloc_ok_def bump_malloc_def)
  then show ?thesis using load_orders_from_file_builds_queue [OF ok, of "Some demo_file"] by blast
qed

text \<open>The loader accepts every duration up to \<open>INT_MAX\<close>, but the sleeping time of an accepted
  order is only defined up to 4294967 units: beyond that the product of
  \<open>simulate_delivery_time\<close> overflows an \<open>int\<close>.\<close>

theorem accepted_order_sleep_overflow:
  assumes "parse_order_line line = Some x"
  shows "simulate_delivery_time (duration_units x) = None \<longleftrightarrow> duration_units x > 4294967"
proof -
  have pos: "duration_units x \<ge> 1"
    using assms by (auto simp: parse_order_line_def split: list.splits scan_val.splits if_splits option.splits)
  then show ?thesis
    by (auto simp: simulate_delivery_time_def int_mul_def DELIVERY_UNIT_MS_def c_int_simps)
qed

theorem accepted_order_sleep_overflow_witness:
  "\<exists>x. parse_order_line ''1 Ada EXPRESS 5000000'' = Some x \<and> simulate_delivery_time (duration_units x) = None"
proof -
  let ?x = "\<lparr>order_id = 1, recipient = ''Ada'', priority = PRIORITY_EXPRESS, duration_units = 5000000\<rparr>"
  have p: "parse_order_line ''1 Ada EXPRESS 5000000'' = Some ?x" by code_simp
  then show ?thesis using accepted_order_sleep_overflow [OF p] by simp
qed

end
