(* ===== verification/Courier_Proofs.thy ===== *)
theory Courier_Proofs
  imports Courier_Shift
begin

text \<open>
  The correctness of the courier shift, in every interleaving of the couriers, the main
  thread, SIGINT and spurious wake-ups: no order is lost or delivered twice, the counters and
  statistics agree with the deliveries, deliveries start in priority order, no wake-up is
  lost, and the couriers stop after finitely many steps.
\<close>

section \<open>Views of the state\<close>

fun delivering_of :: "courier_pc \<Rightarrow> Order list" where
  "delivering_of (Delivering x) = [x]" | "delivering_of _ = []"

fun counted_of :: "courier_pc \<Rightarrow> Order list" where
  "counted_of (Counted x) = [x]" | "counted_of (Timed x) = [x]" | "counted_of _ = []"

fun timed_of :: "courier_pc \<Rightarrow> Order list" where
  "timed_of (Timed x) = [x]" | "timed_of _ = []"

fun is_active :: "courier_pc \<Rightarrow> bool" where
  "is_active (Delivering x) = True" | "is_active (Counted x) = True"
| "is_active (Timed x) = True" | "is_active (Logged x) = True" | "is_active _ = False"

fun completes :: "log_line \<Rightarrow> Order list" where
  "completes (DELIVERY_COMPLETE c x) = [x]" | "completes _ = []"

fun cancels :: "log_line \<Rightarrow> Order list" where
  "cancels (ORDER_CANCELLED x) = [x]" | "cancels _ = []"

fun starts :: "log_line \<Rightarrow> Order list" where
  "starts (DELIVERY_START c x) = [x]" | "starts _ = []"

abbreviation gather :: "('a \<Rightarrow> 'b list) \<Rightarrow> 'a list \<Rightarrow> 'b list" where
  "gather f xs \<equiv> concat (map f xs)"

abbreviation total_ms :: "Order list \<Rightarrow> int" where
  "total_ms xs \<equiv> sum_list (map delivery_ms xs)"

lemma gather_wake_all [simp]:
  "f Waiting = f At_Top \<Longrightarrow> gather f (wake_all cs) = gather f cs"
  by (induction cs) (auto simp: wake_all_def)

lemma filter_active_wake_all [simp]: "length (filter is_active (wake_all cs)) = length (filter is_active cs)"
  by (induction cs) (auto simp: wake_all_def)

lemma Waiting_wake_all [simp]: "Waiting \<notin> set (wake_all cs)"
  by (auto simp: wake_all_def)

lemma length_wake_all [simp]: "length (wake_all cs) = length cs"
  by (simp add: wake_all_def)

lemma Shift_Over_wake_all: "list_all ((=) Shift_Over) cs \<Longrightarrow> list_all ((=) Shift_Over) (wake_all cs)"
  by (auto simp: wake_all_def list_all_iff)

lemma wake_all_update:
  "wake_all (us @ pc # vs) = wake_all us @ (if pc = Waiting then At_Top else pc) # wake_all vs"
  by (simp add: wake_all_def)

lemma wake_all_set [simp]: "(wake_all us @ pc # vs)[length us := pc'] = wake_all us @ pc' # vs"
  by (metis length_wake_all list_update_length)

lemma gather_log_map [simp]:
  "gather (cancels \<circ> ORDER_CANCELLED) ps = ps" "gather (completes \<circ> ORDER_CANCELLED) ps = []"
  "gather (starts \<circ> ORDER_CANCELLED) ps = []" "gather (cancels \<circ> ORDER_QUEUED) ps = []"
  "gather (completes \<circ> ORDER_QUEUED) ps = []" "gather (starts \<circ> ORDER_QUEUED) ps = []"
  by (induction ps) auto

lemmas state_simps = set_pc_def put_log_def stop_shift_def

section \<open>The invariant\<close>

text \<open>The orders: every loaded order is pending, being delivered, delivered or cancelled.\<close>

definition orders_rel :: "Order list \<Rightarrow> Order list \<Rightarrow> shift \<Rightarrow> bool" where
  "orders_rel os ps s \<longleftrightarrow>
     queue_rep (pending_order_queue s) ps \<and>
     mset os = mset ps + mset (gather delivering_of (couriers s)) + mset (gather counted_of (couriers s)) +
               mset (gather completes (log s)) + mset (gather cancels (log s)) \<and>
     sorted_wrt later_order (gather starts (log s) @ ps) \<and>
     (shift_stopping s \<longrightarrow> ps = []) \<and>
     (Waiting \<in> set (couriers s) \<longrightarrow> ps = [] \<and> \<not> shift_stopping s \<and> active_delivery_count s > 0)"

text \<open>The counters and statistics.\<close>

definition counters_inv :: "shift \<Rightarrow> bool" where
  "counters_inv s \<longleftrightarrow>
     active_delivery_count s = int (length (filter is_active (couriers s))) \<and>
     total_completed_orders s =
       int (length (gather counted_of (couriers s))) + int (length (gather completes (log s))) \<and>
     total_cancelled_orders s = int (length (gather cancels (log s))) \<and>
     total_completed_delivery_time s = total_ms (gather timed_of (couriers s)) + total_ms (gather completes (log s)) \<and>
     sum_list (map delivered_order_count (courier_stats_list s)) = total_completed_orders s \<and>
     sum_list (map delivered_time_ms (courier_stats_list s)) =
       total_ms (gather counted_of (couriers s)) + total_ms (gather completes (log s))"

text \<open>The threads.\<close>

definition threads_inv :: "nat \<Rightarrow> shift \<Rightarrow> bool" where
  "threads_inv n s \<longleftrightarrow>
     length (courier_stats_list s) = n \<and> num_couriers s \<le> n \<and> length (couriers s) \<le> n \<and>
     (case main_thread s of
        Creating i \<Rightarrow> length (couriers s) = i \<and> i \<le> num_couriers s
      | Create_Failed i \<Rightarrow> length (couriers s) = i \<and> i < num_couriers s
      | Waiting_Shift \<Rightarrow> length (couriers s) = num_couriers s
      | Cancelling \<Rightarrow> length (couriers s) = num_couriers s \<and> sigint_flag s
      | Joining \<Rightarrow> length (couriers s) = num_couriers s \<and> \<not> keep_waiting s
      | Finished \<Rightarrow> length (couriers s) = num_couriers s \<and> \<not> keep_waiting s \<and>
                    list_all ((=) Shift_Over) (couriers s)) \<and>
     (total_cancelled_orders s > 0 \<longrightarrow> sigint_flag s \<or> num_couriers s < n)"

section \<open>The operations under the queue's interface\<close>

lemma courier_top_cases:
  assumes "queue_rep (pending_order_queue s) ps" and "courier_top i s = Some s'"
  obtains
    (wait) "ps = []" "\<not> shift_stopping s" "active_delivery_count s > 0"
      "s' = put_log [COURIER_WAITING (i + 1)] (set_pc i Waiting s)"
  | (stopped) "shift_stopping s" "s' = put_log [SHIFT_OVER (i + 1)] (set_pc i Shift_Over s)"
  | (last) "ps = []" "\<not> shift_stopping s" "active_delivery_count s \<le> 0"
      "s' = put_log [SHIFT_OVER (i + 1)]
              (set_pc i Shift_Over (if active_delivery_count s = 0 then stop_shift s else s))"
  | (take) x qs q where "ps = x # qs" "\<not> shift_stopping s" "queue_rep q qs"
      "s' = put_log [DELIVERY_START (i + 1) x] (set_pc i (Delivering x)
              (s\<lparr>pending_order_queue := q, active_delivery_count := active_delivery_count s + 1\<rparr>))"
proof -
  have size0: "queue_size (pending_order_queue s) = 0 \<longleftrightarrow> ps = []"
    by (rule order_pq.rep_len [OF assms(1)])
  show thesis
  proof (cases "shift_stopping s")
    case True
    then show ?thesis using assms(2) stopped by (simp add: courier_top_def)
  next
    case False
    show ?thesis
    proof (cases ps)
      case Nil
      then have "queue_pop (pending_order_queue s) = Some (None, pending_order_queue s)"
        using assms(1) order_pq.rep_pop_Nil by simp
      moreover have "s\<lparr>pending_order_queue := pending_order_queue s\<rparr> = s" by simp
      ultimately show ?thesis using assms(2) False Nil size0 wait last
        by (cases "active_delivery_count s > 0") (auto simp: courier_top_def Let_def)
    next
      case (Cons x qs)
      then obtain q where "queue_pop (pending_order_queue s) = Some (Some x, q)" "queue_rep q qs"
        using assms(1) order_pq.rep_pop_Cons by blast
      then show ?thesis using assms(2) False Cons size0 take by (simp add: courier_top_def)
    qed
  qed
qed

lemma courier_top_returns:
  assumes "queue_rep (pending_order_queue s) ps"
  shows "\<exists>s'. courier_top i s = Some s'"
  using order_pq.rep_pop_cases [OF assms] by (auto simp: courier_top_def Let_def)

lemma cancel_loop_spec:
  assumes "queue_rep (pending_order_queue s) ps"
  shows "\<exists>q. queue_rep q [] \<and> cancel_loop s =
     Some (s\<lparr>pending_order_queue := q, total_cancelled_orders := total_cancelled_orders s + int (length ps),
             log := log s @ map ORDER_CANCELLED ps\<rparr>)"
  using assms
proof (induction ps arbitrary: s)
  case Nil
  then show ?case
    by (intro exI [of _ "pending_order_queue s"])
      (simp add: cancel_loop.simps [of s] order_pq.rep_pop_Nil)
next
  case (Cons x ps)
  then obtain q where q: "queue_pop (pending_order_queue s) = Some (Some x, q)" "queue_rep q ps"
    using order_pq.rep_pop_Cons by blast
  let ?s1 = "put_log [ORDER_CANCELLED x]
    (s\<lparr>pending_order_queue := q, total_cancelled_orders := total_cancelled_orders s + 1\<rparr>)"
  have "queue_rep (pending_order_queue ?s1) ps" using q by (simp add: put_log_def)
  from Cons.IH [OF this] obtain q' where q': "queue_rep q' []" "cancel_loop ?s1 =
     Some (?s1\<lparr>pending_order_queue := q', total_cancelled_orders := total_cancelled_orders ?s1 + int (length ps),
             log := log ?s1 @ map ORDER_CANCELLED ps\<rparr>)" by blast
  then show ?case using q
    by (intro exI [of _ q']) (simp add: cancel_loop.simps [of s] put_log_def algebra_simps)
qed

lemma cancel_cases:
  assumes "queue_rep (pending_order_queue s) ps"
    and "cancel_pending_orders_after_sigint s = Some s'"
  obtains (idle) "shift_stopping s" "s' = s"
  | (cancel) q where "\<not> shift_stopping s" "queue_rep q []"
      "s' = s\<lparr>pending_order_queue := q, shift_stopping := True,
              total_cancelled_orders := total_cancelled_orders s + int (length ps),
              couriers := wake_all (couriers s),
              log := log s @ SIGINT_RECEIVED (queue_size (pending_order_queue s)) # map ORDER_CANCELLED ps\<rparr>"
proof (cases "shift_stopping s")
  case True
  then have "s' = s" using assms(2) by (simp add: cancel_pending_orders_after_sigint_def)
  with True show ?thesis by (rule idle)
next
  case False
  let ?s1 = "put_log [SIGINT_RECEIVED (queue_size (pending_order_queue s))] (s\<lparr>shift_stopping := True\<rparr>)"
  have "queue_rep (pending_order_queue ?s1) ps" using assms(1) by (simp add: put_log_def)
  from cancel_loop_spec [OF this] obtain q where q: "queue_rep q []"
    "cancel_loop ?s1 = Some (?s1\<lparr>pending_order_queue := q,
       total_cancelled_orders := total_cancelled_orders ?s1 + int (length ps),
       log := log ?s1 @ map ORDER_CANCELLED ps\<rparr>)" by blast
  show ?thesis
    by (rule cancel [OF False q(1)])
      (use assms(2) False q(2) in \<open>cases s; auto simp: cancel_pending_orders_after_sigint_def put_log_def\<close>)
qed

lemma cancel_returns:
  assumes "queue_rep (pending_order_queue s) ps"
  shows "\<exists>s'. cancel_pending_orders_after_sigint s = Some s'"
proof -
  let ?s1 = "put_log [SIGINT_RECEIVED (queue_size (pending_order_queue s))] (s\<lparr>shift_stopping := True\<rparr>)"
  have "queue_rep (pending_order_queue ?s1) ps" using assms by (simp add: put_log_def)
  from cancel_loop_spec [OF this] show ?thesis by (auto simp: cancel_pending_orders_after_sigint_def)
qed

lemma split_at_courier:
  assumes "i < length cs" and "cs ! i = pc"
  obtains us vs where "cs = us @ pc # vs" "length us = i"
  using assms id_take_nth_drop [of i cs] by (metis length_take min.absorb2 nat_less_le)

section \<open>Every step keeps the invariant\<close>

lemma orders_rel_rep: "orders_rel os ps s \<Longrightarrow> queue_rep (pending_order_queue s) ps"
  by (simp add: orders_rel_def)

lemma cancel_orders_rel:
  assumes "orders_rel os ps s" and "cancel_pending_orders_after_sigint s = Some s'"
  shows "\<exists>qs. orders_rel os qs s'"
  using orders_rel_rep [OF assms(1)] assms(2)
proof (cases rule: cancel_cases)
  case idle
  then show ?thesis using assms(1) by blast
next
  case (cancel q)
  then have "orders_rel os [] s'" using assms(1) by (auto simp: orders_rel_def sorted_wrt_append)
  then show ?thesis by blast
qed

lemma top_orders_rel:
  assumes "orders_rel os ps s" and "counters_inv s" and "couriers s = us @ At_Top # vs" and "i = length us"
    and "courier_top i s = Some s'"
  shows "\<exists>qs. orders_rel os qs s'"
  using orders_rel_rep [OF assms(1)] assms(5)
proof (cases rule: courier_top_cases)
  case wait
  then have "orders_rel os ps s'" using assms(1-4) by (auto simp: orders_rel_def state_simps)
  then show ?thesis by blast
next
  case stopped
  then have "orders_rel os ps s'" using assms(1-4) by (auto simp: orders_rel_def state_simps)
  then show ?thesis by blast
next
  case last
  moreover have "active_delivery_count s = 0" using last(3) assms(2) by (simp add: counters_inv_def)
  ultimately have "orders_rel os ps s'"
    using assms(1-4) by (auto simp: orders_rel_def state_simps wake_all_update)
  then show ?thesis by blast
next
  case (take x qs q)
  then have "orders_rel os qs s'" using assms(1-4) by (auto simp: orders_rel_def state_simps)
  then show ?thesis by blast
qed

lemma work_orders_rel:
  assumes "orders_rel os ps s" and "couriers s = us @ pc # vs" and "i = length us"
  shows "pc = Delivering x \<Longrightarrow> orders_rel os ps (courier_count i x s)"
    and "pc = Counted x \<Longrightarrow> orders_rel os ps (courier_time i x s)"
    and "pc = Timed x \<Longrightarrow> orders_rel os ps (courier_report i x s)"
    and "pc = Waiting \<Longrightarrow> orders_rel os ps (set_pc i At_Top s)"
  using assms
  by (auto simp: orders_rel_def courier_count_def courier_time_def courier_report_def state_simps)

lemma finish_orders_rel:
  assumes "orders_rel os ps s" and "counters_inv s" and "couriers s = us @ Logged x # vs" and "i = length us"
  shows "orders_rel os ps (courier_finish i s)"
proof -
  have sz: "queue_size (pending_order_queue s) = 0 \<longleftrightarrow> ps = []"
    by (rule order_pq.rep_len [OF orders_rel_rep [OF assms(1)]])
  show ?thesis using assms sz
    by (auto simp: orders_rel_def courier_finish_def Let_def state_simps wake_all_update counters_inv_def
        word_neq_0_conv)
qed

lemma cancel_counters_inv:
  assumes "counters_inv s" and "orders_rel os ps s" and "cancel_pending_orders_after_sigint s = Some s'"
  shows "counters_inv s'"
  using orders_rel_rep [OF assms(2)] assms(3)
  by (cases rule: cancel_cases) (use assms(1) in \<open>auto simp: counters_inv_def\<close>)

lemma top_counters_inv:
  assumes "counters_inv s" and "orders_rel os ps s" and "couriers s = us @ At_Top # vs" and "i = length us"
    and "courier_top i s = Some s'"
  shows "counters_inv s'"
  using orders_rel_rep [OF assms(2)] assms(5)
  by (cases rule: courier_top_cases)
    (use assms(1,3,4) in \<open>auto simp: counters_inv_def state_simps wake_all_update\<close>)

lemma count_counters_inv:
  assumes "counters_inv s" and "couriers s = us @ Delivering x # vs" and "i = length us"
    and "i < length (courier_stats_list s)"
  shows "counters_inv (courier_count i x s)"
  using assms by (auto simp: counters_inv_def courier_count_def state_simps sum_list_map_update)

lemma work_counters_inv:
  assumes "counters_inv s" and "couriers s = us @ pc # vs" and "i = length us"
  shows "pc = Counted x \<Longrightarrow> counters_inv (courier_time i x s)"
    and "pc = Timed x \<Longrightarrow> counters_inv (courier_report i x s)"
    and "pc = Waiting \<Longrightarrow> counters_inv (set_pc i At_Top s)"
    and "pc = Logged x \<Longrightarrow> counters_inv (courier_finish i s)"
  using assms
  by (auto simp: counters_inv_def courier_time_def courier_report_def courier_finish_def Let_def
      state_simps wake_all_update)

text \<open>A courier with an order keeps the main thread waiting.\<close>

lemma active_keep_waiting:
  assumes "counters_inv s" and "couriers s = us @ pc # vs" and "is_active pc"
  shows "keep_waiting s" and "active_delivery_count s > 0"
  using assms by (auto simp: counters_inv_def keep_waiting_def)

lemma threads_inv_frame:
  assumes "threads_inv n s" and "length (courier_stats_list t) = length (courier_stats_list s)"
    and "num_couriers t = num_couriers s" and "length (couriers t) = length (couriers s)"
    and "main_thread t = main_thread s" and "sigint_flag t = sigint_flag s"
    and "total_cancelled_orders t = total_cancelled_orders s"
    and "keep_waiting s \<or> \<not> keep_waiting t" and "\<not> list_all ((=) Shift_Over) (couriers s)"
    and "main_thread s = Joining \<Longrightarrow> \<not> keep_waiting t"
  shows "threads_inv n t"
  using assms by (auto simp: threads_inv_def split: main_pc.splits)

lemma top_threads_inv:
  assumes "threads_inv n s" and "counters_inv s" and "orders_rel os ps s"
    and "couriers s = us @ At_Top # vs" and "i = length us" and "courier_top i s = Some s'"
  shows "threads_inv n s'"
proof -
  have nw: "shift_stopping s" if "main_thread s = Joining" using that assms(1)
    by (simp add: threads_inv_def keep_waiting_def)
  show ?thesis using orders_rel_rep [OF assms(3)] assms(6)
  proof (cases rule: courier_top_cases)
    case wait
    then show ?thesis using nw assms(1,4,5)
      by (intro threads_inv_frame [OF assms(1)]) (auto simp: state_simps keep_waiting_def)
  next
    case stopped
    then show ?thesis using assms(1,4,5)
      by (intro threads_inv_frame [OF assms(1)]) (auto simp: state_simps keep_waiting_def threads_inv_def)
  next
    case last
    then show ?thesis using nw assms(1,4,5)
      by (intro threads_inv_frame [OF assms(1)]) (auto simp: state_simps keep_waiting_def wake_all_update)
  next
    case (take x qs q)
    then show ?thesis using nw assms(1,4,5)
      by (intro threads_inv_frame [OF assms(1)]) (auto simp: state_simps keep_waiting_def)
  qed
qed

lemma work_threads_inv:
  assumes "threads_inv n s" and "counters_inv s" and "couriers s = us @ pc # vs" and "i = length us"
  shows "pc = Delivering x \<Longrightarrow> threads_inv n (courier_count i x s)"
    and "pc = Counted x \<Longrightarrow> threads_inv n (courier_time i x s)"
    and "pc = Timed x \<Longrightarrow> threads_inv n (courier_report i x s)"
    and "pc = Logged x \<Longrightarrow> threads_inv n (courier_finish i s)"
    and "pc = Waiting \<Longrightarrow> threads_inv n (set_pc i At_Top s)"
proof -
  note ac = active_keep_waiting [OF assms(2,3)]
  have j: "main_thread s = Joining \<Longrightarrow> \<not> is_active pc"
    using ac assms(1) by (auto simp: threads_inv_def)
  show "pc = Delivering x \<Longrightarrow> threads_inv n (courier_count i x s)"
    using ac j assms(3,4) by (intro threads_inv_frame [OF assms(1)]) (auto simp: courier_count_def state_simps)
  show "pc = Counted x \<Longrightarrow> threads_inv n (courier_time i x s)"
    using ac j assms(3,4) by (intro threads_inv_frame [OF assms(1)]) (auto simp: courier_time_def state_simps)
  show "pc = Timed x \<Longrightarrow> threads_inv n (courier_report i x s)"
    using ac j assms(3,4) by (intro threads_inv_frame [OF assms(1)]) (auto simp: courier_report_def state_simps)
  show "pc = Logged x \<Longrightarrow> threads_inv n (courier_finish i s)"
    using ac j assms(3,4)
    by (intro threads_inv_frame [OF assms(1)]) (auto simp: courier_finish_def Let_def state_simps wake_all_update)
  show "pc = Waiting \<Longrightarrow> threads_inv n (set_pc i At_Top s)"
    using assms(1,3,4)
    by (intro threads_inv_frame [OF assms(1)]) (auto simp: state_simps keep_waiting_def threads_inv_def)
qed

lemma cancel_frame:
  assumes "orders_rel os ps s" and "cancel_pending_orders_after_sigint s = Some s'"
  shows "courier_stats_list s' = courier_stats_list s \<and> num_couriers s' = num_couriers s \<and>
         length (couriers s') = length (couriers s) \<and> main_thread s' = main_thread s \<and>
         sigint_flag s' = sigint_flag s \<and> valid_order_count s' = valid_order_count s"
  using orders_rel_rep [OF assms(1)] assms(2) by (cases rule: cancel_cases) auto

definition shift_inv :: "nat \<Rightarrow> Order list \<Rightarrow> shift \<Rightarrow> bool" where
  "shift_inv n os s \<longleftrightarrow>
     (\<exists>ps. orders_rel os ps s) \<and> counters_inv s \<and> threads_inv n s \<and> valid_order_count s = int (length os)"

lemma shift_inv_init:
  assumes "queue_rep q os"
  shows "shift_inv n os (init_shift n q os)"
proof -
  have "orders_rel os os (init_shift n q os)"
    using assms order_pq.rep_sorted [OF assms] by (simp add: orders_rel_def init_shift_def)
  then show ?thesis
    by (auto simp: shift_inv_def counters_inv_def threads_inv_def init_shift_def sum_list_replicate)
qed

text \<open>The steps of the couriers and the wake-ups.\<close>

inductive courier_moves :: "nat \<Rightarrow> shift \<Rightarrow> shift \<Rightarrow> bool" where
  "couriers s ! i = At_Top \<Longrightarrow> courier_top i s = Some s' \<Longrightarrow> courier_moves i s s'"
| "couriers s ! i = Delivering x \<Longrightarrow> courier_moves i s (courier_count i x s)"
| "couriers s ! i = Counted x \<Longrightarrow> courier_moves i s (courier_time i x s)"
| "couriers s ! i = Timed x \<Longrightarrow> courier_moves i s (courier_report i x s)"
| "couriers s ! i = Logged x \<Longrightarrow> courier_moves i s (courier_finish i s)"
| "couriers s ! i = Waiting \<Longrightarrow> courier_moves i s (set_pc i At_Top s)"

lemma courier_moves_inv:
  assumes "courier_moves i s t" and "i < length (couriers s)" and "shift_inv n os s"
  shows "shift_inv n os t"
proof -
  obtain us vs where uv: "couriers s = us @ couriers s ! i # vs" "i = length us"
    using split_at_courier [OF assms(2) refl] by metis
  from assms(3) obtain ps where inv: "orders_rel os ps s" "counters_inv s" "threads_inv n s"
    "valid_order_count s = int (length os)" by (auto simp: shift_inv_def)
  have li: "i < length (courier_stats_list s)" using inv(3) assms(2) by (auto simp: threads_inv_def)
  from assms(1) show ?thesis
  proof cases
    case 1
    note uv' = uv [unfolded 1(1)]
    have "valid_order_count t = valid_order_count s"
      using orders_rel_rep [OF inv(1)] 1(2) by (cases rule: courier_top_cases) (auto simp: state_simps)
    then show ?thesis
      using top_orders_rel [OF inv(1,2) uv' 1(2)] top_counters_inv [OF inv(2,1) uv' 1(2)]
        top_threads_inv [OF inv(3,2,1) uv' 1(2)] inv(4) by (auto simp: shift_inv_def)
  next
    case (2 x)
    note uv' = uv [unfolded 2(2)]
    show ?thesis unfolding 2(1)
      using work_orders_rel(1) [OF inv(1) uv' refl] count_counters_inv [OF inv(2) uv' li]
        work_threads_inv(1) [OF inv(3,2) uv' refl] inv(4)
      by (auto simp: shift_inv_def courier_count_def state_simps)
  next
    case (3 x)
    note uv' = uv [unfolded 3(2)]
    show ?thesis unfolding 3(1)
      using work_orders_rel(2) [OF inv(1) uv' refl] work_counters_inv(1) [OF inv(2) uv' refl]
        work_threads_inv(2) [OF inv(3,2) uv' refl] inv(4)
      by (auto simp: shift_inv_def courier_time_def state_simps)
  next
    case (4 x)
    note uv' = uv [unfolded 4(2)]
    show ?thesis unfolding 4(1)
      using work_orders_rel(3) [OF inv(1) uv' refl] work_counters_inv(2) [OF inv(2) uv' refl]
        work_threads_inv(3) [OF inv(3,2) uv' refl] inv(4)
      by (auto simp: shift_inv_def courier_report_def state_simps)
  next
    case (5 x)
    note uv' = uv [unfolded 5(2)]
    show ?thesis unfolding 5(1)
      using finish_orders_rel [OF inv(1,2) uv'] work_counters_inv(4) [OF inv(2) uv' refl]
        work_threads_inv(4) [OF inv(3,2) uv' refl] inv(4)
      by (auto simp: shift_inv_def courier_finish_def Let_def state_simps)
  next
    case 6
    note uv' = uv [unfolded 6(2)]
    show ?thesis unfolding 6(1)
      using work_orders_rel(4) [OF inv(1) uv' refl] work_counters_inv(3) [OF inv(2) uv' refl]
        work_threads_inv(5) [OF inv(3,2) uv' refl] inv(4)
      by (auto simp: shift_inv_def state_simps)
  qed
qed

text \<open>The steps of the main thread that leave the orders alone.\<close>

lemma main_move_inv:
  assumes "shift_inv n os s"
    and "t = s\<lparr>main_thread := m\<rparr> \<or> t = s\<lparr>sigint_flag := True\<rparr> \<or>
         t = s\<lparr>couriers := couriers s @ [At_Top], main_thread := m\<rparr>"
    and "threads_inv n t"
  shows "shift_inv n os t"
proof -
  from assms(1) obtain ps where "orders_rel os ps s" by (auto simp: shift_inv_def)
  then have "orders_rel os ps t" using assms(2) by (auto simp: orders_rel_def)
  moreover have "counters_inv t \<and> valid_order_count t = valid_order_count s"
    using assms(1,2) by (auto simp: shift_inv_def counters_inv_def)
  ultimately show ?thesis using assms(1,3) by (auto simp: shift_inv_def)
qed

lemma cancel_inv:
  assumes "shift_inv n os s" and "cancel_pending_orders_after_sigint s = Some s'"
    and "(main_thread s = Cancelling \<and> t = s'\<lparr>main_thread := Waiting_Shift\<rparr>) \<or>
         (\<exists>i. main_thread s = Create_Failed i \<and> t = s'\<lparr>num_couriers := i, main_thread := Waiting_Shift\<rparr>)"
  shows "shift_inv n os t"
proof -
  from assms(1) obtain ps where inv: "orders_rel os ps s" "counters_inv s" "threads_inv n s"
    by (auto simp: shift_inv_def)
  note fr = cancel_frame [OF inv(1) assms(2)]
  obtain qs where "orders_rel os qs s'" using cancel_orders_rel [OF inv(1) assms(2)] by blast
  then have "orders_rel os qs t" using assms(3) by (auto simp: orders_rel_def)
  moreover have "counters_inv t"
    using cancel_counters_inv [OF inv(2,1) assms(2)] assms(3) by (auto simp: counters_inv_def)
  moreover have "threads_inv n t" using inv(3) fr assms(3) by (auto simp: threads_inv_def)
  moreover have "valid_order_count t = int (length os)" using assms(1,3) fr by (auto simp: shift_inv_def)
  ultimately show ?thesis by (auto simp: shift_inv_def)
qed

lemma cstep_inv:
  assumes "cstep l s t" and "shift_inv n os s"
  shows "shift_inv n os t"
  using assms(1)
proof cases
  case (create i)
  then show ?thesis using assms(2)
    by (intro main_move_inv [OF assms(2), where m = "Creating (Suc i)"]) (auto simp: shift_inv_def threads_inv_def)
next
  case (create_fail i)
  then show ?thesis using assms(2)
    by (intro main_move_inv [OF assms(2), where m = "Create_Failed i"]) (auto simp: shift_inv_def threads_inv_def)
next
  case (create_cancel i s')
  then show ?thesis using cancel_inv [OF assms(2)] by blast
next
  case (create_done i)
  then show ?thesis using assms(2)
    by (intro main_move_inv [OF assms(2), where m = Waiting_Shift]) (auto simp: shift_inv_def threads_inv_def)
next
  case sigint
  then show ?thesis using assms(2)
    by (intro main_move_inv [OF assms(2)])
      (auto simp: shift_inv_def threads_inv_def keep_waiting_def split: main_pc.splits)
next
  case wait_sigint
  then show ?thesis using assms(2)
    by (intro main_move_inv [OF assms(2), where m = Cancelling]) (auto simp: shift_inv_def threads_inv_def)
next
  case (wait_cancel s')
  then show ?thesis using cancel_inv [OF assms(2)] by blast
next
  case wait_timeout
  then show ?thesis using assms(2) by simp
next
  case wait_done
  then show ?thesis using assms(2)
    by (intro main_move_inv [OF assms(2), where m = Joining])
      (auto simp: shift_inv_def threads_inv_def keep_waiting_def)
next
  case joined
  then show ?thesis using assms(2)
    by (intro main_move_inv [OF assms(2), where m = Finished])
      (auto simp: shift_inv_def threads_inv_def keep_waiting_def list_all_iff)
qed (use courier_moves.intros courier_moves_inv [OF _ _ assms(2)] in blast)+

lemma shift_reach_inv: "shift_reach n q os s \<Longrightarrow> queue_rep q os \<Longrightarrow> shift_inv n os s"
  by (induction rule: shift_reach.induct) (auto intro: shift_inv_init cstep_inv)

section \<open>Termination of the couriers\<close>

text \<open>What the couriers still have to do: a bound on the number of their steps.\<close>

fun pc_work :: "nat \<Rightarrow> courier_pc \<Rightarrow> nat" where
  "pc_work n At_Top = 2"
| "pc_work n Waiting = 1"
| "pc_work n (Delivering x) = n + 6"
| "pc_work n (Counted x) = n + 5"
| "pc_work n (Timed x) = n + 4"
| "pc_work n (Logged x) = n + 3"
| "pc_work n Shift_Over = 0"

definition work :: "shift \<Rightarrow> nat" where
  "work s =
     (let n = length (courier_stats_list s) in
      (n + 10) * unat (queue_size (pending_order_queue s)) +
      sum_list (map (pc_work n) (couriers s)) + 3 * (n - length (couriers s)) +
      (if shift_stopping s then 0 else n + 1))"

lemma queue_rep_unat_size: "queue_rep q ps \<Longrightarrow> unat (queue_size q) = length ps"
  using queue_rep_size by (fastforce simp: unat_of_nat take_bit_nat_eq_self)

lemma pc_work_wake_all:
  "sum_list (map (pc_work n) (wake_all cs)) \<le> sum_list (map (pc_work n) cs) + length cs"
  by (induction cs) (auto simp: wake_all_def)

lemma cancel_work:
  assumes "orders_rel os ps s" and "threads_inv n s" and "cancel_pending_orders_after_sigint s = Some s'"
  shows "work s' \<le> work s"
  using orders_rel_rep [OF assms(1)] assms(3)
proof (cases rule: cancel_cases)
  case (cancel q)
  have "unat (queue_size q) = 0" using queue_rep_unat_size [OF cancel(2)] by simp
  moreover have "length (couriers s) \<le> length (courier_stats_list s)" using assms(2) by (simp add: threads_inv_def)
  ultimately show ?thesis
    using cancel pc_work_wake_all [of "length (courier_stats_list s)" "couriers s"] by (simp add: work_def Let_def)
qed simp

lemma top_work:
  assumes "orders_rel os ps s" and "counters_inv s" and "threads_inv n s"
    and uv: "couriers s = us @ At_Top # vs" "i = length us" and "courier_top i s = Some s'"
  shows "work s' < work s"
proof -
  let ?n = "length (courier_stats_list s)"
  have len: "length us + length vs < ?n" using assms(3) uv by (simp add: threads_inv_def)
  have wk: "sum_list (map (pc_work ?n) (wake_all us)) \<le> sum_list (map (pc_work ?n) us) + length us"
    "sum_list (map (pc_work ?n) (wake_all vs)) \<le> sum_list (map (pc_work ?n) vs) + length vs"
    by (rule pc_work_wake_all)+
  have sz: "unat (queue_size (pending_order_queue s)) = length ps"
    by (rule queue_rep_unat_size [OF orders_rel_rep [OF assms(1)]])
  from orders_rel_rep [OF assms(1)] assms(6) show ?thesis
  proof (cases rule: courier_top_cases)
    case wait
    then show ?thesis using uv len by (simp add: work_def Let_def state_simps)
  next
    case stopped
    then show ?thesis using uv len by (simp add: work_def Let_def state_simps)
  next
    case last
    then show ?thesis using uv len wk sz by (simp add: work_def Let_def state_simps wake_all_update)
  next
    case (take x qs q)
    have "unat (queue_size q) = length qs" by (rule queue_rep_unat_size [OF take(3)])
    then show ?thesis using uv len sz take by (simp add: work_def Let_def state_simps algebra_simps)
  qed
qed

lemma courier_work_decreases:
  assumes "threads_inv n s" and uv: "couriers s = us @ pc # vs" "i = length us"
  shows "pc = Delivering x \<Longrightarrow> work (courier_count i x s) < work s"
    and "pc = Counted x \<Longrightarrow> work (courier_time i x s) < work s"
    and "pc = Timed x \<Longrightarrow> work (courier_report i x s) < work s"
    and "pc = Logged x \<Longrightarrow> work (courier_finish i s) < work s"
proof -
  let ?n = "length (courier_stats_list s)"
  have len: "length us + length vs < ?n" using assms(1) uv by (simp add: threads_inv_def)
  have wk: "sum_list (map (pc_work ?n) (wake_all us)) \<le> sum_list (map (pc_work ?n) us) + length us"
    "sum_list (map (pc_work ?n) (wake_all vs)) \<le> sum_list (map (pc_work ?n) vs) + length vs"
    by (rule pc_work_wake_all)+
  show "pc = Delivering x \<Longrightarrow> work (courier_count i x s) < work s"
    using uv len by (simp add: work_def Let_def courier_count_def state_simps)
  show "pc = Counted x \<Longrightarrow> work (courier_time i x s) < work s"
    using uv len by (simp add: work_def Let_def courier_time_def state_simps)
  show "pc = Timed x \<Longrightarrow> work (courier_report i x s) < work s"
    using uv len by (simp add: work_def Let_def courier_report_def state_simps)
  show "pc = Logged x \<Longrightarrow> work (courier_finish i s) < work s"
    using uv len wk by (simp add: work_def Let_def courier_finish_def Let_def state_simps wake_all_update)
qed

lemma cstep_work:
  assumes "cstep l s t" and "shift_inv n os s"
  shows "(l = Progress \<longrightarrow> work t < work s) \<and> (l \<noteq> Spurious \<longrightarrow> work t \<le> work s) \<and> work t \<le> Suc (work s)"
proof -
  from assms(2) obtain ps where inv: "orders_rel os ps s" "counters_inv s" "threads_inv n s"
    by (auto simp: shift_inv_def)
  from assms(1) show ?thesis
  proof cases
    case (create i)
    then have "length (couriers s) < length (courier_stats_list s)" using inv(3) by (simp add: threads_inv_def)
    then show ?thesis using create by (simp add: work_def Let_def, arith)
  next
    case (create_cancel i s')
    then show ?thesis using cancel_work [OF inv(1,3)] by (simp add: work_def Let_def)
  next
    case (wait_cancel s')
    then show ?thesis using cancel_work [OF inv(1,3)] by (simp add: work_def Let_def)
  next
    case (top i)
    obtain us vs where "couriers s = us @ At_Top # vs" "i = length us"
      using split_at_courier [OF top(2,3)] by metis
    with top(4) show ?thesis using top_work [OF inv] by fastforce
  next
    case (deliver i x)
    obtain us vs where "couriers s = us @ Delivering x # vs" "i = length us"
      using split_at_courier [OF deliver(3,4)] by metis
    with deliver show ?thesis using courier_work_decreases(1) [OF inv(3)] by fastforce
  next
    case (time i x)
    obtain us vs where "couriers s = us @ Counted x # vs" "i = length us"
      using split_at_courier [OF time(3,4)] by metis
    with time show ?thesis using courier_work_decreases(2) [OF inv(3)] by fastforce
  next
    case (report i x)
    obtain us vs where "couriers s = us @ Timed x # vs" "i = length us"
      using split_at_courier [OF report(3,4)] by metis
    with report show ?thesis using courier_work_decreases(3) [OF inv(3)] by fastforce
  next
    case (finish i x)
    obtain us vs where "couriers s = us @ Logged x # vs" "i = length us"
      using split_at_courier [OF finish(3,4)] by metis
    with finish show ?thesis using courier_work_decreases(4) [OF inv(3)] by fastforce
  next
    case (spurious i)
    obtain us vs where "couriers s = us @ Waiting # vs" "i = length us"
      using split_at_courier [OF spurious(3,4)] by metis
    with spurious show ?thesis by (simp add: work_def Let_def state_simps)
  qed (simp_all add: work_def Let_def)
qed

section \<open>Scheduled runs\<close>

text \<open>An executable scheduler: which thread moves next. The main thread's \<open>pthread_create\<close> fails
  when the scheduler says so.\<close>

datatype choice = Main | Main_Fails | Courier nat | Wake nat | Sigint

definition sched_step :: "choice \<Rightarrow> shift \<Rightarrow> (label \<times> shift) option" where
  "sched_step c s =
     (case c of
        Main \<Rightarrow>
          (case main_thread s of
             Creating i \<Rightarrow>
               if i < num_couriers s
               then Some (Progress, s\<lparr>couriers := couriers s @ [At_Top], main_thread := Creating (Suc i)\<rparr>)
               else Some (Poll, s\<lparr>main_thread := Waiting_Shift\<rparr>)
           | Create_Failed i \<Rightarrow>
               map_option (\<lambda>s'. (Poll, s'\<lparr>num_couriers := i, main_thread := Waiting_Shift\<rparr>))
                 (cancel_pending_orders_after_sigint s)
           | Waiting_Shift \<Rightarrow>
               if \<not> keep_waiting s then Some (Poll, s\<lparr>main_thread := Joining\<rparr>)
               else if sigint_flag s then Some (Poll, s\<lparr>main_thread := Cancelling\<rparr>)
               else Some (Poll, s)
           | Cancelling \<Rightarrow>
               map_option (\<lambda>s'. (Poll, s'\<lparr>main_thread := Waiting_Shift\<rparr>)) (cancel_pending_orders_after_sigint s)
           | Joining \<Rightarrow>
               if list_all ((=) Shift_Over) (couriers s) then Some (Poll, s\<lparr>main_thread := Finished\<rparr>) else None
           | Finished \<Rightarrow> None)
      | Main_Fails \<Rightarrow>
          (case main_thread s of
             Creating i \<Rightarrow> if i < num_couriers s then Some (Poll, s\<lparr>main_thread := Create_Failed i\<rparr>) else None
           | _ \<Rightarrow> None)
      | Courier i \<Rightarrow>
          if i < length (couriers s) then
            (case couriers s ! i of
               At_Top \<Rightarrow> map_option (Pair Progress) (courier_top i s)
             | Delivering x \<Rightarrow>
                 if simulate_delivery_time (duration_units x) \<noteq> None then Some (Progress, courier_count i x s) else None
             | Counted x \<Rightarrow> Some (Progress, courier_time i x s)
             | Timed x \<Rightarrow> Some (Progress, courier_report i x s)
             | Logged x \<Rightarrow> Some (Progress, courier_finish i s)
             | _ \<Rightarrow> None)
          else None
      | Wake i \<Rightarrow>
          if i < length (couriers s) \<and> couriers s ! i = Waiting then Some (Spurious, set_pc i At_Top s) else None
      | Sigint \<Rightarrow> Some (Signal, s\<lparr>sigint_flag := True\<rparr>))"

fun sched_run :: "choice list \<Rightarrow> shift \<Rightarrow> shift option" where
  "sched_run [] s = Some s"
| "sched_run (c # cs) s = (case sched_step c s of None \<Rightarrow> None | Some (l, t) \<Rightarrow> sched_run cs t)"

lemma sched_step_sound: "sched_step c s = Some (l, t) \<Longrightarrow> cstep l s t"
  unfolding sched_step_def
  by (auto split: choice.splits main_pc.splits courier_pc.splits if_splits option.splits
      simp: list_all_iff intro: cstep.intros)

lemma sched_run_reach: "shift_reach n q os s \<Longrightarrow> sched_run cs s = Some t \<Longrightarrow> shift_reach n q os t"
  by (induction cs arbitrary: s)
    (auto split: option.splits prod.splits intro: reach_step dest: sched_step_sound)

text \<open>A run, with the numbers of its \<open>Progress\<close> steps and of its spurious wake-ups.\<close>

inductive shift_run :: "nat \<Rightarrow> nat \<Rightarrow> shift \<Rightarrow> shift \<Rightarrow> bool" where
  run_refl: "shift_run 0 0 s s"
| run_work: "shift_run k j s t \<Longrightarrow> cstep Progress t u \<Longrightarrow> shift_run (Suc k) j s u"
| run_spurious: "shift_run k j s t \<Longrightarrow> cstep Spurious t u \<Longrightarrow> shift_run k (Suc j) s u"
| run_idle: "shift_run k j s t \<Longrightarrow> cstep l t u \<Longrightarrow> l = Poll \<or> l = Signal \<Longrightarrow> shift_run k j s u"

lemma shift_run_bound:
  "shift_run k j s t \<Longrightarrow> shift_inv n os s \<Longrightarrow> shift_inv n os t \<and> k + work t \<le> work s + j"
proof (induction rule: shift_run.induct)
  case (run_work k j s t u)
  then show ?case using cstep_work [OF run_work(2), of n os] cstep_inv [OF run_work(2), of n os] by auto
next
  case (run_spurious k j s t u)
  then show ?case using cstep_work [OF run_spurious(2), of n os] cstep_inv [OF run_spurious(2), of n os] by auto
next
  case (run_idle k j s t l u)
  then show ?case using cstep_work [OF run_idle(2), of n os] cstep_inv [OF run_idle(2), of n os] by auto
qed auto

lemma active_exists: "0 < length (filter is_active cs) \<Longrightarrow> \<exists>i<length cs. is_active (cs ! i)"
  by (metis filter_False in_set_conv_nth length_greater_0_conv)

lemma active_courier_moves:
  assumes "orders_rel os ps s" and "\<forall>x\<in>set os. simulate_delivery_time (duration_units x) \<noteq> None"
    and "i < length (couriers s)" and "is_active (couriers s ! i)"
  shows "\<exists>t. cstep Progress s t"
proof (cases "couriers s ! i")
  case (Delivering x)
  then have "x \<in> set (gather delivering_of (couriers s))" using assms(3) nth_mem by force
  then have "x \<in># mset os" using assms(1) by (auto simp: orders_rel_def)
  then have "simulate_delivery_time (duration_units x) \<noteq> None" using assms(2) by simp
  then show ?thesis using cstep.deliver [OF assms(3) Delivering] by blast
qed (use assms(3,4) in \<open>auto intro: cstep.intros\<close>)

text \<open>A courier returns only when the shift stops, and without couriers the shift is stopped at once.\<close>

definition over_inv :: "shift \<Rightarrow> bool" where
  "over_inv s \<longleftrightarrow> (Shift_Over \<in> set (couriers s) \<or> num_couriers s = 0 \<longrightarrow> shift_stopping s)"

lemma cancel_stops: "orders_rel os ps s \<Longrightarrow> cancel_pending_orders_after_sigint s = Some s' \<Longrightarrow> shift_stopping s'"
  by (drule orders_rel_rep) (erule (1) cancel_cases; simp)

lemma over_update: "Shift_Over \<in> set (cs[i := pc]) \<Longrightarrow> pc \<noteq> Shift_Over \<Longrightarrow> Shift_Over \<in> set cs"
  using set_update_subset_insert [of cs i pc] by auto

lemma over_wake_all [simp]: "Shift_Over \<in> set (wake_all cs) \<longleftrightarrow> Shift_Over \<in> set cs"
  by (auto simp: wake_all_def)

lemma top_over_inv:
  assumes "orders_rel os ps s" "counters_inv s" "over_inv s" "courier_top i s = Some s'" "i < length (couriers s)"
  shows "over_inv s'"
proof -
  have nonneg: "0 \<le> active_delivery_count s" using assms(2) by (simp add: counters_inv_def)
  from orders_rel_rep [OF assms(1)] assms(4) show ?thesis
    by (cases rule: courier_top_cases) (use assms(3) nonneg in \<open>auto simp: over_inv_def state_simps dest!: over_update\<close>)
qed

lemma cstep_over_inv:
  assumes "cstep l s t" "shift_inv n os s" "over_inv s"
  shows "over_inv t"
proof -
  from assms(2) obtain ps where inv: "orders_rel os ps s" "counters_inv s" by (auto simp: shift_inv_def)
  from assms(1) show ?thesis
  proof cases
    case (top i)
    then show ?thesis using top_over_inv [OF inv assms(3)] by blast
  qed (use assms(3) cancel_stops [OF inv(1)] in
      \<open>auto simp: over_inv_def state_simps courier_count_def courier_time_def courier_report_def courier_finish_def Let_def split: if_splits dest!: over_update\<close>)
qed

lemma shift_over_inv:
  assumes "shift_reach n q os s" "queue_rep q os" "0 < n"
  shows "over_inv s"
  using assms(1)
proof induction
  case reach_init
  then show ?case using assms(3) by (simp add: over_inv_def init_shift_def)
next
  case (reach_step s l t)
  then show ?case using cstep_over_inv shift_reach_inv [OF _ assms(2)] by blast
qed

text \<open>When every courier has returned, or none was created, the main thread moves on.\<close>

lemma main_moves_on:
  assumes inv: "orders_rel os ps s" "counters_inv s" "threads_inv n s" "over_inv s"
    and "main_thread s \<noteq> Finished" and over: "list_all ((=) Shift_Over) (couriers s)" and "\<nexists>t. cstep Progress s t"
  shows "\<exists>t. cstep Poll s t \<and> main_thread t \<noteq> main_thread s"
proof -
  have "filter is_active (couriers s) = []" using over by (auto simp: list_all_iff filter_empty_conv)
  then have idle: "active_delivery_count s = 0" using inv(2) by (simp add: counters_inv_def)
  have cancel: "\<exists>s'. cancel_pending_orders_after_sigint s = Some s'"
    using cancel_returns [OF orders_rel_rep [OF inv(1)]] .
  show ?thesis
  proof (cases "main_thread s")
    case (Creating i)
    then have "\<not> i < num_couriers s" using assms(7) cstep.create by blast
    then show ?thesis using cstep.create_done [OF Creating] Creating by (intro exI conjI) auto
  next
    case (Create_Failed i)
    with cancel show ?thesis using cstep.create_cancel by fastforce
  next
    case Waiting_Shift
    then have "length (couriers s) = num_couriers s" using inv(3) by (simp add: threads_inv_def)
    then have "shift_stopping s" using inv(4) over by (cases "couriers s") (auto simp: over_inv_def)
    then have "\<not> keep_waiting s" using idle by (simp add: keep_waiting_def)
    then show ?thesis using cstep.wait_done [OF Waiting_Shift] Waiting_Shift by (intro exI conjI) auto
  next
    case Cancelling
    with cancel show ?thesis using cstep.wait_cancel by fastforce
  next
    case Joining
    have "cstep Poll s (s\<lparr>main_thread := Finished\<rparr>)" by (rule cstep.joined [OF Joining]) (use over in \<open>auto simp: list_all_iff\<close>)
    with Joining show ?thesis by (intro exI conjI) auto
  qed (use assms(5) in simp)
qed

section \<open>A concrete shift\<close>

text \<open>Two couriers and two orders, scheduled in an interleaving in which one courier waits.\<close>

definition sample_express :: Order where
  "sample_express = \<lparr>order_id = 7, recipient = ''Ada'', priority = PRIORITY_EXPRESS, duration_units = 2\<rparr>"

definition sample_economy :: Order where
  "sample_economy = \<lparr>order_id = 3, recipient = ''Bob'', priority = PRIORITY_ECONOMY, duration_units = 1\<rparr>"

definition sample_queue :: qstate where
  "sample_queue =
     ([1 \<mapsto> \<lparr>node_order = sample_express, next_node = 2\<rparr>, 2 \<mapsto> \<lparr>node_order = sample_economy, next_node = 0\<rparr>],
      \<lparr>queue_head = 1, queue_len = 2\<rparr>)"

abbreviation sample_orders :: "Order list" where
  "sample_orders \<equiv> [sample_express, sample_economy]"

definition sample_choices :: "choice list" where
  "sample_choices =
     [Main, Courier 0, Courier 0, Main, Courier 0, Main, Courier 0, Courier 1, Courier 0, Courier 1,
      Courier 1, Courier 1, Courier 0, Main, Courier 1, Courier 0, Courier 1, Main, Main]"

definition sample_final :: shift where
  "sample_final = the (sched_run sample_choices (init_shift 2 sample_queue sample_orders))"

lemmas sample_defs = sample_express_def sample_economy_def sample_queue_def sample_choices_def

lemma sample_queue_rep: "queue_rep sample_queue sample_orders"
  unfolding queue_rep_def
  by (intro exI [of _ "[(1, sample_express), (2, sample_economy)]"])
    (auto simp: sample_defs order_has_higher_priority_def)

lemma sample_run: "case sched_run sample_choices (init_shift 2 sample_queue sample_orders) of
    None \<Rightarrow> False | Some s \<Rightarrow> main_thread s = Finished \<and> \<not> sigint_flag s \<and> num_couriers s = 2"
  by code_simp

lemma sample_final_reach: "shift_reach 2 sample_queue sample_orders sample_final"
proof -
  obtain s where "sched_run sample_choices (init_shift 2 sample_queue sample_orders) = Some s"
    using sample_run by (auto split: option.splits)
  then show ?thesis using sched_run_reach [OF reach_init] by (simp add: sample_final_def)
qed

lemma sample_final_facts:
  "main_thread sample_final = Finished" "\<not> sigint_flag sample_final" "num_couriers sample_final = 2"
  using sample_run by (auto simp: sample_final_def split: option.splits)

lemma sample_sleeps: "\<forall>x\<in>set sample_orders. simulate_delivery_time (duration_units x) \<noteq> None"
  by (simp add: sample_defs simulate_delivery_time_def int_mul_def DELIVERY_UNIT_MS_def c_int_simps)

text \<open>When the main thread has finished, no courier is under way and every order is accounted for.\<close>

lemma finished_couriers:
  assumes "shift_reach n q os s" and "queue_rep q os" and "main_thread s = Finished"
    and f: "f Shift_Over = []"
  shows "gather f (couriers s) = ([] :: Order list)"
proof -
  have "list_all ((=) Shift_Over) (couriers s)"
    using shift_reach_inv [OF assms(1,2)] assms(3) by (auto simp: shift_inv_def threads_inv_def keep_waiting_def)
  with f show ?thesis by (auto simp: list_all_iff)
qed

lemma finished_orders:
  assumes "shift_reach n q os s" and "queue_rep q os" and "main_thread s = Finished"
  shows "mset os = mset (gather completes (log s)) + mset (gather cancels (log s))"
proof -
  from shift_reach_inv [OF assms(1,2)] obtain ps where inv: "orders_rel os ps s" "threads_inv n s" by (auto simp: shift_inv_def)
  moreover have "shift_stopping s" using inv(2) assms(3) by (auto simp: threads_inv_def keep_waiting_def)
  ultimately show ?thesis using finished_couriers [OF assms] by (auto simp: orders_rel_def)
qed

section \<open>Properties\<close>

text \<open>(C1) Conservation: in every state of the shift each loaded order is in exactly one place, as often as it was
  loaded: in the queue, being delivered, delivered but not yet reported, reported as delivered, or cancelled; and the
  counters count the finished and the cancelled ones. When the shift has ended every order was delivered or
  cancelled, the total time is the time of the delivered orders, and the couriers' own statistics add up to the
  totals.\<close>

theorem shift_conserves_orders:
  assumes "shift_reach n q os s" and "queue_rep q os"
  shows "(\<exists>ps. queue_rep (pending_order_queue s) ps \<and>
            mset os = mset ps + mset (gather delivering_of (couriers s)) + mset (gather counted_of (couriers s)) +
                      mset (gather completes (log s)) + mset (gather cancels (log s))) \<and>
         total_completed_orders s = int (length (gather counted_of (couriers s)) + length (gather completes (log s))) \<and>
         total_cancelled_orders s = int (length (gather cancels (log s))) \<and>
         sum_list (map delivered_order_count (courier_stats_list s)) = total_completed_orders s \<and>
         (main_thread s = Finished \<longrightarrow>
            mset os = mset (gather completes (log s)) + mset (gather cancels (log s)) \<and>
            total_completed_orders s + total_cancelled_orders s = valid_order_count s \<and>
            total_completed_delivery_time s = total_ms (gather completes (log s)) \<and>
            sum_list (map delivered_time_ms (courier_stats_list s)) = total_completed_delivery_time s)"
proof -
  from shift_reach_inv [OF assms] obtain ps where inv: "orders_rel os ps s" "counters_inv s" "valid_order_count s = int (length os)"
    by (auto simp: shift_inv_def)
  have "mset os = mset (gather completes (log s)) + mset (gather cancels (log s)) \<and>
      total_completed_orders s + total_cancelled_orders s = valid_order_count s \<and>
      total_completed_delivery_time s = total_ms (gather completes (log s)) \<and>
      sum_list (map delivered_time_ms (courier_stats_list s)) = total_completed_delivery_time s" if "main_thread s = Finished"
  proof -
    note os = finished_orders [OF assms that] and no = finished_couriers [OF assms that]
    from os have "length os = length (gather completes (log s)) + length (gather cancels (log s))"
      by (metis size_mset size_union)
    with os inv show ?thesis by (simp add: counters_inv_def no)
  qed
  with inv show ?thesis by (auto simp: orders_rel_def counters_inv_def)
qed

theorem shift_conserves_orders_witness:
  "main_thread sample_final = Finished \<and>
   mset sample_orders = mset (gather completes (log sample_final)) + mset (gather cancels (log sample_final)) \<and>
   total_completed_orders sample_final + total_cancelled_orders sample_final = valid_order_count sample_final"
  using shift_conserves_orders [OF sample_final_reach sample_queue_rep] sample_final_facts(1) by blast

text \<open>Without SIGINT and without a failing \<open>pthread_create\<close> the shift delivers every loaded
  order and cancels none.\<close>

theorem shift_delivers_all:
  assumes "shift_reach n q os s" and "queue_rep q os" and "main_thread s = Finished"
    and "\<not> sigint_flag s" and "num_couriers s = n"
  shows "total_cancelled_orders s = 0 \<and> mset (gather completes (log s)) = mset os"
proof -
  from shift_reach_inv [OF assms(1,2)] obtain ps where inv: "orders_rel os ps s" "counters_inv s"
    "threads_inv n s" by (auto simp: shift_inv_def)
  have over: "list_all ((=) Shift_Over) (couriers s)" "shift_stopping s"
    using inv(3) assms(3) by (auto simp: threads_inv_def keep_waiting_def)
  have no: "gather f (couriers s) = []" if "f Shift_Over = []" for f :: "courier_pc \<Rightarrow> Order list"
    using over(1) that by (auto simp: list_all_iff)
  have "total_cancelled_orders s = 0 \<and> gather cancels (log s) = []"
    using inv(2,3) assms(4,5) by (auto simp: threads_inv_def counters_inv_def)
  with inv(1) over(2) show ?thesis by (auto simp: orders_rel_def no)
qed

theorem shift_delivers_all_witness:
  "total_cancelled_orders sample_final = 0 \<and> mset (gather completes (log sample_final)) = mset sample_orders"
  using shift_delivers_all [OF sample_final_reach sample_queue_rep sample_final_facts] by simp

text \<open>(C4) At every moment the deliveries have been started in priority order: express before
  standard before economy, and by ascending id within one class.\<close>

theorem deliveries_start_in_priority_order:
  assumes "shift_reach n q os s" and "queue_rep q os"
  shows "sorted_wrt later_order (gather starts (log s))"
  using shift_reach_inv [OF assms] by (auto simp: shift_inv_def orders_rel_def sorted_wrt_append)

theorem deliveries_start_in_priority_order_witness:
  "sorted_wrt later_order (gather starts (log sample_final))"
  by (rule deliveries_start_in_priority_order [OF sample_final_reach sample_queue_rep])

text \<open>(C2) No lost wake-up and no deadlock: in every state of a shift with at least one courier, as long as a courier
  has not returned some thread can do some of the work, and as long as the main thread has not finished some thread
  can do some of the work or the main thread can move on to its next stage. A spurious wake-up, a signal and a timed
  wait that expires do not count as such steps. The sleeping time of every order must be representable as an
  \<open>int\<close>, which the loader does not check.\<close>

theorem couriers_never_stuck:
  assumes "shift_reach n q os s" and "queue_rep q os" and "0 < n"
    and "\<forall>x\<in>set os. simulate_delivery_time (duration_units x) \<noteq> None"
  shows "((\<exists>pc\<in>set (couriers s). pc \<noteq> Shift_Over) \<longrightarrow> (\<exists>t. cstep Progress s t)) \<and>
         (main_thread s \<noteq> Finished \<longrightarrow>
            (\<exists>t. cstep Progress s t) \<or> (\<exists>t. cstep Poll s t \<and> main_thread t \<noteq> main_thread s))"
proof -
  from shift_reach_inv [OF assms(1,2)] obtain ps where inv: "orders_rel os ps s" "counters_inv s" "threads_inv n s"
    by (auto simp: shift_inv_def)
  note act = active_courier_moves [OF inv(1) assms(4)]
  have courier: "\<exists>t. cstep Progress s t" if pc: "pc \<in> set (couriers s)" "pc \<noteq> Shift_Over" for pc
  proof -
    obtain i where i: "i < length (couriers s)" "couriers s ! i = pc" using pc by (auto simp: in_set_conv_nth)
    show ?thesis
    proof (cases pc)
      case At_Top
      then show ?thesis using i courier_top_returns [OF orders_rel_rep [OF inv(1)]] by (metis cstep.top)
    next
      case Waiting
      then have "active_delivery_count s > 0" using inv(1) pc by (auto simp: orders_rel_def)
      then have "0 < length (filter is_active (couriers s))" using inv(2) by (simp add: counters_inv_def)
      then show ?thesis using active_exists act by blast
    qed (use i act pc in auto)
  qed
  moreover have "\<exists>t. cstep Poll s t \<and> main_thread t \<noteq> main_thread s"
    if "main_thread s \<noteq> Finished" "list_all ((=) Shift_Over) (couriers s)" "\<nexists>t. cstep Progress s t"
    using main_moves_on [OF inv shift_over_inv [OF assms(1-3)] that] .
  ultimately show ?thesis by (auto simp: list_all_iff)
qed

theorem couriers_never_stuck_witness:
  "\<exists>s. shift_reach 2 sample_queue sample_orders s \<and> At_Top \<in> set (couriers s) \<and> (\<exists>t. cstep Progress s t)"
proof -
  let ?s = "init_shift 2 sample_queue sample_orders"
  have "sched_run [Main] ?s = Some (?s\<lparr>couriers := [At_Top], main_thread := Creating 1\<rparr>)"
    by (simp add: sched_step_def init_shift_def)
  then have r: "shift_reach 2 sample_queue sample_orders (?s\<lparr>couriers := [At_Top], main_thread := Creating 1\<rparr>)"
    by (rule sched_run_reach [OF reach_init])
  have "\<exists>t. cstep Progress (?s\<lparr>couriers := [At_Top], main_thread := Creating 1\<rparr>) t"
    using couriers_never_stuck [OF r sample_queue_rep _ sample_sleeps] by simp
  then show ?thesis using r by (intro exI [of _ "?s\<lparr>couriers := [At_Top], main_thread := Creating 1\<rparr>"]) simp
qed

text \<open>(C3) Termination: in every interleaving the threads take at most \<open>(n + 10) * orders + 4 n + 1\<close> steps that do
  some of the work of the shift, and one more for each spurious wake-up. The timed waits of the main thread and the
  arrival of signals do no work.\<close>

theorem couriers_terminate:
  assumes "queue_rep q os" and "shift_run k j (init_shift n q os) t"
  shows "k \<le> (n + 10) * length os + 4 * n + 1 + j"
proof -
  have "k + work t \<le> work (init_shift n q os) + j"
    using shift_run_bound [OF assms(2) shift_inv_init [OF assms(1)]] by blast
  moreover have "work (init_shift n q os) = (n + 10) * length os + 4 * n + 1"
    using queue_rep_unat_size [OF assms(1)] by (simp add: work_def init_shift_def)
  ultimately show ?thesis by linarith
qed

theorem couriers_terminate_witness:
  "\<exists>t. shift_run 1 0 (init_shift 2 sample_queue sample_orders) t \<and> 1 \<le> (2 + 10) * length sample_orders + 4 * 2 + (1::nat)"
proof -
  let ?s = "init_shift 2 sample_queue sample_orders"
  have "cstep Progress ?s (?s\<lparr>couriers := couriers ?s @ [At_Top], main_thread := Creating (Suc 0)\<rparr>)"
    by (rule cstep.create) (simp_all add: init_shift_def)
  then have "shift_run (Suc 0) 0 ?s (?s\<lparr>couriers := couriers ?s @ [At_Top], main_thread := Creating (Suc 0)\<rparr>)"
    by (rule run_work [OF run_refl])
  with couriers_terminate [OF sample_queue_rep this] show ?thesis by auto
qed

end
