(* ===== verification/Courier_Main.thy ===== *)
theory Courier_Main
  imports Courier_Load Courier_Proofs
begin

text \<open>
  The \<open>main\<close> function of the courier simulation (\<open>HW5/main.c\<close>): options, loading, the start of the
  shift, the deadline of the timed wait and the end of the program. The composition of the loader with the
  shift gives what the whole program does with an orders file.
\<close>

section \<open>Options\<close>

record courier_args =
  arg_couriers :: int
  input_path :: "string option"
  stats_path :: "string option"

text \<open>The \<open>getopt\<close> loop; \<open>None\<close> when \<open>main\<close> prints the usage and fails.\<close>

fun courier_opts :: "(char \<times> string) list \<Rightarrow> courier_args \<Rightarrow> courier_args option" where
  "courier_opts [] a = Some a"
| "courier_opts ((opt, optarg) # opts) a =
     (if opt = CHR ''n'' then
        (case Courier_Shift.parse_positive_int optarg of
           None \<Rightarrow> None
         | Some n \<Rightarrow> courier_opts opts (a\<lparr>arg_couriers := n\<rparr>))
      else if opt = CHR ''i'' then courier_opts opts (a\<lparr>input_path := Some optarg\<rparr>)
      else if opt = CHR ''s'' then courier_opts opts (a\<lparr>stats_path := Some optarg\<rparr>)
      else None)"

text \<open>\<open>rest\<close> is the number of arguments behind \<open>optind\<close>.\<close>

definition courier_parse_args :: "(char \<times> string) list \<Rightarrow> nat \<Rightarrow> (nat \<times> string \<times> string) option" where
  "courier_parse_args opts rest =
     (case courier_opts opts \<lparr>arg_couriers = 0, input_path = None, stats_path = None\<rparr> of
        None \<Rightarrow> None
      | Some a \<Rightarrow>
          (case (input_path a, stats_path a) of
             (Some i, Some s) \<Rightarrow> if arg_couriers a < 1 \<or> rest \<noteq> 0 then None else Some (nat (arg_couriers a), i, s)
           | _ \<Rightarrow> None))"

section \<open>Start and end\<close>

text \<open>\<open>print_queued_orders\<close>: the orders along the chain of the queue.\<close>

partial_function (option) walk_orders :: "heap \<Rightarrow> addr \<Rightarrow> Order list \<Rightarrow> Order list option" where
  "walk_orders h p acc =
     (if p = 0 then Some acc
      else (case h p of
          None \<Rightarrow> None
        | Some n \<Rightarrow> walk_orders h (next_node n) (acc @ [node_order n])))"

declare walk_orders.simps [code]

definition print_queued_orders :: "qstate \<Rightarrow> Order list option" where
  "print_queued_orders q = walk_orders (fst q) (queue_head (snd q)) []"

datatype courier_start_result = Exit_Failure | Started "shift"

text \<open>\<open>main\<close> up to the \<open>pthread_create\<close> loop; \<open>memory\<close> says whether the three \<open>calloc\<close> calls succeed. When the
  start fails the queue is cleared. The outer \<open>None\<close> is an access outside the heap.\<close>

definition courier_start ::
  "(heap \<Rightarrow> addr) \<Rightarrow> (string \<Rightarrow> string option) \<Rightarrow> bool \<Rightarrow> nat \<Rightarrow> string \<Rightarrow> (courier_start_result \<times> qstate) option" where
  "courier_start malloc files memory n input =
     (case load_orders_from_file malloc (files input) (queue_init Map.empty) of
        None \<Rightarrow> None
      | Some (rc, q, valid) \<Rightarrow>
          if rc \<noteq> 0 then map_option (Pair Exit_Failure) (queue_clear q)
          else (case print_queued_orders q of
              None \<Rightarrow> None
            | Some queued \<Rightarrow>
                if \<not> memory then map_option (Pair Exit_Failure) (queue_clear q)
                else Some (Started ((init_shift n q queued)\<lparr>valid_order_count := valid\<rparr>), q)))"

text \<open>The deadline of the timed wait of \<open>wait_for_shift_to_finish\<close>, 100 ms after the current time.\<close>

definition wait_deadline :: "int \<times> int \<Rightarrow> int \<times> int" where
  "wait_deadline t =
     (case t of (sec, nsec) \<Rightarrow>
        let nsec' = nsec + 100000000
        in if nsec' \<ge> 1000000000 then (sec + 1, nsec' - 1000000000) else (sec, nsec'))"

text \<open>The end of \<open>main\<close>: the exit code and the queue. \<open>written\<close> says whether the summary was written.\<close>

definition courier_end :: "nat \<Rightarrow> bool \<Rightarrow> shift \<Rightarrow> (int \<times> qstate) option" where
  "courier_end n written s =
     map_option (Pair (if \<not> written \<or> num_couriers s < n then 1 else 0)) (queue_clear (pending_order_queue s))"

section \<open>Facts\<close>

lemma courier_parse_args_pos: "courier_parse_args opts rest = Some (n, i, s) \<Longrightarrow> 0 < n \<and> rest = 0"
  by (auto simp: courier_parse_args_def split: option.splits if_splits)

lemma walk_orders_chain: "chain h p xs \<Longrightarrow> walk_orders h p acc = Some (acc @ map snd xs)"
proof (induction xs arbitrary: p acc)
  case Nil
  then show ?case by (subst walk_orders.simps) simp
next
  case (Cons ax xs)
  obtain a x where ax: "ax = (a, x)" by (cases ax)
  with Cons(2) obtain n where n: "p = a" "a \<noteq> 0" "h a = Some n" "node_order n = x" "chain h (next_node n) xs" by auto
  show ?case using Cons(1) [OF n(5), of "acc @ [x]"] n by (subst walk_orders.simps) (simp add: ax)
qed

lemma print_queued_orders_rep: "queue_rep q os \<Longrightarrow> print_queued_orders q = Some os"
  by (auto simp: queue_rep_def print_queued_orders_def walk_orders_chain)

text \<open>The deadline is a valid \<open>timespec\<close> 100 ms later.\<close>

lemma wait_deadline_valid:
  "0 \<le> nsec \<Longrightarrow> nsec < 1000000000 \<Longrightarrow>
     (case wait_deadline (sec, nsec) of (s, n) \<Rightarrow>
        0 \<le> n \<and> n < 1000000000 \<and> s * 1000000000 + n = sec * 1000000000 + nsec + 100000000)"
  by (auto simp: wait_deadline_def Let_def)

text \<open>What the start gives: a failure that leaves an empty heap, or the initial state of a shift over the valid
  lines of the file in priority order.\<close>

lemma queue_rep_Nil_heap: "queue_rep q [] \<Longrightarrow> fst q = Map.empty"
  by (auto simp: queue_rep_def)

lemma queue_clear_heap: "queue_rep q os \<Longrightarrow> \<exists>q'. queue_clear q = Some q' \<and> fst q' = Map.empty"
  using queue_clear_empties queue_rep_Nil_heap by blast

lemma courier_start_cases:
  assumes "malloc_ok malloc"
  shows "(\<exists>q. courier_start malloc files memory n input = Some (Exit_Failure, q) \<and> fst q = Map.empty) \<or>
     (\<exists>q os body. courier_start malloc files memory n input = Some (Started (init_shift n q os), q) \<and>
        files input = Some body \<and> queue_rep q os \<and> mset os = mset (parsed_orders (fgets_lines 256 body)))"
proof -
  obtain rc q os where load: "load_orders_from_file malloc (files input) (queue_init Map.empty) = Some (rc, q, int (length os))"
    "queue_rep q os" and rc: "case files input of
              None \<Rightarrow> rc = - 1 \<and> os = []
            | Some body \<Rightarrow>
                (rc = 0 \<and> mset os = mset (parsed_orders (fgets_lines 256 body))) \<or>
                (rc = - 1 \<and> mset os \<subset># mset (parsed_orders (fgets_lines 256 body)))"
    using load_orders_from_file_builds_queue [OF assms, of "files input"] by blast
  obtain q' where q': "queue_clear q = Some q'" "fst q' = Map.empty" using queue_clear_heap [OF load(2)] by blast
  have walk: "print_queued_orders q = Some os" by (rule print_queued_orders_rep [OF load(2)])
  have same: "(init_shift n q os)\<lparr>valid_order_count := int (length os)\<rparr> = init_shift n q os" by (simp add: init_shift_def)
  show ?thesis
  proof (cases "rc = 0 \<and> memory")
    case True
    then obtain body where "files input = Some body" "mset os = mset (parsed_orders (fgets_lines 256 body))"
      using rc by (auto split: option.splits)
    then show ?thesis using True load walk same
      by (intro disjI2 exI [of _ q] exI [of _ os] exI [of _ body]) (simp add: courier_start_def)
  next
    case False
    then show ?thesis using load walk q' by (intro disjI1 exI [of _ q']) (auto simp: courier_start_def)
  qed
qed

section \<open>Properties\<close>

text \<open>(C7) The whole program: once it has started on an orders file, a shift that has ended, under every
  interleaving and whether or not SIGINT arrived, has delivered or cancelled every valid line of the file
  exactly once; the counters of the summary agree with it, and when \<open>main\<close> returns every node of the queue has
  been freed. Without SIGINT and with all couriers at work, every order is delivered and none is cancelled.\<close>

theorem orders_file_accounted:
  assumes "malloc_ok malloc" and "files input = Some body"
    and "courier_start malloc files memory n input = Some (Started (init_shift n q os), q)"
    and "shift_reach n q os s" and "main_thread s = Finished"
  shows "mset (parsed_orders (fgets_lines 256 body)) = mset (gather completes (log s)) + mset (gather cancels (log s)) \<and>
     total_completed_orders s + total_cancelled_orders s = int (length (parsed_orders (fgets_lines 256 body))) \<and>
     (\<exists>code q'. courier_end n written s = Some (code, q') \<and> fst q' = Map.empty) \<and>
     (\<not> sigint_flag s \<and> num_couriers s = n \<longrightarrow>
        total_cancelled_orders s = 0 \<and> mset (gather completes (log s)) = mset (parsed_orders (fgets_lines 256 body)))"
proof -
  from courier_start_cases [OF assms(1), of files memory n input] assms(2,3)
  obtain q2 os2 where eq: "init_shift n q os = init_shift n q2 os2" "q = q2"
    and rep: "queue_rep q2 os2" "mset os2 = mset (parsed_orders (fgets_lines 256 body))" by auto
  have "map ORDER_QUEUED os = map ORDER_QUEUED os2" using arg_cong [OF eq(1), of log] by (simp add: init_shift_def)
  then have os: "os = os2" by (rule map_injective) (auto intro: injI)
  have q: "queue_rep q os" using rep(1) eq(2) os by simp
  have all: "mset os = mset (gather completes (log s)) + mset (gather cancels (log s))" by (rule finished_orders [OF assms(4) q assms(5)])
  from shift_reach_inv [OF assms(4) q] obtain ps where inv: "orders_rel os ps s" "counters_inv s" by (auto simp: shift_inv_def)
  have "length os = length (gather completes (log s)) + length (gather cancels (log s))"
    using arg_cong [OF all, of size] by simp
  moreover have "length os = length (parsed_orders (fgets_lines 256 body))" using rep(2) os mset_eq_length by blast
  moreover have "\<exists>code q'. courier_end n written s = Some (code, q') \<and> fst q' = Map.empty"
    using inv(1) queue_clear_heap [of "pending_order_queue s"] by (auto simp: courier_end_def orders_rel_def)
  moreover have "total_cancelled_orders s = 0 \<and> mset (gather completes (log s)) = mset (parsed_orders (fgets_lines 256 body))"
    if "\<not> sigint_flag s \<and> num_couriers s = n"
    using shift_delivers_all [OF assms(4) q assms(5)] that rep(2) os by simp
  ultimately show ?thesis using all rep(2) os inv(2) finished_couriers [OF assms(4) q assms(5)]
    by (simp add: counters_inv_def)
qed

definition demo_files :: "string \<Rightarrow> string option" where
  "demo_files = [''orders.txt'' \<mapsto> demo_file]"

lemma demo_run:
  "case courier_start bump_malloc demo_files True 2 ''orders.txt'' of
     Some (Started s0, q) \<Rightarrow>
       (case sched_run sample_choices s0 of None \<Rightarrow> False | Some s \<Rightarrow> main_thread s = Finished)
   | _ \<Rightarrow> False"
  by code_simp

theorem orders_file_accounted_witness:
  "\<exists>q os s. courier_start bump_malloc demo_files True 2 ''orders.txt'' = Some (Started (init_shift 2 q os), q) \<and>
     shift_reach 2 q os s \<and> main_thread s = Finished \<and>
     mset (parsed_orders (fgets_lines 256 demo_file)) = mset (gather completes (log s)) + mset (gather cancels (log s))"
proof -
  have ok: "malloc_ok bump_malloc" by (simp add: malloc_ok_def bump_malloc_def)
  have f: "demo_files ''orders.txt'' = Some demo_file" by (simp add: demo_files_def)
  from courier_start_cases [OF ok, of demo_files True 2 "''orders.txt''"] demo_run
  obtain q os where st: "courier_start bump_malloc demo_files True 2 ''orders.txt'' = Some (Started (init_shift 2 q os), q)" by auto
  with demo_run obtain s where s: "sched_run sample_choices (init_shift 2 q os) = Some s" "main_thread s = Finished"
    by (auto split: option.splits)
  have reach: "shift_reach 2 q os s" by (rule sched_run_reach [OF reach_init s(1)])
  note acc = orders_file_accounted [OF ok f st reach s(2), THEN conjunct1]
  from st reach s(2) acc show ?thesis by blast
qed

end
