(* ===== verification/Log_Common.thy ===== *)
theory Log_Common
  imports C_Stdlib
begin

text \<open>
  The shared helpers of the log analyser (\<open>HW4/common.c\<close>, \<open>HW4/common.h\<close>): log levels, the log
  line parser, newline trimming and overlapping keyword counting. A level index is an
  \<^typ>\<open>int\<close>, with \<open>-1\<close> for \<open>LEVEL_INVALID\<close> as in the enum.
\<close>

section \<open>Data\<close>

definition LEVEL_ERROR :: int where "LEVEL_ERROR = 0"
definition LEVEL_WARN :: int where "LEVEL_WARN = 1"
definition LEVEL_INFO :: int where "LEVEL_INFO = 2"
definition LEVEL_DEBUG :: int where "LEVEL_DEBUG = 3"
definition LEVEL_INVALID :: int where "LEVEL_INVALID = - 1"

lemmas level_defs = LEVEL_ERROR_def LEVEL_WARN_def LEVEL_INFO_def LEVEL_DEBUG_def LEVEL_INVALID_def

abbreviation MAX_LEVELS :: nat where "MAX_LEVELS \<equiv> 4"

record log_entry_t =
  timestamp :: string
  level :: string
  source :: string
  message :: string
  level_index :: int
  is_eof :: bool
  reader_id :: int

text \<open>An entry after \<open>memset (&entry, 0, sizeof (entry))\<close>.\<close>

definition zero_entry :: log_entry_t where
  "zero_entry = \<lparr>timestamp = [], level = [], source = [], message = [], level_index = 0,
                 is_eof = False, reader_id = 0\<rparr>"

section \<open>Operations\<close>

definition level_name :: "int \<Rightarrow> string" where
  "level_name l =
     (if l = LEVEL_ERROR then ''ERROR'' else if l = LEVEL_WARN then ''WARN''
      else if l = LEVEL_INFO then ''INFO'' else if l = LEVEL_DEBUG then ''DEBUG''
      else ''INVALID'')"

definition level_weight :: "int \<Rightarrow> int" where
  "level_weight l =
     (if l = LEVEL_ERROR then 4 else if l = LEVEL_WARN then 3
      else if l = LEVEL_INFO then 2 else if l = LEVEL_DEBUG then 1 else 0)"

definition parse_level :: "string \<Rightarrow> int" where
  "parse_level level_str =
     (if level_str = ''ERROR'' then LEVEL_ERROR
      else if level_str = ''WARN'' then LEVEL_WARN
      else if level_str = ''INFO'' then LEVEL_INFO
      else if level_str = ''DEBUG'' then LEVEL_DEBUG
      else LEVEL_INVALID)"

definition is_eol :: "char \<Rightarrow> bool" where
  "is_eol c \<longleftrightarrow> c = newline \<or> c = carriage_return"

definition trim_newline :: "string \<Rightarrow> string" where
  "trim_newline s = rev (dropWhile is_eol (rev s))"

definition is_blank :: "char \<Rightarrow> bool" where
  "is_blank c \<longleftrightarrow> c = CHR '' '' \<or> c = tab"

text \<open>A field in brackets at the start of a text: \<open>None\<close> without an opening bracket or when
  \<open>strchr\<close> finds no closing one; otherwise the field and what follows the closing bracket.\<close>

definition bracket_field :: "string \<Rightarrow> (string \<times> string) option" where
  "bracket_field p =
     (case p of
        [] \<Rightarrow> None
      | c # cs \<Rightarrow>
          if c \<noteq> CHR ''['' then None
          else let f = takeWhile (\<lambda>c. c \<noteq> CHR '']'') cs; rest = dropWhile (\<lambda>c. c \<noteq> CHR '']'') cs
               in if rest = [] then None else Some (f, tl rest))"

text \<open>\<open>parse_log_line\<close> on an entry that was cleared: the filled entry when it returns 1.\<close>

definition parse_log_line :: "string \<Rightarrow> log_entry_t option" where
  "parse_log_line line =
     (let p = dropWhile is_blank line in
      if p = [] then None
      else (case bracket_field p of
        None \<Rightarrow> None
      | Some (ts, p1) \<Rightarrow>
          if length ts \<noteq> 19 then None
          else (case bracket_field (dropWhile is_blank p1) of
            None \<Rightarrow> None
          | Some (lv, p2) \<Rightarrow>
              if length lv = 0 \<or> length lv \<ge> 8 then None
              else if parse_level lv = LEVEL_INVALID then None
              else (case bracket_field (dropWhile is_blank p2) of
                None \<Rightarrow> None
              | Some (src, p3) \<Rightarrow>
                  if length src = 0 \<or> length src \<ge> 64 then None
                  else if \<not> list_all isalnum src then None
                  else Some (zero_entry\<lparr>timestamp := ts, level := lv, level_index := parse_level lv,
                             source := src,
                             message := trim_newline (take 8191 (dropWhile is_blank p3)),
                             is_eof := False\<rparr>)))))"

text \<open>The loop of \<open>count_overlapping_keyword\<close> from position \<open>i\<close>.\<close>

function count_from :: "string \<Rightarrow> string \<Rightarrow> nat \<Rightarrow> int \<Rightarrow> int" where
  "count_from haystack needle i n =
     (if i + length needle \<le> length haystack
      then count_from haystack needle (Suc i)
             (if take (length needle) (drop i haystack) = needle then n + 1 else n)
      else n)"
  by pat_completeness auto
termination
  by (relation "measure (\<lambda>(h, n, i, c). Suc (length h) - i)") auto

declare count_from.simps [simp del]

definition count_overlapping_keyword :: "string \<Rightarrow> string \<Rightarrow> int" where
  "count_overlapping_keyword haystack needle =
     (if needle = [] then 0
      else if length needle > length haystack then 0
      else count_from haystack needle 0 0)"

section \<open>Facts\<close>

lemma level_index_range: "0 \<le> l \<and> l < 4 \<longleftrightarrow> l \<in> {LEVEL_ERROR, LEVEL_WARN, LEVEL_INFO, LEVEL_DEBUG}"
  by (auto simp: level_defs)

lemma parse_level_cases: "parse_level s = LEVEL_INVALID \<or> (0 \<le> parse_level s \<and> parse_level s < 4 \<and> s = level_name (parse_level s))"
  by (auto simp: parse_level_def level_name_def level_defs)

lemma parse_level_name: "0 \<le> l \<Longrightarrow> l < 4 \<Longrightarrow> parse_level (level_name l) = l"
  by (auto simp: parse_level_def level_name_def level_defs)

lemma level_weight_nonneg: "0 \<le> level_weight l" and level_weight_le: "level_weight l \<le> 4"
  by (auto simp: level_weight_def)

lemma trim_newline_decomp: "\<exists>e. s = trim_newline s @ e \<and> list_all is_eol e"
proof -
  have "s = trim_newline s @ rev (takeWhile is_eol (rev s))"
    unfolding trim_newline_def by (metis rev_append rev_rev_ident takeWhile_dropWhile_id)
  then show ?thesis by (intro exI [of _ "rev (takeWhile is_eol (rev s))"]) (auto simp: list_all_iff dest: set_takeWhileD)
qed

lemma trim_newline_last: "trim_newline s = [] \<or> \<not> is_eol (last (trim_newline s))"
  by (metis hd_dropWhile last_rev rev_is_Nil_conv trim_newline_def)

lemma length_trim_newline: "length (trim_newline s) \<le> length s"
  by (simp add: trim_newline_def) (metis length_dropWhile_le length_rev)

lemma trim_newline_id: "s = [] \<or> \<not> is_eol (last s) \<Longrightarrow> list_all is_eol e \<Longrightarrow> trim_newline (s @ e) = s"
proof -
  assume s: "s = [] \<or> \<not> is_eol (last s)" and e: "list_all is_eol e"
  have "dropWhile is_eol (rev e @ rev s) = dropWhile is_eol (rev s)"
    using e by (intro dropWhile_all) (simp add: list_all_iff)
  also have "\<dots> = rev s" using s by (cases s rule: rev_cases) auto
  finally show ?thesis by (simp add: trim_newline_def)
qed

lemma bracket_field_bracketed:
  assumes "CHR '']'' \<notin> set f"
  shows "bracket_field (CHR ''['' # f @ CHR '']'' # rest) = Some (f, rest)"
proof -
  have "takeWhile (\<lambda>c. c \<noteq> CHR '']'') (f @ CHR '']'' # rest) = f"
    "dropWhile (\<lambda>c. c \<noteq> CHR '']'') (f @ CHR '']'' # rest) = CHR '']'' # rest"
    using assms by (auto simp: takeWhile_append dropWhile_append)
  then show ?thesis by (simp add: bracket_field_def)
qed

lemma isalnum_not_bracket: "isalnum c \<Longrightarrow> c \<noteq> CHR '']''"
  by (auto simp: c_char_simps)

text \<open>The keyword loop counts the positions of the occurrences.\<close>

definition occurrences :: "string \<Rightarrow> string \<Rightarrow> nat set" where
  "occurrences haystack needle =
     {i. i + length needle \<le> length haystack \<and> take (length needle) (drop i haystack) = needle}"

lemma finite_occurrences [simp]: "finite (occurrences h n)"
  by (rule finite_subset [of _ "{..length h}"]) (auto simp: occurrences_def)

lemma count_from_card:
  "count_from h n i c = c + int (card (occurrences h n \<inter> {i..}))"
proof (induction h n i c rule: count_from.induct)
  case (1 h n i c)
  show ?case
  proof (cases "i + length n \<le> length h")
    case True
    have split: "occurrences h n \<inter> {i..} =
        (if i \<in> occurrences h n then insert i (occurrences h n \<inter> {Suc i..}) else occurrences h n \<inter> {Suc i..})"
      by (auto simp: Suc_le_eq le_less)
    have "i \<in> occurrences h n \<longleftrightarrow> take (length n) (drop i h) = n" using True by (simp add: occurrences_def)
    then show ?thesis using 1 True split by (subst count_from.simps) auto
  next
    case False
    then have "occurrences h n \<inter> {i..} = {}" by (auto simp: occurrences_def)
    then show ?thesis using False by (subst count_from.simps) simp
  qed
qed

lemma count_overlapping_nonneg: "0 \<le> count_overlapping_keyword h n"
  by (simp add: count_overlapping_keyword_def count_from_card)

section \<open>Properties\<close>

text \<open>\<open>count_overlapping_keyword\<close> is the number of positions at which the keyword occurs,
  overlapping occurrences included; the empty keyword counts nothing.\<close>

theorem count_overlapping_keyword_counts:
  "count_overlapping_keyword haystack needle =
     (if needle = [] then 0
      else int (card {i. i + length needle \<le> length haystack \<and> take (length needle) (drop i haystack) = needle}))"
proof -
  have "{i. i + length needle \<le> length haystack \<and> take (length needle) (drop i haystack) = needle} = {}"
    if "length needle > length haystack" using that by auto
  then show ?thesis
    by (auto simp: count_overlapping_keyword_def count_from_card occurrences_def)
qed

text \<open>(C9) Round trip: a line printed in the documented format \<open>[timestamp] [LEVEL] [source] message\<close>
  parses to exactly its fields, whatever line terminator ends it.\<close>

theorem parse_log_line_roundtrip:
  assumes "length ts = 19" and "CHR '']'' \<notin> set ts" and "0 \<le> l" and "l < 4"
    and "0 < length src" and "length src < 64" and "list_all isalnum src"
    and "length msg + length eol \<le> 8191" and "msg = [] \<or> \<not> is_eol (last msg)" and "list_all is_eol eol"
    and "msg = [] \<or> \<not> is_blank (hd msg)"
  shows "parse_log_line (''['' @ ts @ ''] ['' @ level_name l @ ''] ['' @ src @ ''] '' @ msg @ eol) =
     Some \<lparr>timestamp = ts, level = level_name l, source = src, message = msg, level_index = l,
           is_eof = False, reader_id = 0\<rparr>"
proof -
  have lv: "CHR '']'' \<notin> set (level_name l)" "0 < length (level_name l)" "length (level_name l) < 8"
    by (auto simp: level_name_def)
  have sr: "CHR '']'' \<notin> set src" using assms(7) isalnum_not_bracket by (auto simp: list_all_iff)
  have nb: "\<not> is_blank (CHR ''['')" "is_blank (CHR '' '')" by (simp_all add: is_blank_def)
  have m: "dropWhile is_blank (msg @ eol) = msg @ eol"
    using assms(10,11) by (cases msg; cases eol) (auto simp: is_blank_def is_eol_def)
  have t: "trim_newline (take 8191 msg @ take (8191 - length msg) eol) = msg"
    using assms(8) trim_newline_id [OF assms(9,10)] by simp
  have p: "parse_level (level_name l) = l" "l \<noteq> LEVEL_INVALID"
    using parse_level_name [OF assms(3,4)] assms(3) by (auto simp: level_defs)
  show ?thesis
    unfolding parse_log_line_def
    using assms(1,5,6,7) lv p
    by (simp add: Let_def nb bracket_field_bracketed [OF assms(2)] bracket_field_bracketed [OF lv(1)]
        bracket_field_bracketed [OF sr] m t zero_entry_def)
qed

theorem parse_log_line_roundtrip_witness:
  "parse_log_line (''[2026-05-01 10:20:30] [WARN] [db1] disk aaa'' @ [newline]) =
     Some \<lparr>timestamp = ''2026-05-01 10:20:30'', level = ''WARN'', source = ''db1'', message = ''disk aaa'',
           level_index = 1, is_eof = False, reader_id = 0\<rparr>"
  using parse_log_line_roundtrip [of "''2026-05-01 10:20:30''" 1 "''db1''" "''disk aaa''" "[newline]"]
  by (simp add: level_name_def level_defs c_char_simps is_eol_def is_blank_def)

text \<open>(C10) Whatever line it is given, a successful \<open>parse_log_line\<close> fills every field within its
  buffer and with its promised content: a 19-byte timestamp, a level name that matches the
  level index, an alphanumeric source, and a message without trailing newline.\<close>

theorem parse_log_line_wf:
  assumes "parse_log_line line = Some e"
  shows "length (timestamp e) = 19 \<and> 0 \<le> level_index e \<and> level_index e < 4 \<and>
         level e = level_name (level_index e) \<and> 0 < length (source e) \<and> length (source e) < 64 \<and>
         list_all isalnum (source e) \<and> length (message e) < 8192 \<and>
         (message e = [] \<or> \<not> is_eol (last (message e))) \<and> \<not> is_eof e"
proof -
  from assms obtain ts lv src m where e: "e = zero_entry\<lparr>timestamp := ts, level := lv,
      level_index := parse_level lv, source := src, message := trim_newline (take 8191 m), is_eof := False\<rparr>"
    and c: "length ts = 19" "parse_level lv \<noteq> LEVEL_INVALID" "0 < length src" "length src < 64" "list_all isalnum src"
    by (auto simp: parse_log_line_def Let_def split: if_splits option.splits)
  have "length (trim_newline (take 8191 m)) \<le> 8191"
    using length_trim_newline [of "take 8191 m"] by simp
  then show ?thesis using e c parse_level_cases [of lv] trim_newline_last [of "take 8191 m"] by auto
qed

theorem parse_log_line_wf_witness:
  "\<exists>e. parse_log_line '' [2026-05-01 10:20:30] [INFO] [a] x'' = Some e \<and> level e = level_name (level_index e)"
proof -
  have "parse_log_line '' [2026-05-01 10:20:30] [INFO] [a] x'' =
    Some \<lparr>timestamp = ''2026-05-01 10:20:30'', level = ''INFO'', source = ''a'', message = ''x'',
          level_index = 2, is_eof = False, reader_id = 0\<rparr>"
    by code_simp
  from this parse_log_line_wf [OF this] show ?thesis by blast
qed

end
