(* ===== verification/Log_Reader.thy ===== *)
theory Log_Reader
  imports Log_Common
begin

text \<open>
  The reader side of the log analyser (\<open>HW4/reader.c\<close>): how a reader process splits its log file
  into byte ranges, what each reader thread reads of its range, and the heartbeats it sends.
  The file is the string of its bytes; a position is a byte offset, as \<open>ftello\<close> returns it.
\<close>

section \<open>Reading one range\<close>

record reader_thread_arg_t =
  start_offset :: nat
  end_offset :: nat
  is_last_thread :: bool
  thread_index :: nat

text \<open>The bytes from a position up to and including the next newline.\<close>

definition line_at :: "string \<Rightarrow> nat \<Rightarrow> string" where
  "line_at f p =
     (let s = drop p f in
      takeWhile (\<lambda>c. c \<noteq> newline) s @ (if newline \<in> set s then [newline] else []))"

text \<open>The position after the boundary adjustment: unless the byte before the range ends a line,
  the line in progress is skipped. \<open>fgetc\<close> at the end of the file does not move.\<close>

definition reader_seek :: "string \<Rightarrow> nat \<Rightarrow> nat" where
  "reader_seek f start =
     (if start > 0
      then (if start - 1 < length f
            then (if f ! (start - 1) \<noteq> newline then start + length (line_at f start) else start)
            else start - 1)
      else start)"

text \<open>The reading loop from a position: the offset and the text of each line that \<open>getline\<close>
  returns before the loop breaks.\<close>

function read_lines :: "string \<Rightarrow> nat \<Rightarrow> nat \<Rightarrow> bool \<Rightarrow> (nat \<times> string) list" where
  "read_lines f line_start end_off is_last =
     (if \<not> is_last \<and> line_start \<ge> end_off then []
      else if line_start \<ge> length f then []
      else (line_start, line_at f line_start) #
           read_lines f (line_start + length (line_at f line_start)) end_off is_last)"
  by pat_completeness auto
termination
proof (relation "measure (\<lambda>(f, p, e, l). length f - p)")
  fix f :: string and p e :: nat and l :: bool
  assume "\<not> length f \<le> p"
  then obtain c cs where "drop p f = c # cs" by (metis drop_eq_Nil neq_Nil_conv)
  then have "0 < length (line_at f p)" by (auto simp: line_at_def Let_def)
  then show "((f, p + length (line_at f p), e, l), f, p, e, l) \<in> measure (\<lambda>(f, p, e, l). length f - p)"
    using \<open>\<not> length f \<le> p\<close> by (simp del: length_greater_0_conv)
qed simp

declare read_lines.simps [simp del]

definition reader_thread_lines :: "string \<Rightarrow> reader_thread_arg_t \<Rightarrow> (nat \<times> string) list" where
  "reader_thread_lines f ctx =
     read_lines f (reader_seek f (start_offset ctx)) (end_offset ctx) (is_last_thread ctx)"

text \<open>\<open>send_heartbeat\<close>: the text it writes to the watchdog pipe, if any.\<close>

definition send_heartbeat :: "int \<Rightarrow> int \<Rightarrow> int \<Rightarrow> string option" where
  "send_heartbeat fd rid lines =
     (if fd < 0 \<or> lines = 0 \<or> lines mod 50 \<noteq> 0 then None
      else Some (''[R'' @ show_int rid @ ''] '' @ show_int lines @ '' lines processed'' @ [newline]))"

text \<open>The loop body on each line: the entries pushed to the private buffer, the heartbeats
  written, \<open>malformed\<close> and \<open>lines_read\<close>.\<close>

fun reader_thread_loop ::
  "int \<Rightarrow> int \<Rightarrow> string list \<Rightarrow> int \<Rightarrow> int \<Rightarrow> log_entry_t list \<times> string list \<times> int \<times> int" where
  "reader_thread_loop fd rid [] malformed lines_read = ([], [], malformed, lines_read)"
| "reader_thread_loop fd rid (line # ls) malformed lines_read =
     (let (out, malformed') = (case parse_log_line (c_str line) of
             Some entry \<Rightarrow> ([entry\<lparr>reader_id := rid\<rparr>], malformed)
           | None \<Rightarrow> ([], malformed + 1));
          lines' = lines_read + 1;
          beat = (case send_heartbeat fd rid lines' of None \<Rightarrow> [] | Some b \<Rightarrow> [b]);
          (es, bs, m, n) = reader_thread_loop fd rid ls malformed' lines'
      in (out @ es, beat @ bs, m, n))"

definition reader_thread_main ::
  "int \<Rightarrow> int \<Rightarrow> string \<Rightarrow> reader_thread_arg_t \<Rightarrow> log_entry_t list \<times> string list \<times> int \<times> int" where
  "reader_thread_main fd rid f ctx =
     reader_thread_loop fd rid (map snd (reader_thread_lines f ctx)) 0 0"

section \<open>The ranges of a process\<close>

text \<open>The arguments that \<open>run_reader_process\<close> gives its threads, from the file size and the
  number of threads.\<close>

definition chunk_size :: "nat \<Rightarrow> nat \<Rightarrow> nat" where
  "chunk_size file_size reader_threads = (file_size + reader_threads - 1) div reader_threads"

definition thread_arg :: "nat \<Rightarrow> nat \<Rightarrow> nat \<Rightarrow> reader_thread_arg_t" where
  "thread_arg file_size reader_threads i =
     (let chunk = chunk_size file_size reader_threads; e = (i + 1) * chunk in
      \<lparr>start_offset = i * chunk,
       end_offset = (if e > file_size then file_size else e),
       is_last_thread = (i = reader_threads - 1),
       thread_index = i\<rparr>)"

definition thread_args :: "nat \<Rightarrow> nat \<Rightarrow> reader_thread_arg_t list" where
  "thread_args file_size reader_threads = map (thread_arg file_size reader_threads) [0..<reader_threads]"

section \<open>Lines and offsets\<close>

text \<open>The reference: all lines of the file with their offsets.\<close>

abbreviation lines_from :: "string \<Rightarrow> nat \<Rightarrow> (nat \<times> string) list" where
  "lines_from f p \<equiv> read_lines f p 0 True"

lemma line_at_nonempty: "p < length f \<Longrightarrow> 0 < length (line_at f p)"
  by (cases "drop p f") (auto simp: line_at_def Let_def)

lemma line_at_end: "length f \<le> p \<Longrightarrow> line_at f p = []"
  by (simp add: line_at_def)

lemma line_at_prefix: "\<exists>r. drop p f = line_at f p @ r"
proof (cases "newline \<in> set (drop p f)")
  case True
  then have "dropWhile (\<lambda>c. c \<noteq> newline) (drop p f) \<noteq> []" by (auto simp: dropWhile_eq_Nil_conv)
  moreover have "hd (dropWhile (\<lambda>c. c \<noteq> newline) (drop p f)) = newline"
    using hd_dropWhile [OF calculation] by simp
  ultimately obtain r where r: "dropWhile (\<lambda>c. c \<noteq> newline) (drop p f) = newline # r"
    by (cases "dropWhile (\<lambda>c. c \<noteq> newline) (drop p f)") simp_all
  have "drop p f = takeWhile (\<lambda>c. c \<noteq> newline) (drop p f) @ newline # r"
    using takeWhile_dropWhile_id [of "\<lambda>c. c \<noteq> newline" "drop p f"] unfolding r by (rule sym)
  then have "drop p f = line_at f p @ r" using True by (simp add: line_at_def Let_def)
  then show ?thesis ..
next
  case False
  then have "takeWhile (\<lambda>c. c \<noteq> newline) (drop p f) = drop p f" by (auto simp: takeWhile_eq_all_conv)
  then have "drop p f = line_at f p @ []" using False unfolding line_at_def Let_def by (simp only: if_False append_Nil2)
  then show ?thesis ..
qed

lemma line_at_le: "p \<le> length f \<Longrightarrow> p + length (line_at f p) \<le> length f"
proof -
  assume p: "p \<le> length f"
  obtain r where "drop p f = line_at f p @ r" using line_at_prefix by blast
  then have "length f - p = length (line_at f p) + length r" by (metis length_append length_drop)
  with p show ?thesis by linarith
qed

text \<open>The end of a line is the end of the file or comes after a newline; inside there is none.\<close>

lemma line_at_inner:
  assumes "p < length f" and "p \<le> i" and "Suc i < p + length (line_at f p)"
  shows "f ! i \<noteq> newline"
proof -
  let ?t = "takeWhile (\<lambda>c. c \<noteq> newline) (drop p f)"
  have "i - p < length ?t" using assms(2,3) by (auto simp: line_at_def Let_def split: if_splits)
  then have "?t ! (i - p) \<in> set ?t" by (rule nth_mem)
  then have "?t ! (i - p) \<noteq> newline" by (auto dest: set_takeWhileD)
  moreover have "?t ! (i - p) = drop p f ! (i - p)" using \<open>i - p < length ?t\<close> by (rule takeWhile_nth)
  ultimately show ?thesis using assms(1,2) by simp
qed

lemma line_at_last:
  assumes "p < length f"
  shows "p + length (line_at f p) = length f \<or> f ! (p + length (line_at f p) - 1) = newline"
proof -
  obtain r where r: "drop p f = line_at f p @ r" using line_at_prefix by blast
  show ?thesis
  proof (cases "newline \<in> set (drop p f)")
    case True
    then have l: "line_at f p \<noteq> []" "last (line_at f p) = newline" by (auto simp: line_at_def Let_def)
    then have "line_at f p ! (length (line_at f p) - 1) = newline" by (simp add: last_conv_nth)
    moreover have "drop p f ! (length (line_at f p) - 1) = line_at f p ! (length (line_at f p) - 1)"
      using l(1) by (simp add: r nth_append)
    ultimately have "f ! (p + (length (line_at f p) - 1)) = newline" using assms by simp
    then show ?thesis using l(1) by (cases "line_at f p") auto
  next
    case False
    then have "takeWhile (\<lambda>c. c \<noteq> newline) (drop p f) = drop p f" by (auto simp: takeWhile_eq_all_conv)
    then have "line_at f p = drop p f" using False by (simp add: line_at_def Let_def)
    then show ?thesis using assms by simp
  qed
qed

text \<open>A line that starts inside another line ends where that line ends.\<close>

lemma line_at_inside:
  assumes "p \<le> i" and "i < p + length (line_at f p)" and "p < length f"
  shows "i + length (line_at f i) = p + length (line_at f p)"
proof -
  let ?e = "p + length (line_at f p)"
  have "?e \<le> length f" by (rule line_at_le) (use assms(3) in simp)
  then have i: "i < length f" using assms(2) by linarith
  have ile: "i + length (line_at f i) \<le> length f" by (rule line_at_le) (use i in simp)
  show ?thesis
  proof (rule ccontr)
    assume ne: "i + length (line_at f i) \<noteq> ?e"
    show False
    proof (cases "i + length (line_at f i) < ?e")
      case True
      have "f ! (i + length (line_at f i) - 1) \<noteq> newline"
        by (rule line_at_inner [OF assms(3)]) (use assms(1) line_at_nonempty [OF i] True in linarith)+
      then show False using line_at_last [OF i] True \<open>?e \<le> length f\<close> by auto
    next
      case False
      then have lt: "?e < i + length (line_at f i)" using ne by linarith
      have "f ! (?e - 1) \<noteq> newline"
        by (rule line_at_inner [OF i]) (use assms(2) line_at_nonempty [OF assms(3)] lt in linarith)+
      then show False using line_at_last [OF assms(3)] lt ile by auto
    qed
  qed
qed

lemma read_lines_takeWhile:
  "read_lines f p e l = takeWhile (\<lambda>(off, _). l \<or> off < e) (lines_from f p)"
proof (induction f p e l rule: read_lines.induct)
  case (1 f p e l)
  have u: "lines_from f p = (if p \<ge> length f then [] else (p, line_at f p) # lines_from f (p + length (line_at f p)))"
    by (subst read_lines.simps) simp
  show ?case using 1 by (subst read_lines.simps, subst u) (auto simp: not_le)
qed

lemma lines_from_unfold:
  "lines_from f p =
     (if p \<ge> length f then [] else (p, line_at f p) # lines_from f (p + length (line_at f p)))"
  by (subst read_lines.simps) simp

lemma lines_from_induct [case_names step]:
  assumes "\<And>p. (p < length f \<Longrightarrow> P (p + length (line_at f p))) \<Longrightarrow> P p"
  shows "P p"
proof (induction "length f - p" arbitrary: p rule: less_induct)
  case less
  show ?case
  proof (rule assms)
    assume "p < length f"
    then show "P (p + length (line_at f p))"
      using line_at_nonempty [of p f] by (intro less) linarith
  qed
qed

lemma lines_from_offsets: "\<forall>(off, _)\<in>set (lines_from f p). p \<le> off \<and> off < length f"
proof (induction p rule: lines_from_induct [where f = f])
  case (step p)
  show ?case
  proof (cases "p < length f")
    case True
    then have "\<forall>(off, _)\<in>set (lines_from f (p + length (line_at f p))). p \<le> off \<and> off < length f"
      using step by fastforce
    then show ?thesis using True by (subst lines_from_unfold) simp
  qed (simp add: lines_from_unfold [of f p])
qed

lemma lines_from_sorted: "sorted_wrt (\<lambda>x y. fst x < fst y) (lines_from f p)"
proof (induction p rule: lines_from_induct [where f = f])
  case (step p)
  show ?case
  proof (cases "p < length f")
    case True
    then have "\<forall>y\<in>set (lines_from f (p + length (line_at f p))). p < fst y"
      using line_at_nonempty [of p f] lines_from_offsets [of f "p + length (line_at f p)"]
      unfolding split_def by (meson less_add_same_cancel1 order_less_le_trans)
    then show ?thesis using True step by (subst lines_from_unfold) simp
  qed (simp add: lines_from_unfold [of f p])
qed

lemma lines_from_concat: "p \<le> length f \<Longrightarrow> concat (map snd (lines_from f p)) = drop p f"
proof (induction p rule: lines_from_induct [where f = f])
  case (step p)
  show ?case
  proof (cases "p < length f")
    case True
    obtain r where r: "drop p f = line_at f p @ r" using line_at_prefix by blast
    then have "drop (p + length (line_at f p)) f = r" by (metis append_eq_conv_conj drop_drop add.commute)
    then show ?thesis using True step line_at_le [of p f] r by (subst lines_from_unfold) auto
  next
    case False
    then show ?thesis by (subst lines_from_unfold) simp
  qed
qed

section \<open>The ranges partition the file\<close>

text \<open>A boundary between lines.\<close>

definition boundary :: "string \<Rightarrow> nat \<Rightarrow> bool" where
  "boundary f p \<longleftrightarrow> p = 0 \<or> p \<ge> length f \<or> f ! (p - 1) = newline"

lemma reader_seek_lines:
  "boundary f p \<Longrightarrow> p \<le> start \<Longrightarrow>
   lines_from f (reader_seek f start) = dropWhile (\<lambda>(off, _). off < start) (lines_from f p)"
proof (induction p rule: lines_from_induct [where f = f])
  case (step p)
  let ?q = "p + length (line_at f p)"
  consider "length f \<le> p" | "p < length f" "start = p" | "p < length f" "?q \<le> start"
    | "p < length f" "p < start" "start < ?q"
    using step.prems by linarith
  then show ?case
  proof cases
    case 1
    then have "length f \<le> reader_seek f start"
      using step.prems by (auto simp: reader_seek_def)
    then show ?thesis using 1 by (simp add: lines_from_unfold)
  next
    case 2
    then have "reader_seek f start = p"
      using step.prems by (auto simp: reader_seek_def boundary_def)
    then show ?thesis using 2 lines_from_unfold [of f p] by simp
  next
    case 3
    have "boundary f ?q" using line_at_last [OF 3(1)] by (auto simp: boundary_def)
    then have IH: "lines_from f (reader_seek f start) = dropWhile (\<lambda>(off, _). off < start) (lines_from f ?q)"
      using step.IH 3 by blast
    have "p < start" using 3 line_at_nonempty [of p f] by linarith
    then show ?thesis using IH 3(1) lines_from_unfold [of f p] by simp
  next
    case 4
    have qf: "?q \<le> length f" by (rule line_at_le) (use 4 in simp)
    have "f ! (start - 1) \<noteq> newline" by (rule line_at_inner [OF 4(1)]) (use 4 in linarith)+
    then have "reader_seek f start = start + length (line_at f start)"
      using 4 qf by (auto simp: reader_seek_def)
    also have "\<dots> = ?q" by (rule line_at_inside) (use 4 in auto)
    finally have rs: "reader_seek f start = ?q" .
    have "dropWhile (\<lambda>(off, _). off < start) (lines_from f ?q) = lines_from f ?q"
      using lines_from_offsets [of f ?q] 4(3) by (cases "lines_from f ?q") fastforce+
    then show ?thesis using rs 4 lines_from_unfold [of f p] by simp
  qed
qed

lemma dropWhile_sorted_filter:
  "sorted_wrt (\<lambda>x y. fst x < fst y) L \<Longrightarrow> dropWhile (\<lambda>(o', _). o' < (a::nat)) L = filter (\<lambda>(o', _). a \<le> o') L"
proof (induction L)
  case (Cons x L)
  then have "a \<le> fst x \<Longrightarrow> filter (\<lambda>(o', _). a \<le> o') L = L" by (fastforce simp: filter_id_conv)
  then show ?case using Cons by (cases x) auto
qed simp

lemma takeWhile_sorted_filter:
  "sorted_wrt (\<lambda>x y. fst x < fst y) L \<Longrightarrow> takeWhile (\<lambda>(o', _). o' < (b::nat)) L = filter (\<lambda>(o', _). o' < b) L"
proof (induction L)
  case (Cons x L)
  then have "b \<le> fst x \<Longrightarrow> filter (\<lambda>(o', _). o' < b) L = []" by (fastforce simp: filter_empty_conv)
  then show ?case using Cons by (cases x) auto
qed simp

lemma filter_interval_append:
  assumes "sorted_wrt (\<lambda>x y. fst x < fst y) L" and "(a::nat) \<le> b"
  shows "filter (\<lambda>(o', _). o' < a) L @ filter (\<lambda>(o', _). a \<le> o' \<and> o' < b) L = filter (\<lambda>(o', _). o' < b) L"
proof -
  let ?M = "filter (\<lambda>(o', _). o' < b) L"
  have s: "sorted_wrt (\<lambda>x y. fst x < fst y) ?M" using assms(1) by (rule sorted_wrt_filter)
  have "takeWhile (\<lambda>(o', _). o' < a) ?M @ dropWhile (\<lambda>(o', _). o' < a) ?M = ?M" by simp
  moreover have "filter (\<lambda>(o', _). o' < a) ?M = filter (\<lambda>(o', _). o' < a) L"
    using assms(2) by (auto simp: split_def intro: filter_cong)
  moreover have "filter (\<lambda>(o', _). a \<le> o') ?M = filter (\<lambda>(o', _). a \<le> o' \<and> o' < b) L"
    by (auto simp: split_def conj_commute)
  ultimately show ?thesis by (simp add: takeWhile_sorted_filter [OF s] dropWhile_sorted_filter [OF s])
qed

lemma reader_thread_lines_filter:
  "reader_thread_lines f ctx =
     filter (\<lambda>(o', _). start_offset ctx \<le> o' \<and> (is_last_thread ctx \<or> o' < end_offset ctx)) (lines_from f 0)"
proof -
  let ?L = "lines_from f 0"
  have s: "sorted_wrt (\<lambda>x y. fst x < fst y) ?L" by (rule lines_from_sorted)
  let ?F = "filter (\<lambda>(o', _). start_offset ctx \<le> o') ?L"
  have sF: "sorted_wrt (\<lambda>x y. fst x < fst y) ?F" using s by (rule sorted_wrt_filter)
  have b: "boundary f 0" by (simp add: boundary_def)
  have "lines_from f (reader_seek f (start_offset ctx)) = ?F"
    using reader_seek_lines [OF b, of "start_offset ctx"] dropWhile_sorted_filter [OF s] by simp
  then have "reader_thread_lines f ctx = takeWhile (\<lambda>(o', _). is_last_thread ctx \<or> o' < end_offset ctx) ?F"
    unfolding reader_thread_lines_def by (subst read_lines_takeWhile) simp
  also have "\<dots> = filter (\<lambda>(o', _). start_offset ctx \<le> o' \<and> (is_last_thread ctx \<or> o' < end_offset ctx)) ?L"
  proof (cases "is_last_thread ctx")
    case True
    then show ?thesis by (simp add: split_def takeWhile_eq_all_conv)
  next
    case False
    then show ?thesis using takeWhile_sorted_filter [OF sF, of "end_offset ctx"]
      by (simp add: split_def conj_commute)
  qed
  finally show ?thesis .
qed

lemma threads_prefix:
  assumes "k < t"
  shows "concat (map (\<lambda>i. reader_thread_lines f (thread_arg (length f) t i)) [0..<k]) =
         filter (\<lambda>(o', _). o' < k * chunk_size (length f) t) (lines_from f 0)"
  using assms
proof (induction k)
  case (Suc k)
  let ?c = "chunk_size (length f) t" and ?L = "lines_from f 0"
  have "reader_thread_lines f (thread_arg (length f) t k) =
      filter (\<lambda>(o', _). k * ?c \<le> o' \<and> o' < Suc k * ?c) ?L"
    using Suc.prems lines_from_offsets [of f 0]
    by (auto simp: reader_thread_lines_filter thread_arg_def Let_def intro!: filter_cong)
  then show ?case using Suc filter_interval_append [OF lines_from_sorted, of "k * ?c" "Suc k * ?c" f 0] by simp
qed simp

lemma reader_thread_loop_spec:
  "reader_thread_loop fd rid ls m n =
     (es, bs, m', n') \<Longrightarrow>
     es = map (\<lambda>e. e\<lparr>reader_id := rid\<rparr>) (List.map_filter (\<lambda>l. parse_log_line (c_str l)) ls) \<and>
     m' = m + int (length (filter (\<lambda>l. parse_log_line (c_str l) = None) ls)) \<and> n' = n + int (length ls)"
proof (induction fd rid ls m n arbitrary: es bs m' n' rule: reader_thread_loop.induct)
  case (2 fd rid line ls m n)
  then show ?case
    by (cases "parse_log_line (c_str line)") (fastforce simp: map_filter_simps Let_def split: prod.splits)+
qed (simp add: map_filter_simps)

lemma thread_lines_concat:
  assumes "0 < t"
  shows "concat (map (reader_thread_lines f) (thread_args (length f) t)) = lines_from f 0 \<and>
         concat (map snd (lines_from f 0)) = f"
proof -
  let ?c = "chunk_size (length f) t" and ?L = "lines_from f 0"
  obtain k where t: "t = Suc k" using assms by (cases t) auto
  have s: "sorted_wrt (\<lambda>x y. fst x < fst y) ?L" by (rule lines_from_sorted)
  have last: "reader_thread_lines f (thread_arg (length f) t k) = filter (\<lambda>(o', _). k * ?c \<le> o') ?L"
    by (auto simp: reader_thread_lines_filter thread_arg_def Let_def t intro!: filter_cong)
  have "concat (map (reader_thread_lines f) (thread_args (length f) t)) =
      filter (\<lambda>(o', _). o' < k * ?c) ?L @ filter (\<lambda>(o', _). k * ?c \<le> o') ?L"
    using threads_prefix [of k t f] last by (simp add: thread_args_def t comp_def)
  also have "\<dots> = ?L"
    by (metis takeWhile_dropWhile_id takeWhile_sorted_filter [OF s] dropWhile_sorted_filter [OF s])
  finally show ?thesis using lines_from_concat [of 0 f] by simp
qed

section \<open>Properties\<close>

text \<open>(C8) The byte ranges partition the file: for every file and every number of threads, the
  lines that the threads read, taken thread by thread, are exactly the lines of the file, each
  once and in order, and together they are all its bytes. No line is lost or read twice at a
  range boundary.\<close>

theorem reader_threads_partition_file:
  assumes "0 < t"
  shows "concat (map (reader_thread_lines f) (thread_args (length f) t)) = lines_from f 0 \<and>
         concat (map snd (lines_from f 0)) = f"
  using thread_lines_concat [OF assms] .

theorem reader_threads_partition_file_witness:
  "map (reader_thread_lines (''ab'' @ [newline] @ ''cdef''))
       (thread_args (length (''ab'' @ [newline] @ ''cdef'')) 3) =
     [[(0, ''ab'' @ [newline])], [(3, ''cdef'')], []] \<and>
   concat (map (reader_thread_lines (''ab'' @ [newline] @ ''cdef''))
       (thread_args (length (''ab'' @ [newline] @ ''cdef'')) 3)) = lines_from (''ab'' @ [newline] @ ''cdef'') 0"
proof -
  have p: "0 < (3::nat)" by simp
  have "map (reader_thread_lines (''ab'' @ [newline] @ ''cdef''))
       (thread_args (length (''ab'' @ [newline] @ ''cdef'')) 3) =
     [[(0, ''ab'' @ [newline])], [(3, ''cdef'')], []]"
    by code_simp
  then show ?thesis using reader_threads_partition_file [OF p, of "''ab'' @ [newline] @ ''cdef''"] by blast
qed

text \<open>What one reader thread hands to the parser thread: the entries of the well-formed lines
  of its range in order, tagged with the reader's id; \<open>malformed\<close> counts the other lines and
  \<open>lines_read\<close> all of them.\<close>

theorem reader_thread_main_result:
  "\<exists>bs. reader_thread_main fd rid f ctx =
     (map (\<lambda>e. e\<lparr>reader_id := rid\<rparr>) (List.map_filter (\<lambda>l. parse_log_line (c_str l)) (map snd (reader_thread_lines f ctx))),
      bs,
      int (length (filter (\<lambda>l. parse_log_line (c_str l) = None) (map snd (reader_thread_lines f ctx)))),
      int (length (reader_thread_lines f ctx)))"
proof -
  obtain es bs m n where r: "reader_thread_main fd rid f ctx = (es, bs, m, n)"
    by (cases "reader_thread_main fd rid f ctx")
  then show ?thesis using reader_thread_loop_spec [OF r [unfolded reader_thread_main_def]] by auto
qed

end
