(* ===== verification/Log_Ring.thy ===== *)
theory Log_Ring
  imports Log_Common
begin

text \<open>
  The circular buffers of the log analyser (\<open>HW4\<close>): the reader's private buffer
  (\<open>reader.c\<close>), Region A, the four Region B queues and Region D (\<open>common.h\<close>, \<open>shm.c\<close>,
  \<open>dispatcher.c\<close>, \<open>analyzer.c\<close>, \<open>aggregator.c\<close>). Each operation is one critical section
  of its mutex; a thread that would wait on the condition variable is \<open>None\<close> or \<open>Blocked\<close>.
  All four are instances of one bounded FIFO interface.
\<close>

section \<open>The regions\<close>

record 'e ring =
  r_head :: nat
  r_tail :: nat
  r_count :: nat
  r_capacity :: nat
  r_entries :: "'e list"

record private_buffer_t = "log_entry_t ring" +
  producers_done :: bool

record region_a_t = "log_entry_t ring" +
  total_readers :: nat
  eof_count_per_level :: "nat list"

record region_b_level_t = "log_entry_t ring" +
  eof_posted :: bool

record region_d_t = "log_entry_t ring" +
  dispatcher_done :: bool

datatype ('e, 's) pop_result = Blocked | Ended | Got 'e 's

text \<open>The regions as \<open>memset\<close>, \<open>calloc\<close> and \<open>init_shared_regions\<close> leave them.\<close>

definition private_buffer_init :: "nat \<Rightarrow> private_buffer_t" where
  "private_buffer_init capacity =
     \<lparr>r_head = 0, r_tail = 0, r_count = 0, r_capacity = capacity,
      r_entries = replicate capacity zero_entry, producers_done = False\<rparr>"

definition init_region_a :: "nat \<Rightarrow> nat \<Rightarrow> region_a_t" where
  "init_region_a capacity_a num_files =
     \<lparr>r_head = 0, r_tail = 0, r_count = 0, r_capacity = capacity_a,
      r_entries = replicate capacity_a zero_entry,
      total_readers = num_files, eof_count_per_level = replicate MAX_LEVELS 0\<rparr>"

definition init_region_b :: "nat \<Rightarrow> region_b_level_t" where
  "init_region_b capacity_b =
     \<lparr>r_head = 0, r_tail = 0, r_count = 0, r_capacity = capacity_b,
      r_entries = replicate capacity_b zero_entry, eof_posted = False\<rparr>"

definition init_region_d :: "nat \<Rightarrow> region_d_t" where
  "init_region_d capacity_d =
     \<lparr>r_head = 0, r_tail = 0, r_count = 0, r_capacity = capacity_d,
      r_entries = replicate capacity_d zero_entry, dispatcher_done = False\<rparr>"

section \<open>Operations\<close>

text \<open>The assignments shared by every push and every pop.\<close>

definition ring_put :: "'e \<Rightarrow> ('e, 'z) ring_scheme \<Rightarrow> ('e, 'z) ring_scheme" where
  "ring_put e r =
     r\<lparr>r_entries := (r_entries r)[r_tail r := e],
       r_tail := (r_tail r + 1) mod r_capacity r,
       r_count := r_count r + 1\<rparr>"

definition ring_take :: "('e, 'z) ring_scheme \<Rightarrow> 'e \<times> ('e, 'z) ring_scheme" where
  "ring_take r =
     (r_entries r ! r_head r,
      r\<lparr>r_head := (r_head r + 1) mod r_capacity r, r_count := r_count r - 1\<rparr>)"

definition private_buffer_push :: "log_entry_t \<Rightarrow> private_buffer_t \<Rightarrow> private_buffer_t option" where
  "private_buffer_push entry buffer =
     (if r_count buffer = r_capacity buffer then None else Some (ring_put entry buffer))"

definition private_buffer_pop :: "private_buffer_t \<Rightarrow> (log_entry_t, private_buffer_t) pop_result" where
  "private_buffer_pop buffer =
     (if r_count buffer = 0 \<and> \<not> producers_done buffer then Blocked
      else if r_count buffer = 0 \<and> producers_done buffer then Ended
      else (case ring_take buffer of (entry, buffer') \<Rightarrow> Got entry buffer'))"

definition push_region_a :: "log_entry_t \<Rightarrow> region_a_t \<Rightarrow> region_a_t option" where
  "push_region_a entry region_a =
     (if r_count region_a = r_capacity region_a then None
      else let region_a' = ring_put entry region_a in
           Some (if is_eof entry
                 then region_a'\<lparr>eof_count_per_level :=
                        (eof_count_per_level region_a')[nat (level_index entry) :=
                           eof_count_per_level region_a' ! nat (level_index entry) + 1]\<rparr>
                 else region_a'))"

text \<open>\<open>pop_region_a\<close> waits while the region is empty; the timeout of that wait is a step of its
  own in the pipeline.\<close>

definition pop_region_a :: "region_a_t \<Rightarrow> (log_entry_t, region_a_t) pop_result" where
  "pop_region_a region_a =
     (if r_count region_a = 0 then Blocked
      else (case ring_take region_a of (entry, region_a') \<Rightarrow> Got entry region_a'))"

definition push_region_b :: "log_entry_t \<Rightarrow> region_b_level_t \<Rightarrow> region_b_level_t option" where
  "push_region_b entry region_b =
     (if r_count region_b = r_capacity region_b then None else Some (ring_put entry region_b))"

definition pop_level_entry :: "region_b_level_t \<Rightarrow> (log_entry_t, region_b_level_t) pop_result" where
  "pop_level_entry region_b =
     (if r_count region_b = 0 \<and> \<not> eof_posted region_b then Blocked
      else if r_count region_b = 0 \<and> eof_posted region_b then Ended
      else (case ring_take region_b of (entry, region_b') \<Rightarrow> Got entry region_b'))"

definition push_region_d :: "log_entry_t \<Rightarrow> region_d_t \<Rightarrow> region_d_t option" where
  "push_region_d entry region_d =
     (if r_count region_d = r_capacity region_d then None else Some (ring_put entry region_d))"

text \<open>One iteration of the aggregator's loop on Region D; after a timeout it tries again.\<close>

definition pop_region_d :: "region_d_t \<Rightarrow> (log_entry_t, region_d_t) pop_result" where
  "pop_region_d region_d =
     (if r_count region_d = 0 \<and> dispatcher_done region_d then Ended
      else if r_count region_d > 0
           then (case ring_take region_d of (entry, region_d') \<Rightarrow> Got entry region_d')
           else Blocked)"

section \<open>The abstract queue\<close>

definition ring_inv :: "('e, 'z) ring_scheme \<Rightarrow> bool" where
  "ring_inv r \<longleftrightarrow>
     0 < r_capacity r \<and> length (r_entries r) = r_capacity r \<and> r_head r < r_capacity r \<and>
     r_count r \<le> r_capacity r \<and> r_tail r = (r_head r + r_count r) mod r_capacity r"

definition ring_contents :: "('e, 'z) ring_scheme \<Rightarrow> 'e list" where
  "ring_contents r = map (\<lambda>i. r_entries r ! ((r_head r + i) mod r_capacity r)) [0..<r_count r]"

lemma mod_offset_neq:
  assumes "(i::nat) < n" and "n < c"
  shows "(h + i) mod c \<noteq> (h + n) mod c"
proof
  assume "(h + i) mod c = (h + n) mod c"
  then have "c dvd (h + n) - (h + i)" using assms(1) by (metis add_le_cancel_left less_imp_le mod_eq_dvd_iff_nat)
  then have "c dvd n - i" by simp
  then show False using assms by (metis dvd_imp_le less_imp_diff_less not_le zero_less_diff)
qed

lemma ring_contents_length [simp]: "length (ring_contents r) = r_count r"
  by (simp add: ring_contents_def)

lemma ring_tail_bound: "ring_inv r \<Longrightarrow> r_tail r < length (r_entries r)"
  by (simp add: ring_inv_def)

lemma ring_put_inv: "ring_inv r \<Longrightarrow> r_count r < r_capacity r \<Longrightarrow> ring_inv (ring_put e r)"
  by (simp add: ring_inv_def ring_put_def mod_simps)

lemma ring_put_contents:
  assumes "ring_inv r" and "r_count r < r_capacity r"
  shows "ring_contents (ring_put e r) = ring_contents r @ [e]"
proof -
  let ?c = "r_capacity r"
  have t: "r_tail r = (r_head r + r_count r) mod ?c" and l: "r_tail r < length (r_entries r)"
    using assms(1) ring_tail_bound [OF assms(1)] by (simp_all add: ring_inv_def)
  have "(r_entries r)[r_tail r := e] ! ((r_head r + i) mod ?c) = r_entries r ! ((r_head r + i) mod ?c)"
    if "i < r_count r" for i
    using mod_offset_neq [OF that assms(2)] t by (metis nth_list_update_neq)
  then show ?thesis using l t by (simp add: ring_contents_def ring_put_def)
qed

lemma ring_take_inv: "ring_inv r \<Longrightarrow> 0 < r_count r \<Longrightarrow> ring_inv (snd (ring_take r))"
proof -
  assume inv: "ring_inv r" and n: "0 < r_count r"
  then obtain k where "r_count r = Suc k" by (cases "r_count r") auto
  then show ?thesis using inv by (simp add: ring_inv_def ring_take_def mod_simps)
qed

lemma ring_take_contents:
  assumes "ring_inv r" and "0 < r_count r"
  shows "ring_contents r = fst (ring_take r) # ring_contents (snd (ring_take r))"
proof -
  let ?c = "r_capacity r"
  have h: "r_head r mod ?c = r_head r" using assms(1) by (simp add: ring_inv_def)
  have "((r_head r + 1) mod ?c + i) mod ?c = (r_head r + Suc i) mod ?c" for i by (simp add: mod_simps)
  moreover obtain k where "r_count r = Suc k" using assms(2) by (cases "r_count r") auto
  ultimately show ?thesis
    using h by (simp add: ring_contents_def ring_take_def upt_conv_Cons map_Suc_upt [symmetric] del: upt_Suc)
qed

lemma ring_bounds: "ring_inv r \<Longrightarrow> r_count r \<le> r_capacity r" "ring_inv r \<Longrightarrow> 0 < r_capacity r"
  by (simp_all add: ring_inv_def)

lemma ring_fields [simp]:
  "r_capacity (ring_put e r) = r_capacity r" "r_capacity (snd (ring_take r)) = r_capacity r"
  "r_count (ring_put e r) = r_count r + 1" "r_count (snd (ring_take r)) = r_count r - 1"
  by (simp_all add: ring_put_def ring_take_def)

lemma ring_empty_iff: "ring_contents r = [] \<longleftrightarrow> r_count r = 0"
  by (simp add: ring_contents_def)

lemma ring_initial:
  assumes "r_count r = 0" "r_head r = 0" "r_tail r = 0" "0 < r_capacity r" "length (r_entries r) = r_capacity r"
  shows "ring_inv r" "ring_contents r = []"
  using assms by (simp_all add: ring_inv_def ring_contents_def)

section \<open>The interface\<close>

text \<open>Completed operations on a queue, in the order of their critical sections. A schedule with an
  operation that would still be waiting is \<open>None\<close>.\<close>

datatype 'e qop = Push 'e | Pop

fun run_ops :: "('e \<Rightarrow> 's \<Rightarrow> 's option) \<Rightarrow> ('s \<Rightarrow> ('e, 's) pop_result) \<Rightarrow>
    'e qop list \<Rightarrow> 's \<Rightarrow> ('e list \<times> 's) option" where
  "run_ops push pop [] s = Some ([], s)"
| "run_ops push pop (Push e # ops) s =
     (case push e s of None \<Rightarrow> None | Some s' \<Rightarrow> run_ops push pop ops s')"
| "run_ops push pop (Pop # ops) s =
     (case pop s of
        Got e s' \<Rightarrow> map_option (\<lambda>(es, t). (e # es, t)) (run_ops push pop ops s')
      | _ \<Rightarrow> None)"

fun pushed :: "'e qop list \<Rightarrow> 'e list" where
  "pushed [] = []"
| "pushed (Push e # ops) = e # pushed ops"
| "pushed (Pop # ops) = pushed ops"

locale bounded_fifo =
  fixes inv :: "'s \<Rightarrow> bool"
    and contents :: "'s \<Rightarrow> 'e list"
    and cap :: "'s \<Rightarrow> nat"
    and push :: "'e \<Rightarrow> 's \<Rightarrow> 's option"
    and pop :: "'s \<Rightarrow> ('e, 's) pop_result"
  assumes bounded: "inv s \<Longrightarrow> length (contents s) \<le> cap s"
    and push_blocks: "inv s \<Longrightarrow> push e s = None \<longleftrightarrow> length (contents s) = cap s"
    and push_appends: "inv s \<Longrightarrow> push e s = Some t \<Longrightarrow> inv t \<and> contents t = contents s @ [e] \<and> cap t = cap s"
    and pop_fails: "inv s \<Longrightarrow> (\<forall>e t. pop s \<noteq> Got e t) \<longleftrightarrow> contents s = []"
    and pop_takes: "inv s \<Longrightarrow> pop s = Got e t \<Longrightarrow> inv t \<and> contents s = e # contents t \<and> cap t = cap s"
begin

lemma run_fifo:
  "inv s \<Longrightarrow> run_ops push pop ops s = Some (out, t) \<Longrightarrow>
     contents s @ pushed ops = out @ contents t \<and> inv t \<and> cap t = cap s"
proof (induction ops arbitrary: s out)
  case (Cons x ops)
  show ?case
  proof (cases x)
    case (Push e)
    then obtain u where u: "push e s = Some u" "run_ops push pop ops u = Some (out, t)"
      using Cons.prems(2) by (auto split: option.splits)
    then show ?thesis using push_appends [OF Cons.prems(1) u(1)] Cons.IH [of u out] Push by simp
  next
    case Pop
    then obtain e u o' where u: "pop s = Got e u" "run_ops push pop ops u = Some (o', t)" "out = e # o'"
      using Cons.prems(2) by (auto split: pop_result.splits)
    then show ?thesis using pop_takes [OF Cons.prems(1) u(1)] Cons.IH [of u o'] Pop by simp
  qed
qed simp

lemma run_fifo_bounded:
  assumes "inv s" and "contents s = []" and "run_ops push pop ops s = Some (out, t)"
  shows "pushed ops = out @ contents t \<and> length (contents t) \<le> cap s"
  using run_fifo [OF assms(1,3)] bounded [of t] assms(2) by auto

lemma push_pop_alone:
  assumes "inv s" and "contents s = []" and "0 < cap s"
  shows "\<exists>t. run_ops push pop [Push e, Pop] s = Some ([e], t) \<and> contents t = []"
proof -
  obtain u where u: "push e s = Some u" using push_blocks [OF assms(1), of e] assms(2,3) by fastforce
  then have iu: "inv u" "contents u = [e]" using push_appends [OF assms(1) u] assms(2) by auto
  then obtain e' t where t: "pop u = Got e' t" using pop_fails [OF iu(1)] by auto
  then show ?thesis using u iu pop_takes [OF iu(1) t] by auto
qed

end

text \<open>Every ring of the pipeline provides the interface.\<close>

lemma ring_put_fifo:
  assumes "ring_inv r" and "r_count r \<noteq> r_capacity r"
  shows "ring_inv (ring_put e r)" "ring_contents (ring_put e r) = ring_contents r @ [e]"
proof -
  have "r_count r < r_capacity r" using assms ring_bounds(1) [of r] by linarith
  then show "ring_inv (ring_put e r)" "ring_contents (ring_put e r) = ring_contents r @ [e]"
    using assms(1) by (simp_all add: ring_put_inv ring_put_contents)
qed

lemma ring_take_fifo:
  assumes "ring_take r = (e, t)" and "ring_inv r" and "0 < r_count r"
  shows "ring_inv t \<and> ring_contents r = e # ring_contents t \<and> r_capacity t = r_capacity r"
  using ring_take_inv [OF assms(2,3)] ring_take_contents [OF assms(2,3)] ring_fields(2) [of r] assms(1) by simp

interpretation private_fifo: bounded_fifo ring_inv ring_contents r_capacity private_buffer_push private_buffer_pop
  by unfold_locales
    (auto simp: private_buffer_push_def private_buffer_pop_def ring_empty_iff ring_put_fifo ring_bounds
      dest: ring_take_fifo split: if_splits prod.splits)

interpretation region_b_fifo: bounded_fifo ring_inv ring_contents r_capacity push_region_b pop_level_entry
  by unfold_locales
    (auto simp: push_region_b_def pop_level_entry_def ring_empty_iff ring_put_fifo ring_bounds
      dest: ring_take_fifo split: if_splits prod.splits)

interpretation region_d_fifo: bounded_fifo ring_inv ring_contents r_capacity push_region_d pop_region_d
  by unfold_locales
    (auto simp: push_region_d_def pop_region_d_def ring_empty_iff ring_put_fifo ring_bounds
      dest: ring_take_fifo split: if_splits prod.splits)

text \<open>Counting end markers does not touch the ring of Region A.\<close>

lemma region_a_count_ring [simp]:
  "ring_inv (r\<lparr>eof_count_per_level := c\<rparr>) = ring_inv r"
  "ring_contents (r\<lparr>eof_count_per_level := c\<rparr>) = ring_contents r"
  by (simp_all add: ring_inv_def ring_contents_def)

interpretation region_a_fifo: bounded_fifo ring_inv ring_contents r_capacity push_region_a pop_region_a
  by unfold_locales
    (auto simp: push_region_a_def pop_region_a_def ring_empty_iff ring_put_fifo ring_bounds Let_def
      dest: ring_take_fifo split: if_splits prod.splits)

lemma init_rings [simp]:
  "ring_contents (private_buffer_init c) = []" "ring_contents (init_region_a c n) = []"
  "ring_contents (init_region_b c) = []" "ring_contents (init_region_d c) = []"
  "0 < c \<Longrightarrow> ring_inv (private_buffer_init c)" "0 < c \<Longrightarrow> ring_inv (init_region_a c n)"
  "0 < c \<Longrightarrow> ring_inv (init_region_b c)" "0 < c \<Longrightarrow> ring_inv (init_region_d c)"
  "\<not> producers_done (private_buffer_init c)"
  by (simp_all add: ring_contents_def ring_inv_def private_buffer_init_def init_region_a_def init_region_b_def init_region_d_def)

section \<open>Properties\<close>

text \<open>(C16) Every circular buffer of the pipeline is a bounded FIFO queue. For any sequence of completed
  pushes and pops on a buffer that starts empty, what was popped followed by what the buffer still
  holds is exactly what was pushed, in that order, and at most its capacity is waiting.\<close>

theorem rings_are_bounded_fifos:
  assumes "0 < c"
    and "run_ops private_buffer_push private_buffer_pop ops1 (private_buffer_init c) = Some (out1, p)"
    and "run_ops push_region_a pop_region_a ops2 (init_region_a c n) = Some (out2, a)"
    and "run_ops push_region_b pop_level_entry ops3 (init_region_b c) = Some (out3, b)"
    and "run_ops push_region_d pop_region_d ops4 (init_region_d c) = Some (out4, d)"
  shows "pushed ops1 = out1 @ ring_contents p \<and> length (ring_contents p) \<le> c \<and>
         pushed ops2 = out2 @ ring_contents a \<and> length (ring_contents a) \<le> c \<and>
         pushed ops3 = out3 @ ring_contents b \<and> length (ring_contents b) \<le> c \<and>
         pushed ops4 = out4 @ ring_contents d \<and> length (ring_contents d) \<le> c"
  using private_fifo.run_fifo_bounded [OF _ _ assms(2)] region_a_fifo.run_fifo_bounded [OF _ _ assms(3)]
    region_b_fifo.run_fifo_bounded [OF _ _ assms(4)] region_d_fifo.run_fifo_bounded [OF _ _ assms(5)] assms(1)
  by (simp add: private_buffer_init_def init_region_a_def init_region_b_def init_region_d_def ring_initial)

theorem rings_are_bounded_fifos_witness:
  "let x = zero_entry; y = zero_entry\<lparr>message := ''m''\<rparr>; ops = [Push x, Push y, Pop, Push x, Pop] in
   \<exists>p a b d. run_ops private_buffer_push private_buffer_pop ops (private_buffer_init 2) = Some ([x, y], p) \<and>
     run_ops push_region_a pop_region_a ops (init_region_a 2 1) = Some ([x, y], a) \<and>
     run_ops push_region_b pop_level_entry ops (init_region_b 2) = Some ([x, y], b) \<and>
     run_ops push_region_d pop_region_d ops (init_region_d 2) = Some ([x, y], d) \<and>
     ring_contents p = [x] \<and> ring_contents a = [x] \<and> ring_contents b = [x] \<and> ring_contents d = [x]"
proof -
  let ?x = "zero_entry" and ?y = "zero_entry\<lparr>message := ''m''\<rparr>"
  let ?ops = "[Push ?x, Push ?y, Pop, Push ?x, Pop]"
  have f: "map_option fst (run_ops private_buffer_push private_buffer_pop ?ops (private_buffer_init 2)) = Some [?x, ?y]"
    "map_option fst (run_ops push_region_a pop_region_a ?ops (init_region_a 2 1)) = Some [?x, ?y]"
    "map_option fst (run_ops push_region_b pop_level_entry ?ops (init_region_b 2)) = Some [?x, ?y]"
    "map_option fst (run_ops push_region_d pop_region_d ?ops (init_region_d 2)) = Some [?x, ?y]"
    by code_simp+
  then obtain p a b d where r: "run_ops private_buffer_push private_buffer_pop ?ops (private_buffer_init 2) = Some ([?x, ?y], p)"
    "run_ops push_region_a pop_region_a ?ops (init_region_a 2 1) = Some ([?x, ?y], a)"
    "run_ops push_region_b pop_level_entry ?ops (init_region_b 2) = Some ([?x, ?y], b)"
    "run_ops push_region_d pop_region_d ?ops (init_region_d 2) = Some ([?x, ?y], d)"
    by (auto simp: map_option_eq_Some)
  have c: "0 < (2::nat)" by simp
  from rings_are_bounded_fifos [OF c r]
  have "ring_contents p = [?x] \<and> ring_contents a = [?x] \<and> ring_contents b = [?x] \<and> ring_contents d = [?x]" by auto
  with r show ?thesis unfolding Let_def by blast
qed

end
