(* ===== verification/Log_Score.thy ===== *)
theory Log_Score
  imports Log_Common "HOL-Library.Word"
begin

text \<open>
  Scoring and reporting of the log analyser: the per-entry scoring of a worker thread, the source
  table, the top-three computation and the result merge of \<open>HW4/analyzer.c\<close>, the
  high-priority score and the two output files of \<open>HW4/aggregator.c\<close>.

  Every \<open>double\<close> of this code holds an integer, so a \<open>double\<close> is an \<^typ>\<open>int\<close> and each
  operation on it rounds to 53 significant bits; below \<open>2 ^ 53\<close> nothing is rounded.
\<close>

section \<open>Doubles with integer values\<close>

function excess_bits :: "int \<Rightarrow> nat" where
  "excess_bits n = (if n < 9007199254740992 then 0 else Suc (excess_bits (n div 2)))"
  by pat_completeness auto
termination
  by (relation "measure nat") auto

declare excess_bits.simps [simp del]

text \<open>Round to nearest, ties to even.\<close>

definition dbl :: "int \<Rightarrow> int" where
  "dbl x =
     (if \<bar>x\<bar> \<le> 9007199254740992 then x
      else let k = excess_bits \<bar>x\<bar>; q = \<bar>x\<bar> div 2 ^ k; r = \<bar>x\<bar> mod 2 ^ k; h = 2 ^ (k - 1);
               q' = (if r > h \<or> (r = h \<and> odd q) then q + 1 else q)
           in sgn x * (q' * 2 ^ k))"

definition dbl_add :: "int \<Rightarrow> int \<Rightarrow> int" where "dbl_add x y = dbl (x + y)"
definition dbl_mul :: "int \<Rightarrow> int \<Rightarrow> int" where "dbl_mul x y = dbl (x * y)"

lemma dbl_exact: "\<bar>x\<bar> \<le> 9007199254740992 \<Longrightarrow> dbl x = x"
  by (simp add: dbl_def)

section \<open>The worker's state and the source table\<close>

record worker_state =
  scores :: "int list"
  entries_per_worker :: int
  thread_total :: int

type_synonym source_table = "(string \<times> int) list"

abbreviation MAX_SOURCES :: nat where "MAX_SOURCES \<equiv> 256"
abbreviation MAX_KEYWORDS :: nat where "MAX_KEYWORDS \<equiv> 8"
abbreviation MAX_WORKERS :: nat where "MAX_WORKERS \<equiv> 64"

record level_result_t =
  level_label :: string
  total_entries :: int
  total_weighted_score :: int
  per_keyword_score :: "int list"
  per_thread_score :: "int list"
  top_source :: "string list"
  top_source_hits :: "int list"
  ready :: bool

definition init_worker :: "nat \<Rightarrow> worker_state" where
  "init_worker num_keywords = \<lparr>scores = replicate num_keywords 0, entries_per_worker = 0, thread_total = 0\<rparr>"

definition init_result :: "int \<Rightarrow> level_result_t" where
  "init_result l =
     \<lparr>level_label = level_name l, total_entries = 0, total_weighted_score = 0,
      per_keyword_score = replicate MAX_KEYWORDS 0, per_thread_score = replicate MAX_WORKERS 0,
      top_source = [[], [], []], top_source_hits = [0, 0, 0], ready = False\<rparr>"

section \<open>Scoring one entry\<close>

text \<open>The keyword loop: the new scores, \<open>total_for_entry\<close> and \<open>thread_total\<close>.\<close>

fun score_keywords :: "int \<Rightarrow> string \<Rightarrow> string list \<Rightarrow> int list \<Rightarrow> int \<Rightarrow> int \<Rightarrow> int list \<times> int \<times> int" where
  "score_keywords lvl msg (kw # kws) (sc # scs) total_for_entry thr_total =
     (let matches = count_overlapping_keyword msg kw in
      if matches > 0
      then let weighted = dbl_mul (dbl matches) (dbl (level_weight lvl));
               (scs', te, tt) = score_keywords lvl msg kws scs (dbl_add total_for_entry weighted) (dbl_add thr_total weighted)
           in (dbl_add sc weighted # scs', te, tt)
      else let (scs', te, tt) = score_keywords lvl msg kws scs total_for_entry thr_total in (sc # scs', te, tt))"
| "score_keywords lvl msg [] scs total_for_entry thr_total = (scs, total_for_entry, thr_total)"
| "score_keywords lvl msg (kw # kws) [] total_for_entry thr_total = ([], total_for_entry, thr_total)"

text \<open>\<open>update_source_hits\<close>: the search loop, and the new slot when the name is not there and
  the table is not full.\<close>

fun add_hits :: "source_table \<Rightarrow> string \<Rightarrow> int \<Rightarrow> source_table option" where
  "add_hits [] src hits = None"
| "add_hits ((n, h) # t) src hits =
     (if n = src then Some ((n, h + hits) # t) else map_option ((#) (n, h)) (add_hits t src hits))"

definition update_source_hits :: "source_table \<Rightarrow> string \<Rightarrow> int \<Rightarrow> source_table" where
  "update_source_hits t src hits =
     (case add_hits t src hits of
        Some t' \<Rightarrow> t'
      | None \<Rightarrow> if length t < MAX_SOURCES then t @ [(take 63 src, hits)] else t)"

text \<open>The body of the worker's loop on one entry.\<close>

definition worker_entry ::
  "int \<Rightarrow> string list \<Rightarrow> log_entry_t \<Rightarrow> worker_state \<times> source_table \<Rightarrow> worker_state \<times> source_table" where
  "worker_entry lvl keywords entry wt =
     (case wt of (w, t) \<Rightarrow>
        case score_keywords lvl (message entry) keywords (scores w) 0 (thread_total w) of
          (scs, total_for_entry, tt) \<Rightarrow>
            (\<lparr>scores = scs, entries_per_worker = entries_per_worker w + 1, thread_total = tt\<rparr>,
             if total_for_entry > 0 then update_source_hits t (source entry) total_for_entry else t))"

section \<open>Publishing the result\<close>

text \<open>\<open>tls_destructor\<close>: the worker's scores are added to the result of its level.\<close>

fun add_scores :: "int list \<Rightarrow> int list \<Rightarrow> int \<Rightarrow> int list \<times> int" where
  "add_scores (s # ss) (p # ps) tot =
     (let (ps', t) = add_scores ss ps (dbl_add tot s) in (dbl_add p s # ps', t))"
| "add_scores [] ps tot = (ps, tot)"
| "add_scores (s # ss) [] tot = ([], tot)"

definition tls_destructor :: "nat \<Rightarrow> worker_state \<Rightarrow> level_result_t \<Rightarrow> level_result_t" where
  "tls_destructor worker_index w result =
     (case add_scores (scores w) (per_keyword_score result) (total_weighted_score result) of
        (per_kw, tot) \<Rightarrow>
          result\<lparr>per_keyword_score := per_kw, total_weighted_score := tot,
                 per_thread_score := (per_thread_score result)[worker_index := foldl dbl_add 0 (scores w)],
                 total_entries := total_entries result + entries_per_worker w\<rparr>)"

text \<open>\<open>compute_top3\<close>: a source goes before the first of the three with fewer hits, the rest
  moves down and the last falls out.\<close>

fun insert_best :: "string \<times> int \<Rightarrow> (string \<times> int) list \<Rightarrow> (string \<times> int) list" where
  "insert_best x [] = []"
| "insert_best x (b # bs) = (if snd x > snd b then x # butlast (b # bs) else b # insert_best x bs)"

definition best_three :: "source_table \<Rightarrow> (string \<times> int) list" where
  "best_three t = foldl (\<lambda>best x. insert_best x best) (replicate 3 ([], 0)) t"

definition compute_top3 :: "source_table \<Rightarrow> level_result_t \<Rightarrow> level_result_t" where
  "compute_top3 t result =
     result\<lparr>top_source := map fst (best_three t), top_source_hits := map snd (best_three t)\<rparr>"

section \<open>The aggregator\<close>

definition high_priority_hits :: "string list \<Rightarrow> log_entry_t \<Rightarrow> int \<Rightarrow> int" where
  "high_priority_hits keywords entry score =
     foldl (\<lambda>sc kw. dbl_add sc (dbl_mul (dbl (count_overlapping_keyword (message entry) kw))
                                      (dbl (level_weight (level_index entry))))) score keywords"

text \<open>The body of \<open>aggregate_high_priority\<close> on an entry: the score and the number of entries.\<close>

definition aggregate_entry :: "string list \<Rightarrow> log_entry_t \<Rightarrow> int \<times> int \<Rightarrow> int \<times> int" where
  "aggregate_entry keywords entry acc =
     (if level_index entry < 0 \<or> level_index entry \<ge> int MAX_LEVELS then acc
      else (high_priority_hits keywords entry (fst acc), snd acc + 1))"

definition source_is_priority :: "string list \<Rightarrow> string \<Rightarrow> bool" where
  "source_is_priority priority_sources src \<longleftrightarrow> list_ex (\<lambda>p. p = src) priority_sources"

text \<open>\<open>cmp_level_desc\<close> on \<open>(level_index, score)\<close>; \<open>qsort\<close> sorts by it.\<close>

definition cmp_level_desc :: "int \<times> int \<Rightarrow> int \<times> int \<Rightarrow> int" where
  "cmp_level_desc lhs rhs =
     (if snd lhs < snd rhs then 1 else if snd lhs > snd rhs then - 1 else fst lhs - fst rhs)"

section \<open>Output files\<close>

definition pad_right :: "nat \<Rightarrow> string \<Rightarrow> string" where
  "pad_right n s = s @ replicate (n - length s) CHR '' ''"

definition pad_left :: "nat \<Rightarrow> string \<Rightarrow> string" where
  "pad_left n s = replicate (n - length s) CHR '' '' @ s"

text \<open>\<open>%.1f\<close> of a double with an integer value.\<close>

definition show_f1 :: "int \<Rightarrow> string" where
  "show_f1 x = show_int x @ ''.0''"

definition or_dash :: "string \<Rightarrow> string" where
  "or_dash s = (if s = [] then ''-'' else s)"

definition sort_items :: "level_result_t list \<Rightarrow> (int \<times> int) list" where
  "sort_items results =
     qsort_by cmp_level_desc
       (map (\<lambda>i. (int i, total_weighted_score (results ! i))) [0..<MAX_LEVELS])"

definition total_weighted :: "level_result_t list \<Rightarrow> int" where
  "total_weighted results = foldl (\<lambda>t i. dbl_add t (total_weighted_score (results ! i))) 0 [0..<MAX_LEVELS]"

fun comma_list :: "string list \<Rightarrow> string" where
  "comma_list [] = []"
| "comma_list [k] = k"
| "comma_list (k # ks) = k @ '','' @ comma_list ks"

definition level_row :: "nat \<Rightarrow> level_result_t \<Rightarrow> string" where
  "level_row num_keywords r =
     pad_right 7 (level_label r) @ ''  '' @ pad_left 7 (show_int (total_entries r)) @ ''  '' @
     pad_left 14 (show_f1 (total_weighted_score r)) @
     concat (map (\<lambda>k. ''  '' @ show_f1 (per_keyword_score r ! k)) [0..<num_keywords]) @ [newline]"

definition top_row :: "level_result_t \<Rightarrow> string" where
  "top_row r =
     ''  '' @ level_label r @
     concat (map (\<lambda>i. '' '' @ or_dash (top_source r ! i) @ '':'' @ show_int (top_source_hits r ! i)) [0..<3]) @
     [newline]"

definition thread_row :: "nat \<Rightarrow> level_result_t \<Rightarrow> string" where
  "thread_row worker_threads r =
     ''  '' @ level_label r @
     concat (map (\<lambda>k. '' thread_'' @ show_int (int k) @ '':'' @ show_f1 (per_thread_score r ! k)) [0..<worker_threads]) @
     [newline]"

definition write_text_output :: "string list \<Rightarrow> nat \<Rightarrow> nat \<Rightarrow> level_result_t list \<Rightarrow> int \<Rightarrow> string" where
  "write_text_output keywords num_files worker_threads results high_priority =
     ''KEYWORD_LIST: '' @ comma_list keywords @ [newline] @
     ''FILES: '' @ show_int (int num_files) @ [newline] @
     ''TOTAL_WEIGHTED_SCORE: '' @ show_f1 (total_weighted results) @ [newline] @
     ''HIGH_PRIORITY_SCORE: '' @ show_f1 high_priority @ [newline] @
     ''# Levels sorted by total_weighted_score DESC'' @ [newline] @
     pad_right 7 ''LEVEL'' @ ''  '' @ pad_left 7 ''ENTRIES'' @ ''  '' @ pad_left 14 ''WEIGHTED_SCORE'' @
     concat (map (\<lambda>k. ''  '' @ k) keywords) @ [newline] @
     concat (map (\<lambda>(i, _). level_row (length keywords) (results ! nat i)) (sort_items results)) @
     ''# Top-3 sources per level'' @ [newline] @
     concat (map (\<lambda>i. top_row (results ! i)) [0..<MAX_LEVELS]) @
     ''# Per-thread contributions (weighted score)'' @ [newline] @
     concat (map (\<lambda>i. thread_row worker_threads (results ! i)) [0..<MAX_LEVELS])"

record checkpoint_header_t =
  magic :: "32 word"
  version :: "32 word"
  num_levels :: "32 word"
  header_num_keywords :: "32 word"
  header_total_weighted :: int
  high_priority_weighted :: int

text \<open>The contents of the checkpoint: the header and the four results, as written by \<open>fwrite\<close>.\<close>

definition write_binary_output :: "string list \<Rightarrow> level_result_t list \<Rightarrow> int \<Rightarrow> checkpoint_header_t \<times> level_result_t list" where
  "write_binary_output keywords results high_priority =
     (\<lparr>magic = 0xC5E3440B, version = 1, num_levels = 4, header_num_keywords = word_of_nat (length keywords),
       header_total_weighted = total_weighted results, high_priority_weighted = high_priority\<rparr>,
      map (\<lambda>i. results ! i) [0..<MAX_LEVELS])"

section \<open>The top three sources\<close>

text \<open>Insertion behind the sources with at least as many hits, without a limit.\<close>

fun insert_after :: "string \<times> int \<Rightarrow> (string \<times> int) list \<Rightarrow> (string \<times> int) list" where
  "insert_after x [] = [x]"
| "insert_after x (b # bs) = (if snd x > snd b then x # b # bs else b # insert_after x bs)"

abbreviation insert_all :: "(string \<times> int) list \<Rightarrow> source_table \<Rightarrow> (string \<times> int) list" where
  "insert_all L t \<equiv> foldl (\<lambda>l x. insert_after x l) L t"

lemma insert_best_take: "insert_best x ys = take (length ys) (insert_after x ys)"
  by (induction ys) (auto simp: butlast_conv_take)

lemma take_insert_after: "take n (insert_after x (take n L)) = take n (insert_after x L)"
proof (induction n arbitrary: L)
  case (Suc n)
  then show ?case by (cases L) (auto, cases n, auto)
qed simp

lemma foldl_insert_best:
  "3 \<le> length L \<Longrightarrow> foldl (\<lambda>b x. insert_best x b) (take 3 L) t = take 3 (insert_all L t)"
proof (induction t arbitrary: L)
  case (Cons x t)
  have len: "length (insert_after y M) = Suc (length M)" for y M by (induction M) auto
  have "insert_best x (take 3 L) = take 3 (insert_after x L)"
    using Cons.prems take_insert_after [of 3 x L] by (simp add: insert_best_take min_def)
  then show ?case using Cons.IH [of "insert_after x L"] Cons.prems len [of x L] by simp
qed simp

lemma insert_after_pos:
  "list_all (\<lambda>y. 0 < snd y) P \<Longrightarrow> 0 < snd x \<Longrightarrow> snd z = 0 \<Longrightarrow>
     insert_after x (P @ z # Q) = insert_after x P @ z # Q"
  by (induction P) auto

lemma insert_after_nonpos:
  "list_all (\<lambda>y. 0 \<le> snd y) P \<Longrightarrow> snd x \<le> 0 \<Longrightarrow> insert_after x (P @ Q) = P @ insert_after x Q"
  by (induction P) auto

lemma set_insert_after [simp]: "set (insert_after x L) = insert x (set L)"
  by (induction L) auto

lemma insert_all_split:
  "list_all (\<lambda>y. 0 < snd y) P \<Longrightarrow>
     \<exists>R'. insert_all (P @ replicate 3 ([], 0) @ R) t =
          insert_all P (filter (\<lambda>x. 0 < snd x) t) @ replicate 3 ([], 0) @ R'"
proof (induction t arbitrary: P R)
  case (Cons x t)
  show ?case
  proof (cases "0 < snd x")
    case True
    have "insert_after x (P @ replicate 3 ([], 0) @ R) = insert_after x P @ replicate 3 ([], 0) @ R"
      using insert_after_pos [OF Cons.prems True, of "([], 0)"] by (simp add: numeral_3_eq_3)
    then show ?thesis using Cons.IH [of "insert_after x P"] Cons.prems True by (simp add: list_all_iff)
  next
    case False
    have "insert_after x ((P @ replicate 3 ([], 0)) @ R) = (P @ replicate 3 ([], 0)) @ insert_after x R"
      using Cons.prems False by (intro insert_after_nonpos) (auto simp: list_all_iff numeral_3_eq_3)
    then show ?thesis using Cons.IH [OF Cons.prems] False by simp
  qed
qed auto

abbreviation desc :: "(string \<times> int) list \<Rightarrow> bool" where
  "desc L \<equiv> sorted (map (\<lambda>x. - snd x) L)"

lemma insert_after_stable:
  assumes "desc L"
  shows "desc (insert_after x L)" "mset (insert_after x L) = add_mset x (mset L)"
    "filter (\<lambda>y. k = snd y) (insert_after x L) = filter (\<lambda>y. k = snd y) L @ filter (\<lambda>y. k = snd y) [x]"
proof -
  show "desc (insert_after x L)" using assms by (induction L) force+
  show "mset (insert_after x L) = add_mset x (mset L)" by (induction L) auto
  show "filter (\<lambda>y. k = snd y) (insert_after x L) = filter (\<lambda>y. k = snd y) L @ filter (\<lambda>y. k = snd y) [x]"
    using assms
  proof (induction L)
    case (Cons b L)
    have "snd b < snd x \<Longrightarrow> k = snd x \<Longrightarrow> filter (\<lambda>y. k = snd y) (b # L) = []"
      using Cons.prems by (force simp: filter_empty_conv)
    then show ?case using Cons by auto
  qed simp
qed

lemma insert_all_stable:
  "desc L \<Longrightarrow> desc (insert_all L t) \<and> mset (insert_all L t) = mset L + mset t \<and>
     filter (\<lambda>y. k = snd y) (insert_all L t) = filter (\<lambda>y. k = snd y) L @ filter (\<lambda>y. k = snd y) t"
proof (induction t arbitrary: L)
  case (Cons x t)
  then show ?case using insert_after_stable [OF Cons.prems] by simp
qed simp

lemma insert_all_sort: "insert_all [] t = sort_key (\<lambda>x. - snd x) t"
  by (rule sym, rule properties_for_sort_key) (use insert_all_stable [of "[]" t] in auto)

interpretation level_order: comparator cmp_level_desc
  by unfold_locales (auto simp: cmp_level_desc_def split: if_splits)

lemma distinct_level_list: "distinct [0, 1, 2, 3::int]"
  by simp

section \<open>Properties\<close>

text \<open>(C19) The three sources that \<open>compute_top3\<close> reports are the first three of the source table
  sorted by descending hits: sources with equal hits stay in the order in which they entered the
  table, sources without hits never appear, and missing places are empty with 0 hits.\<close>

theorem compute_top3_stable_sort:
  "top_source (compute_top3 t r) = map fst (take 3 (sort_key (\<lambda>x. - snd x) (filter (\<lambda>x. 0 < snd x) t) @ replicate 3 ([], 0))) \<and>
   top_source_hits (compute_top3 t r) = map snd (take 3 (sort_key (\<lambda>x. - snd x) (filter (\<lambda>x. 0 < snd x) t) @ replicate 3 ([], 0)))"
proof -
  obtain R where R: "insert_all ([] @ replicate 3 ([], 0) @ []) t =
      insert_all [] (filter (\<lambda>x. 0 < snd x) t) @ replicate 3 ([], 0) @ R"
    using insert_all_split [of "[]" "[]" t] by auto
  have "best_three t = take 3 (insert_all (replicate 3 ([], 0)) t)"
    using foldl_insert_best [of "replicate 3 ([], 0)" t] by (simp add: best_three_def)
  also have "\<dots> = take 3 (sort_key (\<lambda>x. - snd x) (filter (\<lambda>x. 0 < snd x) t) @ replicate 3 ([], 0))"
    using R by (simp add: insert_all_sort)
  finally show ?thesis by (simp add: compute_top3_def)
qed

text \<open>The rows of the text report: the four levels, each once, in descending order of total
  weighted score, and levels with equal scores in the order of their index.\<close>

theorem report_levels_ordered:
  "mset (map fst (sort_items results)) = {#0, 1, 2, 3#} \<and>
   sorted_wrt (\<lambda>(i, a) (j, b). a > b \<or> (a = b \<and> i < j)) (sort_items results) \<and>
   map snd (sort_items results) = map (\<lambda>i. total_weighted_score (results ! nat i)) (map fst (sort_items results))"
proof -
  let ?xs = "map (\<lambda>i. (int i, total_weighted_score (results ! i))) [0..<MAX_LEVELS]"
  let ?ys = "sort_items results"
  have xs: "?xs = map (\<lambda>i. (i, total_weighted_score (results ! nat i))) [0, 1, 2, 3]"
    by (simp add: upt_rec numeral_2_eq_2 numeral_3_eq_3)
  have m: "mset ?ys = mset ?xs" by (simp add: sort_items_def level_order.mset_qsort_by)
  then have "mset (map fst ?ys) = mset (map fst ?xs)" by (metis mset_map)
  moreover have "mset (map fst ?xs) = {#0, 1, 2, 3#}" unfolding xs by simp
  ultimately have f: "mset (map fst ?ys) = {#0, 1, 2, 3#}" by (rule trans)
  have "distinct (map fst ?ys)" using f by (metis distinct_level_list mset_eq_imp_distinct_iff mset.simps)
  then have d: "sorted_wrt (\<lambda>x y. fst x \<noteq> fst y) ?ys" by (simp add: distinct_map distinct_conv_nth sorted_wrt_iff_nth_less)
  have "sorted_wrt (\<lambda>x y. cmp_level_desc x y \<le> 0) ?ys" by (simp add: sort_items_def level_order.sorted_qsort_by)
  with d have "sorted_wrt (\<lambda>x y. cmp_level_desc x y \<le> 0 \<and> fst x \<noteq> fst y) ?ys"
    by (simp add: sorted_wrt_iff_nth_less)
  then have "sorted_wrt (\<lambda>(i, a) (j, b). a > b \<or> (a = b \<and> i < j)) ?ys"
    by (rule sorted_wrt_mono_rel [rotated]) (auto simp: cmp_level_desc_def split: if_splits)
  moreover have "snd x = total_weighted_score (results ! nat (fst x))" if "x \<in> set ?ys" for x
  proof -
    have "x \<in> set ?xs" using that m by (metis set_mset_mset)
    then show ?thesis unfolding xs by auto
  qed
  ultimately show ?thesis using f by (simp add: comp_def)
qed

end
