(* ===== verification/Log_Options.thy ===== *)
theory Log_Options
  imports Log_Common
begin

text \<open>
  Command line and configuration of the log analyser (\<open>HW4/main.c\<close>): \<open>parse_keywords\<close>,
  \<open>load_file_paths\<close>, \<open>load_sources_simple\<close> and \<open>parse_args\<close>, and the bookkeeping of the child
  processes. The options that \<open>getopt\<close> returns are a list of letters with their arguments, the
  files of the file system a function from paths to contents. \<open>Inl\<close> is an exit with a message.
\<close>

section \<open>Options\<close>

record program_options_t =
  reader_threads :: int
  worker_threads :: int
  capacity_a :: int
  capacity_b :: int
  capacity_d :: int
  timeout_sec :: int
  config_file :: string
  filter_file :: string
  output_file :: string
  binary_file :: string
  keyword_list :: "string list"
  files :: "string list"
  priority_sources :: "string list"

definition zero_options :: program_options_t where
  "zero_options =
     \<lparr>reader_threads = 0, worker_threads = 0, capacity_a = 0, capacity_b = 0, capacity_d = 0,
      timeout_sec = 10, config_file = [], filter_file = [], output_file = [], binary_file = [],
      keyword_list = [], files = [], priority_sources = []\<rparr>"

abbreviation MAX_FILES :: nat where "MAX_FILES \<equiv> 128"
abbreviation MAX_PATH_LEN :: nat where "MAX_PATH_LEN \<equiv> 512"

section \<open>Parsing\<close>

text \<open>The loop over the tokens, with the keywords stored so far.\<close>

fun store_keywords :: "string list \<Rightarrow> string list \<Rightarrow> string + string list" where
  "store_keywords kws [] = Inr kws"
| "store_keywords kws (token # ts) =
     (if length kws \<ge> 8 then Inl ''Too many keywords'' else store_keywords (kws @ [take 63 token]) ts)"

definition parse_keywords :: "program_options_t \<Rightarrow> string \<Rightarrow> string + program_options_t" where
  "parse_keywords opts arg =
     (case store_keywords (keyword_list opts) (strtok (\<lambda>c. c = CHR '','') (take 511 arg)) of
        Inl e \<Rightarrow> Inl e
      | Inr kws \<Rightarrow> if kws = [] then Inl ''At least one keyword required'' else Inr (opts\<lparr>keyword_list := kws\<rparr>))"

text \<open>The loop over the lines of a list file: \<open>width\<close> is the size of a stored entry.\<close>

fun load_lines :: "nat \<Rightarrow> nat \<Rightarrow> string \<Rightarrow> string list \<Rightarrow> string list \<Rightarrow> string + string list" where
  "load_lines max_count width msg out [] = Inr out"
| "load_lines max_count width msg out (buf # ls) =
     (let line = trim_newline (c_str buf) in
      if line = [] then load_lines max_count width msg out ls
      else if length out \<ge> max_count then Inl msg
      else load_lines max_count width msg (out @ [take (width - 1) line]) ls)"

definition load_file_paths :: "(string \<Rightarrow> string option) \<Rightarrow> string \<Rightarrow> nat \<Rightarrow> string + string list" where
  "load_file_paths fs path max_count =
     (case fs path of
        None \<Rightarrow> Inl ''fopen config/filter''
      | Some f \<Rightarrow> load_lines max_count MAX_PATH_LEN ''Too many lines in config/filter'' [] (fgets_lines MAX_PATH_LEN f))"

definition load_sources_simple :: "(string \<Rightarrow> string option) \<Rightarrow> string \<Rightarrow> nat \<Rightarrow> string + string list" where
  "load_sources_simple fs path max_count =
     (case fs path of
        None \<Rightarrow> Inl ''fopen filter''
      | Some f \<Rightarrow> load_lines max_count 64 ''Too many lines in filter'' [] (fgets_lines 128 f))"

text \<open>One option of the \<open>getopt\<close> loop.\<close>

definition parse_opt :: "program_options_t \<Rightarrow> char \<Rightarrow> string \<Rightarrow> string + program_options_t" where
  "parse_opt opts ch optarg =
     (if ch = CHR ''c'' then Inr (opts\<lparr>config_file := take 511 optarg\<rparr>)
      else if ch = CHR ''f'' then Inr (opts\<lparr>filter_file := take 511 optarg\<rparr>)
      else if ch = CHR ''k'' then parse_keywords opts optarg
      else if ch = CHR ''t'' then Inr (opts\<lparr>reader_threads := atoi optarg\<rparr>)
      else if ch = CHR ''w'' then Inr (opts\<lparr>worker_threads := atoi optarg\<rparr>)
      else if ch = CHR ''a'' then Inr (opts\<lparr>capacity_a := atoi optarg\<rparr>)
      else if ch = CHR ''b'' then Inr (opts\<lparr>capacity_b := atoi optarg\<rparr>)
      else if ch = CHR ''d'' then Inr (opts\<lparr>capacity_d := atoi optarg\<rparr>)
      else if ch = CHR ''T'' then Inr (opts\<lparr>timeout_sec := atoi optarg\<rparr>)
      else if ch = CHR ''o'' then Inr (opts\<lparr>output_file := take 511 optarg\<rparr>)
      else if ch = CHR ''O'' then Inr (opts\<lparr>binary_file := take 511 optarg\<rparr>)
      else Inl ''usage'')"

fun parse_opts :: "program_options_t \<Rightarrow> (char \<times> string) list \<Rightarrow> string + program_options_t" where
  "parse_opts opts [] = Inr opts"
| "parse_opts opts ((ch, arg) # os) =
     (case parse_opt opts ch arg of Inl e \<Rightarrow> Inl e | Inr opts' \<Rightarrow> parse_opts opts' os)"

definition options_invalid :: "program_options_t \<Rightarrow> bool" where
  "options_invalid opts \<longleftrightarrow>
     config_file opts = [] \<or> filter_file opts = [] \<or> keyword_list opts = [] \<or>
     reader_threads opts < 1 \<or> worker_threads opts < 1 \<or> worker_threads opts > 64 \<or>
     capacity_a opts < 4 \<or> capacity_b opts < 4 \<or> capacity_d opts < 2 \<or> timeout_sec opts < 1 \<or>
     output_file opts = [] \<or> binary_file opts = []"

definition parse_args :: "(string \<Rightarrow> string option) \<Rightarrow> (char \<times> string) list \<Rightarrow> string + program_options_t" where
  "parse_args fs args =
     (case parse_opts zero_options args of
        Inl e \<Rightarrow> Inl e
      | Inr opts \<Rightarrow>
          if options_invalid opts then Inl ''usage''
          else (case load_file_paths fs (config_file opts) MAX_FILES of
            Inl e \<Rightarrow> Inl e
          | Inr paths \<Rightarrow> (case load_sources_simple fs (filter_file opts) 256 of
              Inl e \<Rightarrow> Inl e
            | Inr srcs \<Rightarrow>
                if paths = [] then Inl ''Config file must list at least one log file''
                else Inr (opts\<lparr>files := paths, priority_sources := srcs\<rparr>))))"

section \<open>Child processes\<close>

text \<open>\<open>mark_child_reaped\<close>: the first slot with the process id becomes 0.\<close>

fun mark_child_reaped :: "int list \<Rightarrow> int \<Rightarrow> int list" where
  "mark_child_reaped [] pid = []"
| "mark_child_reaped (p # ps) pid = (if p = pid then 0 # ps else p # mark_child_reaped ps pid)"

text \<open>The processes that \<open>terminate_children\<close> signals.\<close>

definition signalled_children :: "int list \<Rightarrow> int list" where
  "signalled_children pids = filter (\<lambda>p. p > 0) pids"

section \<open>Properties\<close>

lemma store_keywords_bound:
  "store_keywords kws ts = Inr r \<Longrightarrow> length kws \<le> 8 \<Longrightarrow> list_all (\<lambda>k. length k < 64) kws \<Longrightarrow>
     length r \<le> 8 \<and> list_all (\<lambda>k. length k < 64) r"
  by (induction kws ts rule: store_keywords.induct) (auto split: if_splits)

lemma load_lines_bound:
  "load_lines n w msg out ls = Inr r \<Longrightarrow> length out \<le> n \<Longrightarrow> list_all (\<lambda>l. l \<noteq> [] \<and> length l < w) out \<Longrightarrow> 1 < w \<Longrightarrow>
     length r \<le> n \<and> list_all (\<lambda>l. l \<noteq> [] \<and> length l < w) r"
proof (induction n w msg out ls rule: load_lines.induct)
  case (2 n w msg out buf ls)
  then show ?case by (auto simp: Let_def min_less_iff_disj split: if_splits)
qed auto

definition options_fit :: "program_options_t \<Rightarrow> bool" where
  "options_fit opts \<longleftrightarrow>
     length (keyword_list opts) \<le> 8 \<and> list_all (\<lambda>k. length k < 64) (keyword_list opts) \<and>
     length (config_file opts) < 512 \<and> length (filter_file opts) < 512 \<and>
     length (output_file opts) < 512 \<and> length (binary_file opts) < 512"

lemma parse_opt_fit: "parse_opt opts ch arg = Inr opts' \<Longrightarrow> options_fit opts \<Longrightarrow> options_fit opts'"
  using store_keywords_bound [of "keyword_list opts"]
  by (auto simp: parse_opt_def parse_keywords_def options_fit_def split: if_splits sum.splits)

lemma parse_opts_fit: "parse_opts opts args = Inr opts' \<Longrightarrow> options_fit opts \<Longrightarrow> options_fit opts'"
  by (induction opts args rule: parse_opts.induct) (auto split: sum.splits dest: parse_opt_fit)

text \<open>(C20) Options that the program accepts: 1 to 8 keywords, 1 to 128 log files and at most 256
  priority sources, each of them within the length of its buffer, at least one reader thread, 1 to
  64 worker threads and the minimal capacities of the regions. A worker index and a keyword index are
  therefore inside \<open>per_thread_score\<close> and \<open>per_keyword_score\<close>.\<close>

theorem parse_args_limits:
  assumes "parse_args fs args = Inr opts"
  shows "options_fit opts \<and> \<not> options_invalid opts \<and>
         0 < length (keyword_list opts) \<and> 0 < length (files opts) \<and> length (files opts) \<le> MAX_FILES \<and>
         length (priority_sources opts) \<le> 256 \<and>
         list_all (\<lambda>p. p \<noteq> [] \<and> length p < MAX_PATH_LEN) (files opts) \<and>
         list_all (\<lambda>p. p \<noteq> [] \<and> length p < 64) (priority_sources opts)"
proof -
  obtain o' paths srcs where o': "parse_opts zero_options args = Inr o'" "\<not> options_invalid o'"
    and p: "load_file_paths fs (config_file o') MAX_FILES = Inr paths" "paths \<noteq> []"
    and s: "load_sources_simple fs (filter_file o') 256 = Inr srcs"
    and r: "opts = o'\<lparr>files := paths, priority_sources := srcs\<rparr>"
    using assms by (auto simp: parse_args_def split: sum.splits if_splits)
  have "options_fit o'" using parse_opts_fit [OF o'(1)] by (simp add: zero_options_def options_fit_def)
  moreover have "length paths \<le> 128 \<and> list_all (\<lambda>p. p \<noteq> [] \<and> length p < 512) paths"
    using p(1) load_lines_bound [of 128 512 _ "[]" _ paths] by (auto simp: load_file_paths_def split: option.splits)
  moreover have "length srcs \<le> 256 \<and> list_all (\<lambda>p. p \<noteq> [] \<and> length p < 64) srcs"
    using s load_lines_bound [of 256 64 _ "[]" _ srcs] by (auto simp: load_sources_simple_def split: option.splits)
  ultimately show ?thesis using o'(2) p(2) r by (simp add: options_fit_def options_invalid_def)
qed

definition demo_fs :: "string \<Rightarrow> string option" where
  "demo_fs p = (if p = ''conf'' then Some (''a.log'' @ [newline]) else if p = ''flt'' then Some ''auth'' else None)"

definition demo_args :: "(char \<times> string) list" where
  "demo_args =
     [(CHR ''c'', ''conf''), (CHR ''f'', ''flt''), (CHR ''k'', ''fail,,err''), (CHR ''t'', ''2''),
      (CHR ''w'', ''3''), (CHR ''a'', ''4''), (CHR ''b'', ''4''), (CHR ''d'', ''2''),
      (CHR ''o'', ''out''), (CHR ''O'', ''bin'')]"

theorem parse_args_limits_witness:
  "\<exists>opts. parse_args demo_fs demo_args = Inr opts \<and> keyword_list opts = [''fail'', ''err''] \<and> files opts = [''a.log''] \<and>
     options_fit opts"
proof -
  have e: "parse_args demo_fs demo_args = Inr
     \<lparr>reader_threads = 2, worker_threads = 3, capacity_a = 4, capacity_b = 4, capacity_d = 2,
      timeout_sec = 10, config_file = ''conf'', filter_file = ''flt'', output_file = ''out'', binary_file = ''bin'',
      keyword_list = [''fail'', ''err''], files = [''a.log''], priority_sources = [''auth'']\<rparr>"
    by code_simp
  from parse_args_limits [OF e] e show ?thesis by auto
qed

end
