(* ===== verification/Log_Pipeline.thy ===== *)
theory Log_Pipeline
  imports Log_Reader Log_Ring Log_Score Log_Options
begin

text \<open>
  The processes of the log analyser running together: the reader processes with their reader
  threads and parser thread (\<open>HW4/reader.c\<close>), the dispatcher (\<open>dispatcher.c\<close>), the four analyzers
  with their workers (\<open>analyzer.c\<close>) and the aggregator (\<open>aggregator.c\<close>), over the shared
  regions. One step is one critical section or one stretch of thread-local work of one thread; a
  thread that waits on a condition has no step until the condition holds; the signals that wake it are added in
  \<open>Log_Wait\<close>. A timed wait that expires is a step of its own.
\<close>

section \<open>State\<close>

datatype parser_pc = P_Pop | P_Push log_entry_t | P_Eof nat | P_Done | P_Exited

text \<open>A reader process: what each reader thread has still to push, the private buffer and the
  parser thread. \<open>P_Exited\<close> is a process that ended in \<open>die_errno\<close> before reading.\<close>

record reader_proc =
  todo :: "log_entry_t list list"
  buffer :: private_buffer_t
  parser :: parser_pc

datatype dispatcher_pc =
    D_Pop
  | D_TimedOut
  | D_Eof log_entry_t
  | D_PushB log_entry_t
  | D_PushD log_entry_t
  | D_Finish
  | D_Done

datatype worker_pc = W_Pop | W_Score log_entry_t | W_Barrier | W_Done

record analyzer =
  workers :: "(worker_pc \<times> worker_state) list"
  source_hits :: source_table
  level_result :: level_result_t
  level_ready :: nat

datatype aggregator_pc = G_Drain | G_Score log_entry_t | G_Wait nat | G_Write | G_Done

record pipeline =
  readers :: "reader_proc list"
  region_a :: region_a_t
  dispatcher :: dispatcher_pc
  eof_seen :: "nat list"
  finished_levels :: nat
  region_b :: "region_b_level_t list"
  region_d :: region_d_t
  analyzers :: "analyzer list"
  aggregator :: aggregator_pc
  high_priority :: "int \<times> int"
  report :: "(string \<times> checkpoint_header_t \<times> level_result_t list) option"

section \<open>Readers\<close>

text \<open>The end marker that the parser thread of reader \<open>r\<close> sends for a level.\<close>

definition eof_entry :: "nat \<Rightarrow> nat \<Rightarrow> log_entry_t" where
  "eof_entry r l =
     zero_entry\<lparr>is_eof := True, level_index := int l, level := take 7 (level_name (int l)), reader_id := int r\<rparr>"

definition set_reader :: "nat \<Rightarrow> reader_proc \<Rightarrow> pipeline \<Rightarrow> pipeline" where
  "set_reader r rp s = s\<lparr>readers := (readers s)[r := rp]\<rparr>"

text \<open>A reader thread pushes its next entry into the private buffer.\<close>

definition reader_thread_step :: "nat \<Rightarrow> nat \<Rightarrow> pipeline \<Rightarrow> pipeline option" where
  "reader_thread_step r t s =
     (let rp = readers s ! r in
      case todo rp ! t of
        [] \<Rightarrow> None
      | e # es \<Rightarrow>
          (case private_buffer_push e (buffer rp) of
             None \<Rightarrow> None
           | Some b \<Rightarrow> Some (set_reader r (rp\<lparr>todo := (todo rp)[t := es], buffer := b\<rparr>) s)))"

text \<open>\<open>run_reader_process\<close> sets \<open>producers_done\<close> when it has joined all reader threads.\<close>

definition readers_joined_step :: "nat \<Rightarrow> pipeline \<Rightarrow> pipeline option" where
  "readers_joined_step r s =
     (let rp = readers s ! r in
      if list_all (\<lambda>es. es = []) (todo rp) \<and> \<not> producers_done (buffer rp) \<and> parser rp \<noteq> P_Exited
      then Some (set_reader r (rp\<lparr>buffer := (buffer rp)\<lparr>producers_done := True\<rparr>\<rparr>) s)
      else None)"

definition parser_step :: "nat \<Rightarrow> pipeline \<Rightarrow> pipeline option" where
  "parser_step r s =
     (let rp = readers s ! r in
      case parser rp of
        P_Pop \<Rightarrow>
          (case private_buffer_pop (buffer rp) of
             Blocked \<Rightarrow> None
           | Ended \<Rightarrow> Some (set_reader r (rp\<lparr>parser := P_Eof 0\<rparr>) s)
           | Got e b \<Rightarrow> Some (set_reader r (rp\<lparr>buffer := b, parser := P_Push e\<rparr>) s))
      | P_Push e \<Rightarrow>
          (case push_region_a e (region_a s) of
             None \<Rightarrow> None
           | Some a \<Rightarrow> Some (set_reader r (rp\<lparr>parser := P_Pop\<rparr>) (s\<lparr>region_a := a\<rparr>)))
      | P_Eof l \<Rightarrow>
          (case push_region_a (eof_entry r l) (region_a s) of
             None \<Rightarrow> None
           | Some a \<Rightarrow>
               Some (set_reader r (rp\<lparr>parser := (if Suc l < MAX_LEVELS then P_Eof (Suc l) else P_Done)\<rparr>)
                      (s\<lparr>region_a := a\<rparr>)))
      | P_Done \<Rightarrow> None
      | P_Exited \<Rightarrow> None)"

section \<open>Dispatcher\<close>

text \<open>An end marker: the level is closed when every reader has sent one.\<close>

definition dispatch_eof :: "program_options_t \<Rightarrow> log_entry_t \<Rightarrow> pipeline \<Rightarrow> pipeline" where
  "dispatch_eof opts e s =
     (let l = nat (level_index e);
          s' = s\<lparr>eof_seen := (eof_seen s)[l := eof_seen s ! l + 1], dispatcher := D_Pop\<rparr>
      in if eof_seen s' ! l = length (files opts) \<and> \<not> eof_posted (region_b s ! l)
         then s'\<lparr>region_b := (region_b s)[l := (region_b s ! l)\<lparr>eof_posted := True\<rparr>],
                 finished_levels := finished_levels s + 1\<rparr>
         else s')"

text \<open>The check after a timeout, on the counters that the readers increment.\<close>

definition timeout_all_done :: "region_a_t \<Rightarrow> bool" where
  "timeout_all_done a \<longleftrightarrow> list_all (\<lambda>c. \<not> c < total_readers a) (eof_count_per_level a)"

definition dispatcher_step :: "program_options_t \<Rightarrow> pipeline \<Rightarrow> pipeline option" where
  "dispatcher_step opts s =
     (case dispatcher s of
        D_Pop \<Rightarrow>
          if finished_levels s < MAX_LEVELS
          then (case pop_region_a (region_a s) of
                  Got e a \<Rightarrow> Some (s\<lparr>region_a := a, dispatcher := (if is_eof e then D_Eof e else D_PushB e)\<rparr>)
                | _ \<Rightarrow> None)
          else Some (s\<lparr>dispatcher := D_Finish\<rparr>)
      | D_TimedOut \<Rightarrow>
          Some (s\<lparr>dispatcher := (if timeout_all_done (region_a s) then D_Finish else D_Pop)\<rparr>)
      | D_Eof e \<Rightarrow> Some (dispatch_eof opts e s)
      | D_PushB e \<Rightarrow>
          (let l = nat (level_index e) in
           case push_region_b e (region_b s ! l) of
             None \<Rightarrow> None
           | Some b \<Rightarrow>
               Some (s\<lparr>region_b := (region_b s)[l := b],
                      dispatcher := (if source_is_priority (priority_sources opts) (source e)
                                     then D_PushD e else D_Pop)\<rparr>))
      | D_PushD e \<Rightarrow>
          (case push_region_d e (region_d s) of
             None \<Rightarrow> None
           | Some d \<Rightarrow> Some (s\<lparr>region_d := d, dispatcher := D_Pop\<rparr>))
      | D_Finish \<Rightarrow>
          Some (s\<lparr>region_d := (region_d s)\<lparr>dispatcher_done := True\<rparr>, dispatcher := D_Done\<rparr>)
      | D_Done \<Rightarrow> None)"

text \<open>The timed wait of \<open>pop_region_a\<close> expires while the region is empty.\<close>

definition timeout_step :: "pipeline \<Rightarrow> pipeline option" where
  "timeout_step s =
     (if dispatcher s = D_Pop \<and> finished_levels s < MAX_LEVELS \<and> r_count (region_a s) = 0
      then Some (s\<lparr>dispatcher := D_TimedOut\<rparr>) else None)"

section \<open>Analyzers\<close>

definition set_analyzer :: "nat \<Rightarrow> analyzer \<Rightarrow> pipeline \<Rightarrow> pipeline" where
  "set_analyzer l an s = s\<lparr>analyzers := (analyzers s)[l := an]\<rparr>"

definition at_barrier :: "worker_pc \<Rightarrow> bool" where
  "at_barrier pc \<longleftrightarrow> pc = W_Barrier \<or> pc = W_Done"

definition worker_step :: "program_options_t \<Rightarrow> nat \<Rightarrow> nat \<Rightarrow> pipeline \<Rightarrow> pipeline option" where
  "worker_step opts l w s =
     (let an = analyzers s ! l; ws = snd (workers an ! w) in
      case fst (workers an ! w) of
        W_Pop \<Rightarrow>
          (case pop_level_entry (region_b s ! l) of
             Blocked \<Rightarrow> None
           | Ended \<Rightarrow> Some (set_analyzer l (an\<lparr>workers := (workers an)[w := (W_Barrier, ws)]\<rparr>) s)
           | Got e b \<Rightarrow>
               Some (set_analyzer l (an\<lparr>workers := (workers an)[w := (W_Score e, ws)]\<rparr>)
                      (s\<lparr>region_b := (region_b s)[l := b]\<rparr>)))
      | W_Score e \<Rightarrow>
          (case worker_entry (int l) (keyword_list opts) e (ws, source_hits an) of
             (ws', t) \<Rightarrow>
               Some (set_analyzer l (an\<lparr>workers := (workers an)[w := (W_Pop, ws')], source_hits := t\<rparr>) s))
      | W_Barrier \<Rightarrow>
          if list_all (\<lambda>x. at_barrier (fst x)) (workers an)
          then Some (set_analyzer l (an\<lparr>workers := (workers an)[w := (W_Done, ws)],
                       level_result := tls_destructor w ws (level_result an)\<rparr>) s)
          else None
      | W_Done \<Rightarrow> None)"

text \<open>\<open>run_analyzer_process\<close> after it has joined its workers.\<close>

definition analyzer_step :: "nat \<Rightarrow> pipeline \<Rightarrow> pipeline option" where
  "analyzer_step l s =
     (let an = analyzers s ! l in
      if list_all (\<lambda>x. fst x = W_Done) (workers an) \<and> \<not> ready (level_result an)
      then Some (set_analyzer l (an\<lparr>level_result := (compute_top3 (source_hits an) (level_result an))\<lparr>ready := True\<rparr>,
                                   level_ready := level_ready an + 1\<rparr>) s)
      else None)"

section \<open>Aggregator\<close>

definition aggregator_step :: "program_options_t \<Rightarrow> pipeline \<Rightarrow> pipeline option" where
  "aggregator_step opts s =
     (case aggregator s of
        G_Drain \<Rightarrow>
          (case pop_region_d (region_d s) of
             Blocked \<Rightarrow> None
           | Ended \<Rightarrow> Some (s\<lparr>aggregator := G_Wait 0\<rparr>)
           | Got e d \<Rightarrow> Some (s\<lparr>region_d := d, aggregator := G_Score e\<rparr>))
      | G_Score e \<Rightarrow>
          Some (s\<lparr>high_priority := aggregate_entry (keyword_list opts) e (high_priority s), aggregator := G_Drain\<rparr>)
      | G_Wait l \<Rightarrow>
          (let an = analyzers s ! l in
           if ready (level_result an) \<and> level_ready an > 0
           then Some ((set_analyzer l (an\<lparr>level_ready := level_ready an - 1\<rparr>) s)
                        \<lparr>aggregator := (if Suc l < MAX_LEVELS then G_Wait (Suc l) else G_Write)\<rparr>)
           else None)
      | G_Write \<Rightarrow>
          (let results = map level_result (analyzers s) in
           Some (s\<lparr>report := Some (write_text_output (keyword_list opts) (length (files opts))
                               (nat (worker_threads opts)) results (fst (high_priority s)),
                             write_binary_output (keyword_list opts) results (fst (high_priority s))),
                   aggregator := G_Done\<rparr>))
      | G_Done \<Rightarrow> None)"

section \<open>The system\<close>

datatype actor =
    Reader_Thread nat nat
  | Readers_Joined nat
  | Parser nat
  | Dispatcher
  | Timeout
  | Worker nat nat
  | Analyzer nat
  | Aggregator

definition pstep :: "program_options_t \<Rightarrow> actor \<Rightarrow> pipeline \<Rightarrow> pipeline option" where
  "pstep opts a s =
     (case a of
        Reader_Thread r t \<Rightarrow>
          if r < length (readers s) \<and> t < length (todo (readers s ! r)) then reader_thread_step r t s else None
      | Readers_Joined r \<Rightarrow> if r < length (readers s) then readers_joined_step r s else None
      | Parser r \<Rightarrow> if r < length (readers s) then parser_step r s else None
      | Dispatcher \<Rightarrow> dispatcher_step opts s
      | Timeout \<Rightarrow> timeout_step s
      | Worker l w \<Rightarrow>
          if l < length (analyzers s) \<and> w < length (workers (analyzers s ! l)) then worker_step opts l w s else None
      | Analyzer l \<Rightarrow> if l < length (analyzers s) then analyzer_step l s else None
      | Aggregator \<Rightarrow> aggregator_step opts s)"

text \<open>The processes after the forks. \<open>contents\<close> has the log files in the order of the options,
  \<open>None\<close> for one that cannot be opened; \<open>fd\<close> are the heartbeat pipes.\<close>

definition init_reader :: "program_options_t \<Rightarrow> (nat \<Rightarrow> int) \<Rightarrow> nat \<Rightarrow> string option \<Rightarrow> reader_proc" where
  "init_reader opts fd r content =
     (case content of
        None \<Rightarrow> \<lparr>todo = [], buffer = private_buffer_init (nat (capacity_b opts)), parser = P_Exited\<rparr>
      | Some f \<Rightarrow>
          \<lparr>todo = map (\<lambda>ctx. fst (reader_thread_main (fd r) (int r) f ctx))
                    (thread_args (length f) (nat (reader_threads opts))),
           buffer = private_buffer_init (nat (capacity_b opts)), parser = P_Pop\<rparr>)"

definition init_analyzer :: "program_options_t \<Rightarrow> nat \<Rightarrow> analyzer" where
  "init_analyzer opts l =
     \<lparr>workers = replicate (nat (worker_threads opts)) (W_Pop, init_worker (length (keyword_list opts))),
      source_hits = [], level_result = init_result (int l), level_ready = 0\<rparr>"

definition init_pipeline :: "program_options_t \<Rightarrow> (nat \<Rightarrow> int) \<Rightarrow> string option list \<Rightarrow> pipeline" where
  "init_pipeline opts fd contents =
     \<lparr>readers = map (\<lambda>r. init_reader opts fd r (contents ! r)) [0..<length contents],
      region_a = init_region_a (nat (capacity_a opts)) (length (files opts)),
      dispatcher = D_Pop, eof_seen = replicate MAX_LEVELS 0, finished_levels = 0,
      region_b = replicate MAX_LEVELS (init_region_b (nat (capacity_b opts))),
      region_d = init_region_d (nat (capacity_d opts)),
      analyzers = map (init_analyzer opts) [0..<MAX_LEVELS],
      aggregator = G_Drain, high_priority = (0, 0), report = None\<rparr>"

inductive preach :: "program_options_t \<Rightarrow> pipeline \<Rightarrow> pipeline \<Rightarrow> bool" for opts s0 where
  start: "preach opts s0 s0"
| step: "preach opts s0 s \<Longrightarrow> pstep opts a s = Some s' \<Longrightarrow> preach opts s0 s'"

fun prun :: "program_options_t \<Rightarrow> actor list \<Rightarrow> pipeline \<Rightarrow> pipeline option" where
  "prun opts [] s = Some s"
| "prun opts (a # as) s = (case pstep opts a s of None \<Rightarrow> None | Some s' \<Rightarrow> prun opts as s')"

lemma prun_preach: "prun opts as s = Some s' \<Longrightarrow> preach opts s0 s \<Longrightarrow> preach opts s0 s'"
  by (induction opts as s rule: prun.induct) (auto split: option.splits intro: preach.step)

end
