(* ===== verification/Log_Flow.thy ===== *)
theory Log_Flow
  imports Log_Pipeline
begin

text \<open>
  The moves of the log pipeline seen through the contents of its queues, and the invariant that
  the rest rests on: every ring is well formed, every entry in flight is in range, and end markers
  stay behind the entries of their reader.
\<close>

section \<open>Entries in flight\<close>

fun parser_hand :: "parser_pc \<Rightarrow> log_entry_t list" where
  "parser_hand (P_Push e) = [e]"
| "parser_hand _ = []"

definition reader_pending :: "reader_proc \<Rightarrow> log_entry_t list" where
  "reader_pending rp = concat (todo rp) @ ring_contents (buffer rp) @ parser_hand (parser rp)"

fun eofs_pushed :: "parser_pc \<Rightarrow> nat" where
  "eofs_pushed (P_Eof l) = l"
| "eofs_pushed P_Done = 4"
| "eofs_pushed _ = 0"

fun reader_ended :: "parser_pc \<Rightarrow> bool" where
  "reader_ended (P_Eof l) = True"
| "reader_ended P_Done = True"
| "reader_ended _ = False"

fun route_hand :: "dispatcher_pc \<Rightarrow> log_entry_t list" where
  "route_hand (D_PushB e) = [e]"
| "route_hand _ = []"

fun eof_hand :: "dispatcher_pc \<Rightarrow> log_entry_t list" where
  "eof_hand (D_Eof e) = [e]"
| "eof_hand _ = []"

fun priority_hand :: "dispatcher_pc \<Rightarrow> log_entry_t list" where
  "priority_hand (D_PushD e) = [e]"
| "priority_hand _ = []"

fun worker_hand :: "worker_pc \<times> worker_state \<Rightarrow> log_entry_t list" where
  "worker_hand (W_Score e, _) = [e]"
| "worker_hand _ = []"

definition plain_entry :: "nat \<Rightarrow> log_entry_t \<Rightarrow> bool" where
  "plain_entry r e \<longleftrightarrow> \<not> is_eof e \<and> reader_id e = int r \<and> 0 \<le> level_index e \<and> level_index e < 4"

definition entry_ok :: "nat \<Rightarrow> log_entry_t \<Rightarrow> bool" where
  "entry_ok R e \<longleftrightarrow> 0 \<le> reader_id e \<and> reader_id e < int R \<and> 0 \<le> level_index e \<and> level_index e < 4"

text \<open>The counters that \<open>push_region_a\<close> keeps of the end markers.\<close>

definition eof_counted :: "log_entry_t \<Rightarrow> region_a_t \<Rightarrow> region_a_t \<Rightarrow> bool" where
  "eof_counted e a a' \<longleftrightarrow>
     total_readers a' = total_readers a \<and>
     eof_count_per_level a' =
       (if is_eof e then (eof_count_per_level a)[nat (level_index e) := eof_count_per_level a ! nat (level_index e) + 1]
        else eof_count_per_level a)"

section \<open>Moves\<close>

inductive pmove :: "program_options_t \<Rightarrow> pipeline \<Rightarrow> pipeline \<Rightarrow> bool" for opts s where
  thread_push:
    "r < length (readers s) \<Longrightarrow> rp = readers s ! r \<Longrightarrow> t < length (todo rp) \<Longrightarrow> todo rp ! t = e # es \<Longrightarrow>
     ring_inv b \<Longrightarrow> ring_contents b = ring_contents (buffer rp) @ [e] \<Longrightarrow>
     producers_done b = producers_done (buffer rp) \<Longrightarrow>
     pmove opts s (set_reader r (rp\<lparr>todo := (todo rp)[t := es], buffer := b\<rparr>) s)"
| joined:
    "r < length (readers s) \<Longrightarrow> rp = readers s ! r \<Longrightarrow> list_all (\<lambda>es. es = []) (todo rp) \<Longrightarrow> parser rp \<noteq> P_Exited \<Longrightarrow>
     pmove opts s (set_reader r (rp\<lparr>buffer := (buffer rp)\<lparr>producers_done := True\<rparr>\<rparr>) s)"
| parser_end:
    "r < length (readers s) \<Longrightarrow> rp = readers s ! r \<Longrightarrow> parser rp = P_Pop \<Longrightarrow> ring_contents (buffer rp) = [] \<Longrightarrow>
     producers_done (buffer rp) \<Longrightarrow> pmove opts s (set_reader r (rp\<lparr>parser := P_Eof 0\<rparr>) s)"
| parser_pop:
    "r < length (readers s) \<Longrightarrow> rp = readers s ! r \<Longrightarrow> parser rp = P_Pop \<Longrightarrow>
     ring_inv b \<Longrightarrow> ring_contents (buffer rp) = e # ring_contents b \<Longrightarrow>
     producers_done b = producers_done (buffer rp) \<Longrightarrow>
     pmove opts s (set_reader r (rp\<lparr>buffer := b, parser := P_Push e\<rparr>) s)"
| parser_push:
    "r < length (readers s) \<Longrightarrow> rp = readers s ! r \<Longrightarrow> parser rp = P_Push e \<Longrightarrow>
     ring_inv a \<Longrightarrow> ring_contents a = ring_contents (region_a s) @ [e] \<Longrightarrow> eof_counted e (region_a s) a \<Longrightarrow>
     pmove opts s (set_reader r (rp\<lparr>parser := P_Pop\<rparr>) (s\<lparr>region_a := a\<rparr>))"
| parser_eof:
    "r < length (readers s) \<Longrightarrow> rp = readers s ! r \<Longrightarrow> parser rp = P_Eof l \<Longrightarrow>
     ring_inv a \<Longrightarrow> ring_contents a = ring_contents (region_a s) @ [eof_entry r l] \<Longrightarrow>
     eof_counted (eof_entry r l) (region_a s) a \<Longrightarrow>
     pmove opts s (set_reader r (rp\<lparr>parser := (if Suc l < 4 then P_Eof (Suc l) else P_Done)\<rparr>) (s\<lparr>region_a := a\<rparr>))"
| disp_pop:
    "dispatcher s = D_Pop \<Longrightarrow> finished_levels s < 4 \<Longrightarrow> ring_inv a \<Longrightarrow> ring_contents (region_a s) = e # ring_contents a \<Longrightarrow>
     total_readers a = total_readers (region_a s) \<Longrightarrow> eof_count_per_level a = eof_count_per_level (region_a s) \<Longrightarrow>
     pmove opts s (s\<lparr>region_a := a, dispatcher := (if is_eof e then D_Eof e else D_PushB e)\<rparr>)"
| disp_exit:
    "dispatcher s = D_Pop \<Longrightarrow> \<not> finished_levels s < 4 \<Longrightarrow> pmove opts s (s\<lparr>dispatcher := D_Finish\<rparr>)"
| disp_check:
    "dispatcher s = D_TimedOut \<Longrightarrow>
     pmove opts s (s\<lparr>dispatcher := (if timeout_all_done (region_a s) then D_Finish else D_Pop)\<rparr>)"
| disp_eof: "dispatcher s = D_Eof e \<Longrightarrow> pmove opts s (dispatch_eof opts e s)"
| disp_push_b:
    "dispatcher s = D_PushB e \<Longrightarrow> l = nat (level_index e) \<Longrightarrow> ring_inv b \<Longrightarrow>
     ring_contents b = ring_contents (region_b s ! l) @ [e] \<Longrightarrow> eof_posted b = eof_posted (region_b s ! l) \<Longrightarrow>
     pmove opts s (s\<lparr>region_b := (region_b s)[l := b],
       dispatcher := (if source_is_priority (priority_sources opts) (source e) then D_PushD e else D_Pop)\<rparr>)"
| disp_push_d:
    "dispatcher s = D_PushD e \<Longrightarrow> ring_inv d \<Longrightarrow> ring_contents d = ring_contents (region_d s) @ [e] \<Longrightarrow>
     dispatcher_done d = dispatcher_done (region_d s) \<Longrightarrow> pmove opts s (s\<lparr>region_d := d, dispatcher := D_Pop\<rparr>)"
| disp_finish:
    "dispatcher s = D_Finish \<Longrightarrow>
     pmove opts s (s\<lparr>region_d := (region_d s)\<lparr>dispatcher_done := True\<rparr>, dispatcher := D_Done\<rparr>)"
| disp_timeout:
    "dispatcher s = D_Pop \<Longrightarrow> ring_contents (region_a s) = [] \<Longrightarrow> pmove opts s (s\<lparr>dispatcher := D_TimedOut\<rparr>)"
| worker_end:
    "l < length (analyzers s) \<Longrightarrow> an = analyzers s ! l \<Longrightarrow> w < length (workers an) \<Longrightarrow> workers an ! w = (W_Pop, ws) \<Longrightarrow>
     ring_contents (region_b s ! l) = [] \<Longrightarrow> eof_posted (region_b s ! l) \<Longrightarrow>
     pmove opts s (set_analyzer l (an\<lparr>workers := (workers an)[w := (W_Barrier, ws)]\<rparr>) s)"
| worker_pop:
    "l < length (analyzers s) \<Longrightarrow> an = analyzers s ! l \<Longrightarrow> w < length (workers an) \<Longrightarrow> workers an ! w = (W_Pop, ws) \<Longrightarrow>
     ring_inv b \<Longrightarrow> ring_contents (region_b s ! l) = e # ring_contents b \<Longrightarrow> eof_posted b = eof_posted (region_b s ! l) \<Longrightarrow>
     pmove opts s (set_analyzer l (an\<lparr>workers := (workers an)[w := (W_Score e, ws)]\<rparr>) (s\<lparr>region_b := (region_b s)[l := b]\<rparr>))"
| worker_score:
    "l < length (analyzers s) \<Longrightarrow> an = analyzers s ! l \<Longrightarrow> w < length (workers an) \<Longrightarrow> workers an ! w = (W_Score e, ws) \<Longrightarrow>
     worker_entry (int l) (keyword_list opts) e (ws, source_hits an) = (ws', t) \<Longrightarrow>
     pmove opts s (set_analyzer l (an\<lparr>workers := (workers an)[w := (W_Pop, ws')], source_hits := t\<rparr>) s)"
| worker_barrier:
    "l < length (analyzers s) \<Longrightarrow> an = analyzers s ! l \<Longrightarrow> w < length (workers an) \<Longrightarrow> workers an ! w = (W_Barrier, ws) \<Longrightarrow>
     list_all (\<lambda>x. at_barrier (fst x)) (workers an) \<Longrightarrow>
     pmove opts s (set_analyzer l (an\<lparr>workers := (workers an)[w := (W_Done, ws)],
                       level_result := tls_destructor w ws (level_result an)\<rparr>) s)"
| publish:
    "l < length (analyzers s) \<Longrightarrow> an = analyzers s ! l \<Longrightarrow> list_all (\<lambda>x. fst x = W_Done) (workers an) \<Longrightarrow>
     \<not> ready (level_result an) \<Longrightarrow>
     pmove opts s (set_analyzer l (an\<lparr>level_result := (compute_top3 (source_hits an) (level_result an))\<lparr>ready := True\<rparr>,
                                   level_ready := level_ready an + 1\<rparr>) s)"
| agg_end:
    "aggregator s = G_Drain \<Longrightarrow> ring_contents (region_d s) = [] \<Longrightarrow> dispatcher_done (region_d s) \<Longrightarrow>
     pmove opts s (s\<lparr>aggregator := G_Wait 0\<rparr>)"
| agg_pop:
    "aggregator s = G_Drain \<Longrightarrow> ring_inv d \<Longrightarrow> ring_contents (region_d s) = e # ring_contents d \<Longrightarrow>
     dispatcher_done d = dispatcher_done (region_d s) \<Longrightarrow> pmove opts s (s\<lparr>region_d := d, aggregator := G_Score e\<rparr>)"
| agg_score:
    "aggregator s = G_Score e \<Longrightarrow>
     pmove opts s (s\<lparr>high_priority := aggregate_entry (keyword_list opts) e (high_priority s), aggregator := G_Drain\<rparr>)"
| agg_wait:
    "aggregator s = G_Wait l \<Longrightarrow> an = analyzers s ! l \<Longrightarrow> ready (level_result an) \<Longrightarrow>
     pmove opts s ((set_analyzer l (an\<lparr>level_ready := level_ready an - 1\<rparr>) s)
                        \<lparr>aggregator := (if Suc l < 4 then G_Wait (Suc l) else G_Write)\<rparr>)"
| agg_write:
    "aggregator s = G_Write \<Longrightarrow> results = map level_result (analyzers s) \<Longrightarrow>
     pmove opts s (s\<lparr>report := Some (write_text_output (keyword_list opts) (length (files opts))
                               (nat (worker_threads opts)) results (fst (high_priority s)),
                             write_binary_output (keyword_list opts) results (fst (high_priority s))),
                   aggregator := G_Done\<rparr>)"

text \<open>Every step on well-formed rings is a move.\<close>

definition rings_wf :: "pipeline \<Rightarrow> bool" where
  "rings_wf s \<longleftrightarrow>
     list_all (\<lambda>rp. ring_inv (buffer rp)) (readers s) \<and> ring_inv (region_a s) \<and> ring_inv (region_d s) \<and>
     list_all ring_inv (region_b s) \<and> length (region_b s) = 4 \<and> length (analyzers s) = 4"

lemma push_fields:
  "private_buffer_push e b = Some b' \<Longrightarrow> producers_done b' = producers_done b"
  "push_region_b e x = Some x' \<Longrightarrow> eof_posted x' = eof_posted x"
  "push_region_d e d = Some d' \<Longrightarrow> dispatcher_done d' = dispatcher_done d"
  by (auto simp: private_buffer_push_def push_region_b_def push_region_d_def ring_put_def split: if_splits)

lemma pop_fields:
  "private_buffer_pop b = Got e b' \<Longrightarrow> producers_done b' = producers_done b"
  "pop_level_entry x = Got e x' \<Longrightarrow> eof_posted x' = eof_posted x"
  "pop_region_d d = Got e d' \<Longrightarrow> dispatcher_done d' = dispatcher_done d"
  by (auto simp: private_buffer_pop_def pop_level_entry_def pop_region_d_def ring_take_def split: if_splits)

lemma region_a_counts:
  "push_region_a e a = Some a' \<Longrightarrow> eof_counted e a a'"
  "pop_region_a a = Got e a' \<Longrightarrow> total_readers a' = total_readers a \<and> eof_count_per_level a' = eof_count_per_level a"
  by (auto simp: push_region_a_def pop_region_a_def eof_counted_def ring_put_def ring_take_def Let_def split: if_splits)

lemma pop_ended:
  "private_buffer_pop b = Ended \<Longrightarrow> ring_contents b = [] \<and> producers_done b"
  "pop_level_entry x = Ended \<Longrightarrow> ring_contents x = [] \<and> eof_posted x"
  "pop_region_d d = Ended \<Longrightarrow> ring_contents d = [] \<and> dispatcher_done d"
  by (auto simp: private_buffer_pop_def pop_level_entry_def pop_region_d_def ring_empty_iff split: if_splits prod.splits)

lemma reader_thread_pmove:
  assumes "rings_wf s" and "r < length (readers s)" and "t < length (todo (readers s ! r))"
    and "reader_thread_step r t s = Some s'"
  shows "pmove opts s s'"
proof -
  obtain e es b where st: "todo (readers s ! r) ! t = e # es" "private_buffer_push e (buffer (readers s ! r)) = Some b"
    "s' = set_reader r ((readers s ! r)\<lparr>todo := (todo (readers s ! r))[t := es], buffer := b\<rparr>) s"
    using assms(4) by (auto simp: reader_thread_step_def Let_def split: list.splits option.splits)
  have "ring_inv (buffer (readers s ! r))" using assms(1,2) by (auto simp: rings_wf_def list_all_length)
  from private_fifo.push_appends [OF this st(2)] push_fields(1) [OF st(2)]
  show ?thesis unfolding st(3) using assms(2,3) st(1) by (intro pmove.thread_push) auto
qed

lemma parser_pmove:
  assumes "rings_wf s" and "r < length (readers s)" and "parser_step r s = Some s'"
  shows "pmove opts s s'"
proof -
  let ?rp = "readers s ! r"
  have b: "ring_inv (buffer ?rp)" and a: "ring_inv (region_a s)"
    using assms(1,2) by (auto simp: rings_wf_def list_all_length)
  consider (pop_end) "parser ?rp = P_Pop" "private_buffer_pop (buffer ?rp) = Ended" "s' = set_reader r (?rp\<lparr>parser := P_Eof 0\<rparr>) s"
    | (pop) e b where "parser ?rp = P_Pop" "private_buffer_pop (buffer ?rp) = Got e b"
        "s' = set_reader r (?rp\<lparr>buffer := b, parser := P_Push e\<rparr>) s"
    | (push) e a where "parser ?rp = P_Push e" "push_region_a e (region_a s) = Some a"
        "s' = set_reader r (?rp\<lparr>parser := P_Pop\<rparr>) (s\<lparr>region_a := a\<rparr>)"
    | (eof) l a where "parser ?rp = P_Eof l" "push_region_a (eof_entry r l) (region_a s) = Some a"
        "s' = set_reader r (?rp\<lparr>parser := (if Suc l < 4 then P_Eof (Suc l) else P_Done)\<rparr>) (s\<lparr>region_a := a\<rparr>)"
    using assms(3) by (auto simp: parser_step_def Let_def split: parser_pc.splits pop_result.splits option.splits)
  then show ?thesis
  proof cases
    case pop_end
    then show ?thesis using assms(2) pop_ended(1) [OF pop_end(2)] pmove.parser_end by auto
  next
    case pop
    then show ?thesis using assms(2) private_fifo.pop_takes [OF b pop(2)] pop_fields(1) [OF pop(2)]
      pmove.parser_pop by auto
  next
    case push
    then show ?thesis using assms(2) region_a_fifo.push_appends [OF a push(2)] region_a_counts(1) [OF push(2)] pmove.parser_push by auto
  next
    case eof
    then show ?thesis using assms(2) region_a_fifo.push_appends [OF a eof(2)] region_a_counts(1) [OF eof(2)] pmove.parser_eof by auto
  qed
qed

lemma dispatcher_pmove:
  assumes wf: "rings_wf s" and step: "dispatcher_step opts s = Some s'"
    and hand: "\<And>e. dispatcher s = D_PushB e \<Longrightarrow> 0 \<le> level_index e \<and> level_index e < 4"
  shows "pmove opts s s'"
proof (cases "dispatcher s")
  case D_Pop
  have a: "ring_inv (region_a s)" using wf by (simp add: rings_wf_def)
  show ?thesis
  proof (cases "finished_levels s < 4")
    case True
    then obtain e a where g: "pop_region_a (region_a s) = Got e a" and s': "s' = s\<lparr>region_a := a, dispatcher := (if is_eof e then D_Eof e else D_PushB e)\<rparr>"
      using step D_Pop by (auto simp: dispatcher_step_def split: pop_result.splits)
    show ?thesis unfolding s' using region_a_fifo.pop_takes [OF a g] region_a_counts(2) [OF g] by (intro pmove.disp_pop [OF D_Pop True]) auto
  next
    case False
    then show ?thesis using step D_Pop pmove.disp_exit [OF D_Pop False] by (simp add: dispatcher_step_def)
  qed
next
  case (D_PushB e)
  let ?l = "nat (level_index e)"
  have "?l < 4" using hand [OF D_PushB] by linarith
  then have l: "ring_inv (region_b s ! ?l)" using wf by (auto simp: rings_wf_def list_all_length)
  obtain b where b: "push_region_b e (region_b s ! ?l) = Some b"
    and s': "s' = s\<lparr>region_b := (region_b s)[?l := b],
       dispatcher := (if source_is_priority (priority_sources opts) (source e) then D_PushD e else D_Pop)\<rparr>"
    using step D_PushB by (auto simp: dispatcher_step_def Let_def split: option.splits)
  show ?thesis unfolding s'
    using region_b_fifo.push_appends [OF l b] push_fields(2) [OF b] by (intro pmove.disp_push_b [OF D_PushB]) auto
next
  case (D_PushD e)
  have d: "ring_inv (region_d s)" using wf by (simp add: rings_wf_def)
  obtain x where x: "push_region_d e (region_d s) = Some x" and s': "s' = s\<lparr>region_d := x, dispatcher := D_Pop\<rparr>"
    using step D_PushD by (auto simp: dispatcher_step_def split: option.splits)
  show ?thesis unfolding s'
    using region_d_fifo.push_appends [OF d x] push_fields(3) [OF x] by (intro pmove.disp_push_d [OF D_PushD]) auto
qed (use step in \<open>auto simp: dispatcher_step_def intro: pmove.disp_check pmove.disp_eof pmove.disp_finish\<close>)

lemma worker_pmove:
  assumes wf: "rings_wf s" and l: "l < length (analyzers s)" and w: "w < length (workers (analyzers s ! l))"
    and step: "worker_step opts l w s = Some s'"
  shows "pmove opts s s'"
proof -
  let ?an = "analyzers s ! l"
  obtain pc ws where pw: "workers ?an ! w = (pc, ws)" by (cases "workers ?an ! w")
  have b: "ring_inv (region_b s ! l)" using wf l by (simp add: rings_wf_def list_all_length)
  show ?thesis
  proof (cases pc)
    case W_Pop
    show ?thesis
    proof (cases "pop_level_entry (region_b s ! l)")
      case Ended
      then have s': "s' = set_analyzer l (?an\<lparr>workers := (workers ?an)[w := (W_Barrier, ws)]\<rparr>) s"
        using step pw W_Pop by (simp add: worker_step_def Let_def)
      show ?thesis unfolding s' using pw W_Pop pop_ended(2) [OF Ended] by (intro pmove.worker_end [OF l refl w]) auto
    next
      case (Got e x)
      then have s': "s' = set_analyzer l (?an\<lparr>workers := (workers ?an)[w := (W_Score e, ws)]\<rparr>)
          (s\<lparr>region_b := (region_b s)[l := x]\<rparr>)"
        using step pw W_Pop by (simp add: worker_step_def Let_def)
      show ?thesis unfolding s' using pw W_Pop region_b_fifo.pop_takes [OF b Got] pop_fields(2) [OF Got]
        by (intro pmove.worker_pop [OF l refl w]) auto
    qed (use step pw W_Pop in \<open>simp add: worker_step_def Let_def\<close>)
  next
    case (W_Score e)
    obtain ws' t where "worker_entry (int l) (keyword_list opts) e (ws, source_hits ?an) = (ws', t)"
      by (cases "worker_entry (int l) (keyword_list opts) e (ws, source_hits ?an)")
    then show ?thesis using step pw W_Score by (auto simp: worker_step_def Let_def intro!: pmove.worker_score [OF l refl w])
  next
    case W_Barrier
    then show ?thesis using step pw
      by (auto simp: worker_step_def Let_def split: if_splits intro!: pmove.worker_barrier [OF l refl w])
  qed (use step pw in \<open>simp add: worker_step_def Let_def\<close>)
qed

lemma aggregator_pmove:
  assumes wf: "rings_wf s" and step: "aggregator_step opts s = Some s'"
  shows "pmove opts s s'"
proof (cases "aggregator s")
  case G_Drain
  have d: "ring_inv (region_d s)" using wf by (simp add: rings_wf_def)
  show ?thesis
  proof (cases "pop_region_d (region_d s)")
    case Ended
    then show ?thesis using step G_Drain pop_ended(3) [OF Ended] pmove.agg_end [OF G_Drain]
      by (simp add: aggregator_step_def)
  next
    case (Got e x)
    then have s': "s' = s\<lparr>region_d := x, aggregator := G_Score e\<rparr>"
      using step G_Drain by (simp add: aggregator_step_def)
    show ?thesis unfolding s' using region_d_fifo.pop_takes [OF d Got] pop_fields(3) [OF Got]
      by (intro pmove.agg_pop [OF G_Drain]) auto
  qed (use step G_Drain in \<open>simp add: aggregator_step_def\<close>)
next
  case (G_Wait l)
  then show ?thesis using step pmove.agg_wait [OF G_Wait refl]
    by (auto simp: aggregator_step_def Let_def split: if_splits)
next
  case G_Write
  then show ?thesis using step by (auto simp: aggregator_step_def Let_def intro: pmove.agg_write [OF G_Write refl])
qed (use step in \<open>auto simp: aggregator_step_def intro: pmove.agg_score\<close>)

lemma pstep_pmove:
  assumes wf: "rings_wf s" and step: "pstep opts a s = Some s'"
    and hand: "\<And>e. dispatcher s = D_PushB e \<Longrightarrow> 0 \<le> level_index e \<and> level_index e < 4"
  shows "pmove opts s s'"
proof (cases a)
  case (Readers_Joined r)
  then show ?thesis using step pmove.joined [of r s _ opts]
    by (auto simp: pstep_def readers_joined_step_def Let_def split: if_splits)
next
  case Timeout
  then show ?thesis using step by (auto simp: pstep_def timeout_step_def ring_empty_iff split: if_splits intro: pmove.disp_timeout)
next
  case (Analyzer l)
  then show ?thesis using step pmove.publish [of l s]
    by (auto simp: pstep_def analyzer_step_def Let_def split: if_splits)
qed (use step dispatcher_pmove [OF wf _ hand] reader_thread_pmove [OF wf] parser_pmove [OF wf] worker_pmove [OF wf]
       aggregator_pmove [OF wf] in \<open>auto simp: pstep_def split: if_splits\<close>)

section \<open>Well-formedness\<close>

definition routable :: "log_entry_t \<Rightarrow> bool" where
  "routable e \<longleftrightarrow> \<not> is_eof e \<and> 0 \<le> level_index e \<and> level_index e < 4"

fun parser_ok :: "parser_pc \<Rightarrow> bool" where
  "parser_ok (P_Eof l) = (l < 4)"
| "parser_ok _ = True"

definition reader_inv :: "nat \<Rightarrow> reader_proc \<Rightarrow> bool" where
  "reader_inv r rp \<longleftrightarrow>
     ring_inv (buffer rp) \<and> list_all (plain_entry r) (reader_pending rp) \<and> parser_ok (parser rp) \<and>
     (producers_done (buffer rp) \<longrightarrow> concat (todo rp) = []) \<and>
     (reader_ended (parser rp) \<longrightarrow> reader_pending rp = [])"

definition flow_inv :: "nat \<Rightarrow> pipeline \<Rightarrow> bool" where
  "flow_inv R s \<longleftrightarrow>
     length (readers s) = R \<and> (\<forall>r<R. reader_inv r (readers s ! r)) \<and>
     ring_inv (region_a s) \<and> ring_inv (region_d s) \<and> list_all ring_inv (region_b s) \<and>
     length (region_b s) = 4 \<and> length (analyzers s) = 4 \<and> length (eof_seen s) = 4 \<and>
     list_all (entry_ok R) (ring_contents (region_a s)) \<and>
     list_all routable (route_hand (dispatcher s) @ priority_hand (dispatcher s)) \<and>
     list_all (\<lambda>e. is_eof e \<and> entry_ok R e) (eof_hand (dispatcher s))"

lemma plain_entry_ok: "plain_entry r e \<Longrightarrow> r < R \<Longrightarrow> entry_ok R e"
  by (simp add: plain_entry_def entry_ok_def)

lemma eof_entry_simps [simp]:
  "is_eof (eof_entry r l)" "level_index (eof_entry r l) = int l" "reader_id (eof_entry r l) = int r"
  by (simp_all add: eof_entry_def)

lemma flow_rings: "flow_inv R s \<Longrightarrow> rings_wf s"
  by (auto simp: flow_inv_def rings_wf_def list_all_length reader_inv_def)

lemma flow_hand: "flow_inv R s \<Longrightarrow> dispatcher s = D_PushB e \<Longrightarrow> 0 \<le> level_index e \<and> level_index e < 4"
  by (simp add: flow_inv_def routable_def)

lemma flow_pmove: "flow_inv R s \<Longrightarrow> pstep opts a s = Some s' \<Longrightarrow> pmove opts s s'"
  using pstep_pmove flow_rings flow_hand by blast

lemma concat_update_nil:
  "t < length xss \<Longrightarrow> xss ! t = e # es \<Longrightarrow> set (concat (xss[t := es])) \<subseteq> set (concat xss) \<and> e \<in> set (concat xss)"
proof -
  assume t: "t < length xss" and e: "xss ! t = e # es"
  have "set (xss[t := es]) \<subseteq> insert es (set xss)" by (rule set_update_subset_insert)
  then have "set (concat (xss[t := es])) \<subseteq> set es \<union> set (concat xss)" by auto
  moreover have "e # es \<in> set xss" using t e by (metis nth_mem)
  then have "set (e # es) \<subseteq> set (concat xss)" by (metis UN_upper set_concat)
  ultimately show ?thesis by auto
qed

lemma reader_inv_moves:
  assumes "reader_inv r rp"
  shows
    "t < length (todo rp) \<Longrightarrow> todo rp ! t = e # es \<Longrightarrow> ring_inv b \<Longrightarrow> ring_contents b = ring_contents (buffer rp) @ [e] \<Longrightarrow>
       producers_done b = producers_done (buffer rp) \<Longrightarrow> reader_inv r (rp\<lparr>todo := (todo rp)[t := es], buffer := b\<rparr>)"
    "list_all (\<lambda>es. es = []) (todo rp) \<Longrightarrow> reader_inv r (rp\<lparr>buffer := (buffer rp)\<lparr>producers_done := True\<rparr>\<rparr>)"
    "parser rp = P_Pop \<Longrightarrow> ring_contents (buffer rp) = [] \<Longrightarrow> producers_done (buffer rp) \<Longrightarrow> reader_inv r (rp\<lparr>parser := P_Eof 0\<rparr>)"
    "parser rp = P_Pop \<Longrightarrow> ring_inv b \<Longrightarrow> ring_contents (buffer rp) = e # ring_contents b \<Longrightarrow>
       producers_done b = producers_done (buffer rp) \<Longrightarrow> reader_inv r (rp\<lparr>buffer := b, parser := P_Push e\<rparr>)"
    "parser rp = P_Push e \<Longrightarrow> reader_inv r (rp\<lparr>parser := P_Pop\<rparr>)"
    "parser rp = P_Eof l \<Longrightarrow> reader_inv r (rp\<lparr>parser := (if Suc l < 4 then P_Eof (Suc l) else P_Done)\<rparr>)"
proof -
  show "reader_inv r (rp\<lparr>todo := (todo rp)[t := es], buffer := b\<rparr>)"
    if t: "t < length (todo rp)" "todo rp ! t = e # es" and b: "ring_inv b" "ring_contents b = ring_contents (buffer rp) @ [e]"
      "producers_done b = producers_done (buffer rp)"
  proof -
    have c: "set (concat ((todo rp)[t := es])) \<subseteq> set (concat (todo rp))" "e \<in> set (concat (todo rp))"
      using concat_update_nil [OF t] by auto
    then have "concat (todo rp) \<noteq> []" by force
    then show ?thesis using assms b c by (auto simp: reader_inv_def reader_pending_def list_all_iff)
  qed
qed (use assms in \<open>auto simp: reader_inv_def reader_pending_def list_all_iff ring_inv_def ring_contents_def\<close>)

lemma region_flag_ring [simp]:
  "ring_inv (b\<lparr>eof_posted := x\<rparr>) = ring_inv b" "ring_contents (b\<lparr>eof_posted := x\<rparr>) = ring_contents b"
  "ring_inv (d\<lparr>dispatcher_done := x\<rparr>) = ring_inv d" "ring_contents (d\<lparr>dispatcher_done := x\<rparr>) = ring_contents d"
  "ring_inv (p\<lparr>producers_done := x\<rparr>) = ring_inv p" "ring_contents (p\<lparr>producers_done := x\<rparr>) = ring_contents p"
  by (simp_all add: ring_inv_def ring_contents_def)

lemma all_readers_update:
  "\<forall>r<R. P r (rs ! r) \<Longrightarrow> length rs = R \<Longrightarrow> P r0 rp \<Longrightarrow> \<forall>r<R. P r (rs[r0 := rp] ! r)"
  by (metis nth_list_update_eq nth_list_update_neq)

lemma flow_inv_set_reader:
  "flow_inv R s \<Longrightarrow> reader_inv r rp \<Longrightarrow> flow_inv R (set_reader r rp s)"
  unfolding flow_inv_def set_reader_def using all_readers_update [of R reader_inv "readers s" r rp] by simp

lemma flow_inv_set_analyzer [simp]: "flow_inv R (set_analyzer l an s) = flow_inv R s"
  by (simp add: flow_inv_def set_analyzer_def)

lemma flow_inv_move:
  assumes inv: "flow_inv R s" and move: "pmove opts s s'"
  shows "flow_inv R s'"
proof -
  have rinv: "reader_inv r (readers s ! r)" if "r < length (readers s)" for r
    using inv that by (auto simp: flow_inv_def)
  show ?thesis
    using move
  proof cases
    case (thread_push r rp t e es b)
    then show ?thesis using flow_inv_set_reader [OF inv] reader_inv_moves(1) [OF rinv] by blast
  next
    case (joined r rp)
    then show ?thesis using flow_inv_set_reader [OF inv] reader_inv_moves(2) [OF rinv] by blast
  next
    case (parser_end r rp)
    then show ?thesis using flow_inv_set_reader [OF inv] reader_inv_moves(3) [OF rinv] by blast
  next
    case (parser_pop r rp b e)
    then show ?thesis using flow_inv_set_reader [OF inv] reader_inv_moves(4) [OF rinv] by blast
  next
    case (parser_push r rp e a)
    have "plain_entry r e" using rinv [of r] parser_push by (auto simp: reader_inv_def reader_pending_def)
    then have "entry_ok R e" using inv parser_push plain_entry_ok by (auto simp: flow_inv_def)
    then have "flow_inv R (s\<lparr>region_a := a\<rparr>)" using inv parser_push by (simp add: flow_inv_def)
    then show ?thesis using flow_inv_set_reader reader_inv_moves(5) [OF rinv] parser_push by blast
  next
    case (parser_eof r rp l a)
    have "l < 4" using rinv [of r] parser_eof by (auto simp: reader_inv_def)
    then have "entry_ok R (eof_entry r l)" using inv parser_eof by (auto simp: flow_inv_def entry_ok_def)
    then have "flow_inv R (s\<lparr>region_a := a\<rparr>)" using inv parser_eof by (simp add: flow_inv_def)
    then show ?thesis using flow_inv_set_reader reader_inv_moves(6) [OF rinv] parser_eof by blast
  next
    case (disp_pop a e)
    then show ?thesis using inv by (auto simp: flow_inv_def routable_def entry_ok_def)
  next
    case (disp_eof e)
    let ?l = "nat (level_index e)"
    have "?l < 4" using inv disp_eof by (simp add: flow_inv_def entry_ok_def nat_less_iff)
    then have "ring_inv ((region_b s ! ?l)\<lparr>eof_posted := True\<rparr>)" using inv by (simp add: flow_inv_def list_all_length)
    then show ?thesis using inv disp_eof by (auto simp: flow_inv_def dispatch_eof_def Let_def intro: list_all_update)
  next
    case (disp_push_b e l b)
    then show ?thesis using inv by (auto simp: flow_inv_def intro: list_all_update)
  next
    case (worker_pop l an w ws b e)
    then have "flow_inv R (s\<lparr>region_b := (region_b s)[l := b]\<rparr>)" using inv by (auto simp: flow_inv_def intro: list_all_update)
    then show ?thesis using worker_pop by simp
  qed (use inv in \<open>simp_all add: flow_inv_def set_analyzer_def ring_inv_def\<close>)
qed

end
