(* ===== verification/Log_Eof.thy ===== *)
theory Log_Eof
  imports Log_Flow
begin

text \<open>
  End of input in the log pipeline. Per reader, Region A holds entries and then end markers; the
  dispatcher's counts equal the markers it has consumed; a level is closed only when no entry is
  left before Region B, so a worker that stops has seen everything.
\<close>

section \<open>Order in Region A\<close>

definition stream_ok :: "nat \<Rightarrow> nat \<Rightarrow> log_entry_t list \<Rightarrow> bool" where
  "stream_ok r k xs \<longleftrightarrow>
     (\<exists>es j. xs = es @ map (eof_entry r) [j..<k] \<and> list_all (plain_entry r) es \<and> j \<le> k \<and> (es \<noteq> [] \<longrightarrow> j = 0))"

abbreviation of_reader :: "nat \<Rightarrow> log_entry_t list \<Rightarrow> log_entry_t list" where
  "of_reader r xs \<equiv> filter (\<lambda>e. reader_id e = int r) xs"

definition order_inv :: "pipeline \<Rightarrow> bool" where
  "order_inv s \<longleftrightarrow>
     (\<forall>r<length (readers s).
        stream_ok r (eofs_pushed (parser (readers s ! r))) (of_reader r (ring_contents (region_a s))))"

lemma stream_push_plain: "stream_ok r 0 xs \<Longrightarrow> plain_entry r e \<Longrightarrow> stream_ok r 0 (xs @ [e])"
  unfolding stream_ok_def by (auto intro!: exI [of _ 0])

lemma stream_push_eof: "stream_ok r k xs \<Longrightarrow> stream_ok r (Suc k) (xs @ [eof_entry r k])"
proof -
  assume "stream_ok r k xs"
  then obtain es j where "xs = es @ map (eof_entry r) [j..<k]" "list_all (plain_entry r) es" "j \<le> k" "es \<noteq> [] \<longrightarrow> j = 0"
    by (auto simp: stream_ok_def)
  then show ?thesis unfolding stream_ok_def by (intro exI [of _ es] exI [of _ j]) auto
qed

lemma stream_pop: "stream_ok r k (x # xs) \<Longrightarrow> stream_ok r k xs"
proof -
  assume "stream_ok r k (x # xs)"
  then obtain es j where x: "x # xs = es @ map (eof_entry r) [j..<k]" and es: "list_all (plain_entry r) es"
    "j \<le> k" "es \<noteq> [] \<longrightarrow> j = 0"
    by (auto simp: stream_ok_def)
  show ?thesis
  proof (cases es)
    case Nil
    then have "j < k" using x by (cases "j < k") auto
    then have "xs = [] @ map (eof_entry r) [Suc j..<k]" using x Nil by (simp add: upt_conv_Cons)
    then show ?thesis using \<open>j < k\<close> unfolding stream_ok_def by (intro exI [of _ "[]"] exI [of _ "Suc j"]) auto
  next
    case (Cons y ys)
    then show ?thesis using x es unfolding stream_ok_def by (intro exI [of _ ys] exI [of _ j]) auto
  qed
qed

text \<open>Without a marker for a level that the reader has already sent, no entry of it is left.\<close>

lemma stream_no_entry:
  assumes "stream_ok r k xs" and "l < k" and "\<forall>x\<in>set xs. \<not> (is_eof x \<and> level_index x = int l)" and "e \<in> set xs"
  shows "is_eof e"
proof -
  obtain es j where x: "xs = es @ map (eof_entry r) [j..<k]" "es \<noteq> [] \<longrightarrow> j = 0" "list_all (plain_entry r) es"
    using assms(1) by (auto simp: stream_ok_def)
  have "\<not> j \<le> l"
  proof
    assume "j \<le> l"
    then have "eof_entry r l \<in> set xs" using x(1) assms(2) by simp
    then show False using assms(3) by fastforce
  qed
  then have "es = []" using x(2) by auto
  then show ?thesis using assms(4) x(1) by auto
qed

lemma eofs_pushed_step:
  "parser_ok (P_Eof l) \<Longrightarrow> eofs_pushed (if l < 3 then P_Eof (Suc l) else P_Done) = Suc l"
  by auto

lemma order_inv_update:
  assumes "order_inv s" and "r < length (readers s)"
    and "\<And>q. q \<noteq> r \<Longrightarrow> of_reader q (ring_contents (region_a s')) = of_reader q (ring_contents (region_a s))"
    and "readers s' = (readers s)[r := rp]"
    and "stream_ok r (eofs_pushed (parser rp)) (of_reader r (ring_contents (region_a s')))"
  shows "order_inv s'"
  unfolding order_inv_def
proof (intro allI impI)
  fix q assume "q < length (readers s')"
  then show "stream_ok q (eofs_pushed (parser (readers s' ! q))) (of_reader q (ring_contents (region_a s')))"
    using assms by (cases "q = r") (auto simp: order_inv_def)
qed

lemma order_inv_move:
  assumes flow: "flow_inv R s" and inv: "order_inv s" and move: "pmove opts s s'"
  shows "order_inv s'"
  using move
proof cases
  case (parser_push r rp e a)
  have rp: "reader_inv r (readers s ! r)" using flow parser_push by (auto simp: flow_inv_def)
  then have e: "plain_entry r e" using parser_push by (auto simp: reader_inv_def reader_pending_def)
  have "stream_ok r 0 (of_reader r (ring_contents (region_a s)))"
    using inv parser_push by (auto simp: order_inv_def)
  then have "stream_ok r 0 (of_reader r (ring_contents (region_a s)) @ [e])" using e by (rule stream_push_plain)
  then show ?thesis using e parser_push
    by (intro order_inv_update [OF inv, of r]) (auto simp: set_reader_def plain_entry_def)
next
  case (parser_eof r rp l a)
  have "parser_ok (P_Eof l)" using flow parser_eof by (auto simp: flow_inv_def reader_inv_def)
  note step = eofs_pushed_step [OF this]
  have "stream_ok r l (of_reader r (ring_contents (region_a s)))"
    using inv parser_eof by (auto simp: order_inv_def)
  then have "stream_ok r (Suc l) (of_reader r (ring_contents (region_a s)) @ [eof_entry r l])" by (rule stream_push_eof)
  then show ?thesis using parser_eof
    by (intro order_inv_update [OF inv, of r _ "rp\<lparr>parser := (if Suc l < 4 then P_Eof (Suc l) else P_Done)\<rparr>"])
      (simp_all add: set_reader_def step split del: if_split)
next
  case (disp_pop a e)
  then have "stream_ok r (eofs_pushed (parser (readers s ! r))) (of_reader r (ring_contents a))"
    if "r < length (readers s)" for r
    using inv that by (auto simp: order_inv_def dest: stream_pop split: if_splits)
  then show ?thesis using disp_pop by (simp add: order_inv_def)
qed (use inv in \<open>auto simp: order_inv_def set_reader_def set_analyzer_def dispatch_eof_def Let_def nth_list_update\<close>)

section \<open>Counting end markers\<close>

definition marks :: "nat \<Rightarrow> log_entry_t list \<Rightarrow> int" where
  "marks l xs = (\<Sum>x\<leftarrow>xs. if is_eof x \<and> level_index x = int l then 1 else 0)"

definition unsent :: "nat \<Rightarrow> reader_proc list \<Rightarrow> int" where
  "unsent l rs = (\<Sum>rp\<leftarrow>rs. if eofs_pushed (parser rp) \<le> l then 1 else 0)"

definition count_inv :: "pipeline \<Rightarrow> bool" where
  "count_inv s \<longleftrightarrow>
     (\<forall>l<4. int (eof_seen s ! l) + marks l (ring_contents (region_a s)) + marks l (eof_hand (dispatcher s)) +
            unsent l (readers s) = int (length (readers s)))"

lemma marks_simps [simp]:
  "marks l [] = 0" "marks l (x # xs) = (if is_eof x \<and> level_index x = int l then 1 else 0) + marks l xs"
  "marks l (xs @ ys) = marks l xs + marks l ys"
  by (simp_all add: marks_def)

lemma marks_nonneg: "0 \<le> marks l xs"
  by (induction xs) auto

lemma unsent_nonneg: "0 \<le> unsent l rs"
  by (induction rs) (auto simp: unsent_def)

lemma unsent_update:
  "r < length rs \<Longrightarrow> unsent l (rs[r := rp]) =
     unsent l rs + (if eofs_pushed (parser rp) \<le> l then 1 else 0) - (if eofs_pushed (parser (rs ! r)) \<le> l then 1 else 0)"
  unfolding unsent_def by (subst sum_list_map_update) auto

lemma unsent_zero: "unsent l rs = 0 \<Longrightarrow> rp \<in> set rs \<Longrightarrow> l < eofs_pushed (parser rp)"
proof (induction rs)
  case (Cons a rs)
  have "0 \<le> unsent l rs" by (rule unsent_nonneg)
  then show ?case using Cons by (auto simp: unsent_def split: if_splits)
qed simp

lemma marks_zero: "marks l xs = 0 \<Longrightarrow> x \<in> set xs \<Longrightarrow> \<not> (is_eof x \<and> level_index x = int l)"
proof (induction xs)
  case (Cons a xs)
  have "0 \<le> marks l xs" by (rule marks_nonneg)
  then show ?case using Cons by (auto split: if_splits)
qed simp

lemma count_inv_readers:
  assumes "count_inv s" and "r < length (readers s)" and "eofs_pushed (parser rp) = eofs_pushed (parser (readers s ! r))"
  shows "count_inv (set_reader r rp s)"
  using assms by (simp add: count_inv_def set_reader_def unsent_update)

lemma count_inv_move:
  assumes flow: "flow_inv R s" and inv: "count_inv s" and move: "pmove opts s s'"
  shows "count_inv s'"
  using move
proof cases
  case (parser_push r rp e a)
  have "reader_inv r (readers s ! r)" using flow parser_push by (auto simp: flow_inv_def)
  then have "\<not> is_eof e" using parser_push by (auto simp: reader_inv_def reader_pending_def plain_entry_def)
  then have "count_inv (s\<lparr>region_a := a\<rparr>)" using inv parser_push by (simp add: count_inv_def)
  then show ?thesis using count_inv_readers [of "s\<lparr>region_a := a\<rparr>" r] parser_push by simp
next
  case (parser_eof r rp l a)
  have "parser_ok (P_Eof l)" using flow parser_eof by (auto simp: flow_inv_def reader_inv_def)
  note step = eofs_pushed_step [OF this]
  show ?thesis using inv parser_eof
    by (simp add: count_inv_def set_reader_def unsent_update step split del: if_split) auto
next
  case (disp_pop a e)
  then show ?thesis using inv by (auto simp: count_inv_def)
next
  case (disp_eof e)
  then have l: "0 \<le> level_index e" "level_index e < 4" "is_eof e" "length (eof_seen s) = 4"
    using flow by (auto simp: flow_inv_def entry_ok_def)
  then show ?thesis using inv disp_eof
    by (auto simp: count_inv_def dispatch_eof_def Let_def nth_list_update split: if_splits)
qed (use inv in \<open>simp_all add: count_inv_readers set_analyzer_def\<close>, simp_all add: count_inv_def split: if_splits)

section \<open>Closing a level\<close>

lemma all_marks_consumed:
  assumes flow: "flow_inv R s" and order: "order_inv s" and cnt: "count_inv s" and l: "l < 4" and seen: "eof_seen s ! l = R"
  shows "\<forall>rp\<in>set (readers s). reader_pending rp = []" "\<forall>e\<in>set (ring_contents (region_a s)). is_eof e"
    "marks l (eof_hand (dispatcher s)) = 0"
proof -
  have R: "length (readers s) = R" using flow by (simp add: flow_inv_def)
  have z: "marks l (ring_contents (region_a s)) = 0" "marks l (eof_hand (dispatcher s)) = 0" "unsent l (readers s) = 0"
    using cnt l seen R marks_nonneg [of l "ring_contents (region_a s)"] marks_nonneg [of l "eof_hand (dispatcher s)"]
      unsent_nonneg [of l "readers s"] unfolding count_inv_def by fastforce+
  have sent: "l < eofs_pushed (parser (readers s ! r))" if "r < R" for r
    using unsent_zero [OF z(3)] that R by simp
  show "\<forall>rp\<in>set (readers s). reader_pending rp = []"
  proof
    fix rp assume "rp \<in> set (readers s)"
    then obtain r where r: "r < R" "rp = readers s ! r" using R by (metis in_set_conv_nth)
    then have "reader_ended (parser rp)" using sent [OF r(1)] by (cases "parser rp") auto
    then show "reader_pending rp = []" using flow r by (auto simp: flow_inv_def reader_inv_def)
  qed
  show "\<forall>e\<in>set (ring_contents (region_a s)). is_eof e"
  proof
    fix e assume e: "e \<in> set (ring_contents (region_a s))"
    let ?r = "nat (reader_id e)"
    have ok: "entry_ok R e" using flow e by (auto simp: flow_inv_def list_all_iff)
    then have r: "?r < R" "reader_id e = int ?r" by (auto simp: entry_ok_def)
    have "stream_ok ?r (eofs_pushed (parser (readers s ! ?r))) (of_reader ?r (ring_contents (region_a s)))"
      using order r(1) R by (auto simp: order_inv_def)
    moreover have "\<forall>x\<in>set (of_reader ?r (ring_contents (region_a s))). \<not> (is_eof x \<and> level_index x = int l)"
      using marks_zero [OF z(1)] by auto
    moreover have "e \<in> set (of_reader ?r (ring_contents (region_a s)))" using e r(2) by simp
    ultimately show "is_eof e" using stream_no_entry sent [OF r(1)] by blast
  qed
  show "marks l (eof_hand (dispatcher s)) = 0" by (rule z)
qed

definition post_inv :: "pipeline \<Rightarrow> bool" where
  "post_inv s \<longleftrightarrow>
     (\<forall>l<4. eof_posted (region_b s ! l) \<longrightarrow> eof_seen s ! l = length (readers s) \<and> route_hand (dispatcher s) = [])"

lemma post_inv_move:
  assumes flow: "flow_inv R s" and order: "order_inv s" and cnt: "count_inv s" and inv: "post_inv s"
    and files: "length (files opts) = R" and move: "pmove opts s s'"
  shows "post_inv s'"
  using move
proof cases
  case (disp_pop a e)
  have "is_eof e" if "l < 4" "eof_posted (region_b s ! l)" for l
    using all_marks_consumed(2) [OF flow order cnt that(1)] that inv disp_pop flow
    by (auto simp: post_inv_def flow_inv_def)
  then show ?thesis using inv disp_pop by (auto simp: post_inv_def)
next
  case (disp_eof e)
  let ?l = "nat (level_index e)"
  have l: "?l < 4" "length (eof_seen s) = 4" "length (region_b s) = 4" "length (readers s) = R" "is_eof e" "level_index e = int ?l"
    using flow disp_eof by (auto simp: flow_inv_def entry_ok_def)
  have "\<not> eof_posted (region_b s ! ?l)"
    using all_marks_consumed(3) [OF flow order cnt l(1)] inv disp_eof l by (auto simp: post_inv_def)
  then show ?thesis using inv disp_eof l files
    by (auto simp: post_inv_def dispatch_eof_def Let_def nth_list_update)
next
  case (disp_push_b e l b)
  then have "l < 4" "length (region_b s) = 4" using flow by (auto simp: flow_inv_def routable_def)
  then show ?thesis using inv disp_push_b by (auto simp: post_inv_def nth_list_update)
next
  case (worker_pop l an w ws b e)
  then have "length (region_b s) = 4" "l < 4" using flow by (auto simp: flow_inv_def)
  then show ?thesis using inv worker_pop by (auto simp: post_inv_def nth_list_update set_analyzer_def)
qed (use inv in \<open>auto simp: post_inv_def set_reader_def set_analyzer_def split: if_splits\<close>)

section \<open>Workers and the aggregator\<close>

definition worker_inv :: "pipeline \<Rightarrow> bool" where
  "worker_inv s \<longleftrightarrow>
     (\<forall>l<4. \<forall>x\<in>set (workers (analyzers s ! l)). at_barrier (fst x) \<longrightarrow>
         eof_posted (region_b s ! l) \<and> ring_contents (region_b s ! l) = [])"

definition publish_inv :: "pipeline \<Rightarrow> bool" where
  "publish_inv s \<longleftrightarrow>
     (\<forall>l<4. ready (level_result (analyzers s ! l)) \<longrightarrow> list_all (\<lambda>x. fst x = W_Done) (workers (analyzers s ! l)))"

fun waited :: "aggregator_pc \<Rightarrow> nat" where
  "waited (G_Wait l) = l"
| "waited G_Write = 4"
| "waited G_Done = 4"
| "waited _ = 0"

fun drained :: "aggregator_pc \<Rightarrow> bool" where
  "drained G_Drain = False"
| "drained (G_Score e) = False"
| "drained _ = True"

definition aggregator_inv :: "pipeline \<Rightarrow> bool" where
  "aggregator_inv s \<longleftrightarrow>
     dispatcher_done (region_d s) = (dispatcher s = D_Done) \<and>
     (drained (aggregator s) \<longrightarrow> dispatcher_done (region_d s) \<and> ring_contents (region_d s) = []) \<and>
     waited (aggregator s) \<le> 4 \<and> (\<forall>l<waited (aggregator s). ready (level_result (analyzers s ! l))) \<and>
     (\<forall>l. aggregator s = G_Wait l \<longrightarrow> l < 4)"

lemma tls_ready [simp]: "ready (tls_destructor w ws r) = ready r"
  by (simp add: tls_destructor_def split: prod.splits)

lemma compute_top3_fields [simp]:
  "ready (compute_top3 t r) = ready r" "total_entries (compute_top3 t r) = total_entries r"
  "per_keyword_score (compute_top3 t r) = per_keyword_score r"
  "total_weighted_score (compute_top3 t r) = total_weighted_score r"
  by (simp_all add: compute_top3_def)

lemma set_update_cases: "x \<in> set (xs[i := y]) \<Longrightarrow> x = y \<or> x \<in> set xs"
  using set_update_subset_insert by fastforce

lemma worker_inv_set_analyzer:
  assumes "worker_inv s" and "length (analyzers s) = 4" and "l < 4"
    and "\<And>x. x \<in> set (workers an) \<Longrightarrow> at_barrier (fst x) \<Longrightarrow>
            eof_posted (region_b s ! l) \<and> ring_contents (region_b s ! l) = []"
  shows "worker_inv (set_analyzer l an s)"
  using assms by (fastforce simp: worker_inv_def set_analyzer_def nth_list_update)

lemma worker_inv_move:
  assumes flow: "flow_inv R s" and inv: "worker_inv s" and post: "post_inv s" and move: "pmove opts s s'"
  shows "worker_inv s'"
proof -
  have len: "length (analyzers s) = 4" "length (region_b s) = 4" using flow by (auto simp: flow_inv_def)
  have known: "eof_posted (region_b s ! l) \<and> ring_contents (region_b s ! l) = []"
    if "l < 4" "x \<in> set (workers (analyzers s ! l))" "at_barrier (fst x)" for l x
    using inv that by (auto simp: worker_inv_def)
  show ?thesis
    using move
  proof cases
    case (disp_eof e)
    then have "nat (level_index e) < 4" using flow by (auto simp: flow_inv_def entry_ok_def)
    then show ?thesis using inv disp_eof len
      by (auto simp: worker_inv_def dispatch_eof_def Let_def nth_list_update)
  next
    case (disp_push_b e l b)
    then have "l < 4" using flow by (auto simp: flow_inv_def routable_def)
    then have "\<not> eof_posted (region_b s ! l)" using post disp_push_b by (auto simp: post_inv_def)
    then have "\<not> at_barrier (fst x)" if "x \<in> set (workers (analyzers s ! l))" for x
      using known \<open>l < 4\<close> that by blast
    then show ?thesis using inv disp_push_b len \<open>l < 4\<close> by (auto simp: worker_inv_def nth_list_update)
  next
    case (worker_end l an w ws)
    then show ?thesis unfolding worker_end(1) using inv len
      by (intro worker_inv_set_analyzer) (auto dest!: set_update_cases)
  next
    case (worker_pop l an w ws b e)
    then have l: "l < 4" using len by simp
    have "\<not> at_barrier (fst x)" if "x \<in> set (workers an)" for x
      using known [OF l, of x] that worker_pop by auto
    then have "worker_inv (s\<lparr>region_b := (region_b s)[l := b]\<rparr>)"
      using inv worker_pop len l by (auto simp: worker_inv_def nth_list_update)
    then show ?thesis unfolding worker_pop(1) using worker_pop len l known [OF l] \<open>\<And>x. x \<in> set (workers an) \<Longrightarrow> \<not> at_barrier (fst x)\<close>
      by (intro worker_inv_set_analyzer) (auto dest!: set_update_cases simp: at_barrier_def)
  next
    case (worker_score l an w e ws ws' t)
    then show ?thesis unfolding worker_score(1) using inv len known
      by (intro worker_inv_set_analyzer) (auto dest!: set_update_cases simp: at_barrier_def)
  next
    case (worker_barrier l an w ws)
    have "workers an ! w \<in> set (workers an)" using worker_barrier(4) by (rule nth_mem)
    then have "eof_posted (region_b s ! l) \<and> ring_contents (region_b s ! l) = []"
      using known [of l "workers an ! w"] worker_barrier len by (auto simp: at_barrier_def)
    then show ?thesis unfolding worker_barrier(1) using inv len worker_barrier
      by (intro worker_inv_set_analyzer) auto
  next
    case (publish l an)
    then show ?thesis unfolding publish(1) using inv len known
      by (intro worker_inv_set_analyzer) auto
  next
    case (agg_wait l an)
    then show ?thesis using inv len known
      by (cases "l < 4") (auto simp: worker_inv_def set_analyzer_def nth_list_update)
  qed (use inv in \<open>auto simp: worker_inv_def set_reader_def\<close>)
qed

lemma publish_inv_move:
  assumes flow: "flow_inv R s" and inv: "publish_inv s" and move: "pmove opts s s'"
  shows "publish_inv s'"
proof -
  have len: "length (analyzers s) = 4" using flow by (auto simp: flow_inv_def)
  have running: "\<not> ready (level_result (analyzers s ! l))"
    if "l < 4" "w < length (workers (analyzers s ! l))" "workers (analyzers s ! l) ! w = (pc, ws)" "pc \<noteq> W_Done" for l w pc ws
  proof
    assume "ready (level_result (analyzers s ! l))"
    then have "fst (workers (analyzers s ! l) ! w) = W_Done"
      using inv that(1,2) by (auto simp: publish_inv_def list_all_length)
    then show False using that by simp
  qed
  show ?thesis
    using move
  proof cases
    case (worker_end l an w ws)
    then show ?thesis using inv len running [of l w] by (auto simp: publish_inv_def set_analyzer_def nth_list_update)
  next
    case (worker_pop l an w ws b e)
    then show ?thesis using inv len running [of l w] by (auto simp: publish_inv_def set_analyzer_def nth_list_update)
  next
    case (worker_score l an w e ws ws' t)
    then show ?thesis using inv len running [of l w] by (auto simp: publish_inv_def set_analyzer_def nth_list_update)
  next
    case (worker_barrier l an w ws)
    then show ?thesis using inv len running [of l w] by (auto simp: publish_inv_def set_analyzer_def nth_list_update)
  next
    case (publish l an)
    then show ?thesis using inv len by (auto simp: publish_inv_def set_analyzer_def nth_list_update)
  next
    case (agg_wait l an)
    then show ?thesis using inv len
      by (cases "l < 4") (auto simp: publish_inv_def set_analyzer_def nth_list_update)
  qed (use inv in \<open>auto simp: publish_inv_def set_reader_def dispatch_eof_def Let_def\<close>)
qed

lemma ready_set_analyzer:
  assumes "\<forall>i<n. ready (level_result (ans ! i))" and "ready (level_result (ans ! l)) \<longrightarrow> ready (level_result an)"
    and "l < length ans"
  shows "\<forall>i<n. ready (level_result (ans[l := an] ! i))"
  using assms by (auto simp: nth_list_update)

lemma aggregator_inv_move:
  assumes flow: "flow_inv R s" and inv: "aggregator_inv s" and move: "pmove opts s s'"
  shows "aggregator_inv s'"
proof -
  have len: "length (analyzers s) = 4" using flow by (auto simp: flow_inv_def)
  have upd: "aggregator_inv (set_analyzer l an s)"
    if "l < 4" "ready (level_result (analyzers s ! l)) \<longrightarrow> ready (level_result an)" for l an
    using inv that len ready_set_analyzer [of "waited (aggregator s)" "analyzers s" l an]
    by (auto simp: aggregator_inv_def set_analyzer_def)
  show ?thesis
    using move
  proof cases
    case (worker_pop l an w ws b e)
    then have "aggregator_inv (set_analyzer l (an\<lparr>workers := (workers an)[w := (W_Score e, ws)]\<rparr>) s)"
      using upd len by simp
    then show ?thesis using worker_pop by (auto simp: aggregator_inv_def set_analyzer_def)
  next
    case (agg_wait l an)
    then have "l < 4" "\<forall>i<l. ready (level_result (analyzers s ! i))" using inv by (auto simp: aggregator_inv_def)
    then show ?thesis using inv agg_wait len
      by (auto simp: aggregator_inv_def set_analyzer_def nth_list_update less_Suc_eq less_antisym)
  next
    case (worker_end l an w ws)
    then show ?thesis using upd [of l] len by simp
  next
    case (worker_score l an w e ws ws' t)
    then show ?thesis using upd [of l] len by simp
  next
    case (worker_barrier l an w ws)
    then show ?thesis using upd [of l] len by simp
  next
    case (publish l an)
    then show ?thesis using upd [of l] len by simp
  qed (use inv in \<open>auto simp: aggregator_inv_def set_reader_def dispatch_eof_def Let_def split: if_splits\<close>)
qed

section \<open>The invariant of the pipeline\<close>

definition pipe_inv :: "nat \<Rightarrow> pipeline \<Rightarrow> bool" where
  "pipe_inv R s \<longleftrightarrow>
     flow_inv R s \<and> order_inv s \<and> count_inv s \<and> post_inv s \<and> worker_inv s \<and> publish_inv s \<and> aggregator_inv s"

lemma pipe_inv_move:
  assumes "pipe_inv R s" and "length (files opts) = R" and "pmove opts s s'"
  shows "pipe_inv R s'"
proof -
  have i: "flow_inv R s" "order_inv s" "count_inv s" "post_inv s" "worker_inv s" "publish_inv s" "aggregator_inv s"
    using assms(1) by (simp_all add: pipe_inv_def)
  show ?thesis
    unfolding pipe_inv_def
    using flow_inv_move [OF i(1) assms(3)] order_inv_move [OF i(1,2) assms(3)] count_inv_move [OF i(1,3) assms(3)]
      post_inv_move [OF i(1,2,3,4) assms(2,3)] worker_inv_move [OF i(1,5,4) assms(3)]
      publish_inv_move [OF i(1,6) assms(3)] aggregator_inv_move [OF i(1,7) assms(3)]
    by simp
qed

lemma parse_log_line_routable: "parse_log_line line = Some e \<Longrightarrow> routable e"
  using parse_level_cases
  by (fastforce simp: parse_log_line_def routable_def Let_def split: if_splits option.splits)

lemma reader_thread_entries:
  "fst (reader_thread_main fd rid f ctx) =
     map (\<lambda>e. e\<lparr>reader_id := rid\<rparr>)
       (List.map_filter (\<lambda>l. parse_log_line (c_str l)) (map snd (reader_thread_lines f ctx)))"
proof -
  obtain es bs m n where r: "reader_thread_main fd rid f ctx = (es, bs, m, n)"
    by (cases "reader_thread_main fd rid f ctx")
  then show ?thesis using reader_thread_loop_spec [OF r [unfolded reader_thread_main_def]] by simp
qed

lemma reader_thread_plain: "e \<in> set (fst (reader_thread_main fd (int r) f ctx)) \<Longrightarrow> plain_entry r e"
  using parse_log_line_routable
  by (auto simp: reader_thread_entries plain_entry_def routable_def List.map_filter_def)

lemma capacities_pos:
  assumes "\<not> options_invalid opts"
  shows "0 < nat (capacity_a opts)" "0 < nat (capacity_b opts)" "0 < nat (capacity_d opts)" "0 < nat (worker_threads opts)"
    "0 < nat (reader_threads opts)"
  using assms by (auto simp: options_invalid_def)

lemma init_reader_inv: "\<not> options_invalid opts \<Longrightarrow> reader_inv r (init_reader opts fd r c)"
  using reader_thread_plain capacities_pos [of opts]
  by (auto simp: reader_inv_def init_reader_def reader_pending_def list_all_iff split: option.splits)

lemma pipe_inv_init:
  assumes ok: "\<not> options_invalid opts" and n: "length contents = R"
  shows "pipe_inv R (init_pipeline opts fd contents)"
proof -
  let ?s = "init_pipeline opts fd contents"
  have eofs: "eofs_pushed (parser (init_reader opts fd r c)) = 0" for r c
    by (simp add: init_reader_def split: option.splits)
  have "flow_inv R ?s"
    using init_reader_inv [OF ok] capacities_pos [OF ok] n by (simp add: flow_inv_def init_pipeline_def list_all_iff)
  moreover have "order_inv ?s"
    by (auto simp: order_inv_def init_pipeline_def eofs stream_ok_def)
  moreover have "count_inv ?s"
    using n by (simp add: count_inv_def init_pipeline_def unsent_def eofs comp_def sum_list_triv)
  moreover have "post_inv ?s" "publish_inv ?s" "aggregator_inv ?s"
    by (simp_all add: post_inv_def publish_inv_def aggregator_inv_def init_pipeline_def init_region_b_def
        init_region_d_def init_analyzer_def init_result_def)
  moreover have "worker_inv ?s"
    by (auto simp: worker_inv_def init_pipeline_def init_analyzer_def at_barrier_def)
  ultimately show ?thesis by (simp add: pipe_inv_def)
qed

lemma pipe_inv_reach:
  assumes "preach opts s0 s" and "pipe_inv R s0" and "length (files opts) = R"
  shows "pipe_inv R s"
  using assms(1)
proof (induction rule: preach.induct)
  case (step s a s')
  then have "pmove opts s s'" using flow_pmove by (auto simp: pipe_inv_def)
  then show ?case using step pipe_inv_move assms(3) by blast
qed (rule assms(2))

end
