(* ===== verification/Log_Totals.thy ===== *)
theory Log_Totals
  imports Log_Eof
begin

text \<open>
  What the log pipeline computes: entries and scores are neither lost nor counted twice on their
  way from the files to the results, so the report holds the totals of the well-formed lines.
\<close>

section \<open>Values in flight\<close>

definition level_sum :: "(log_entry_t \<Rightarrow> int) \<Rightarrow> nat \<Rightarrow> log_entry_t list \<Rightarrow> int" where
  "level_sum g l xs = (\<Sum>x\<leftarrow>xs. if \<not> is_eof x \<and> level_index x = int l then g x else 0)"

abbreviation value_sum :: "(log_entry_t \<Rightarrow> int) \<Rightarrow> log_entry_t list \<Rightarrow> int" where
  "value_sum g xs \<equiv> sum_list (map g xs)"

lemma level_sum_simps [simp]:
  "level_sum g l [] = 0"
  "level_sum g l (x # xs) = (if \<not> is_eof x \<and> level_index x = int l then g x else 0) + level_sum g l xs"
  "level_sum g l (xs @ ys) = level_sum g l xs + level_sum g l ys"
  by (simp_all add: level_sum_def)

definition upstream_sum :: "(log_entry_t \<Rightarrow> int) \<Rightarrow> nat \<Rightarrow> pipeline \<Rightarrow> int" where
  "upstream_sum g l s =
     (\<Sum>rp\<leftarrow>readers s. level_sum g l (reader_pending rp)) + level_sum g l (ring_contents (region_a s)) +
     level_sum g l (route_hand (dispatcher s))"

definition hands_sum :: "(log_entry_t \<Rightarrow> int) \<Rightarrow> (worker_pc \<times> worker_state) list \<Rightarrow> int" where
  "hands_sum g wks = (\<Sum>x\<leftarrow>wks. value_sum g (worker_hand x))"

definition stock :: "(log_entry_t \<Rightarrow> int) \<Rightarrow> nat \<Rightarrow> pipeline \<Rightarrow> int" where
  "stock g l s =
     upstream_sum g l s + value_sum g (ring_contents (region_b s ! l)) + hands_sum g (workers (analyzers s ! l))"

lemma concat_update_sum:
  assumes "t < length xss" and "xss ! t = e # es"
  shows "level_sum g l (concat (xss[t := es])) + level_sum g l [e] = level_sum g l (concat xss)"
  using assms
proof (induction xss arbitrary: t)
  case (Cons xs xss)
  then show ?case by (cases t) auto
qed simp

lemma readers_sum_update:
  fixes h :: "reader_proc \<Rightarrow> int"
  assumes "r < length rs"
  shows "(\<Sum>rp\<leftarrow>rs[r := q]. h rp) = (\<Sum>rp\<leftarrow>rs. h rp) - h (rs ! r) + h q"
  using assms sum_list_map_update [of r rs h q] by simp

lemma hands_update:
  "w < length wks \<Longrightarrow> hands_sum g (wks[w := x]) = hands_sum g wks - value_sum g (worker_hand (wks ! w)) + value_sum g (worker_hand x)"
  unfolding hands_sum_def using sum_list_map_update [of w wks "\<lambda>x. value_sum g (worker_hand x)" x] by simp

text \<open>Only scoring an entry takes a value out of the stock.\<close>

definition score_move :: "program_options_t \<Rightarrow> pipeline \<Rightarrow> pipeline \<Rightarrow> bool" where
  "score_move opts s s' \<longleftrightarrow>
     (\<exists>k w e ws ws' t. k < 4 \<and> w < length (workers (analyzers s ! k)) \<and> workers (analyzers s ! k) ! w = (W_Score e, ws) \<and>
        worker_entry (int k) (keyword_list opts) e (ws, source_hits (analyzers s ! k)) = (ws', t) \<and>
        s' = set_analyzer k ((analyzers s ! k)\<lparr>workers := (workers (analyzers s ! k))[w := (W_Pop, ws')], source_hits := t\<rparr>) s)"

lemma stock_set_reader:
  assumes "r < length (readers s)"
  shows "stock g l (set_reader r rp s) =
    stock g l s - level_sum g l (reader_pending (readers s ! r)) + level_sum g l (reader_pending rp)"
  using assms by (simp add: stock_def upstream_sum_def set_reader_def readers_sum_update)

lemma stock_set_analyzer:
  assumes "k < length (analyzers s)"
  shows "stock g l (set_analyzer k an s) =
    stock g l s - (if l = k then hands_sum g (workers (analyzers s ! k)) - hands_sum g (workers an) else 0)"
  using assms by (simp add: stock_def upstream_sum_def set_analyzer_def nth_list_update)

lemma stock_move:
  assumes flow: "flow_inv R s" and move: "pmove opts s s'" and l: "l < 4"
    and no_score: "\<not> score_move opts s s'"
  shows "stock g l s' = stock g l s"
proof -
  have len: "length (analyzers s) = 4" "length (region_b s) = 4" using flow by (auto simp: flow_inv_def)
  show ?thesis
    using move
  proof cases
    case (thread_push r rp t e es b)
    then show ?thesis using concat_update_sum [of t "todo rp" e es g l]
      by (simp add: stock_set_reader reader_pending_def)
  next
    case (parser_push r rp e a)
    then show ?thesis by (simp add: stock_def upstream_sum_def set_reader_def readers_sum_update reader_pending_def)
  next
    case (parser_eof r rp k a)
    then show ?thesis by (simp add: stock_def upstream_sum_def set_reader_def readers_sum_update reader_pending_def)
  next
    case (disp_pop a e)
    then show ?thesis by (auto simp: stock_def upstream_sum_def)
  next
    case (disp_eof e)
    then have "nat (level_index e) < 4" using flow by (simp add: flow_inv_def entry_ok_def nat_less_iff)
    then show ?thesis using disp_eof l len
      by (auto simp: stock_def upstream_sum_def dispatch_eof_def Let_def nth_list_update)
  next
    case (disp_push_b e k b)
    then have "routable e" using flow by (simp add: flow_inv_def)
    then show ?thesis using disp_push_b len l by (auto simp: stock_def upstream_sum_def routable_def nth_list_update)
  next
    case (worker_end k an w ws)
    then show ?thesis by (auto simp: stock_set_analyzer hands_update)
  next
    case (worker_pop k an w ws b e)
    then show ?thesis using len
      by (auto simp: stock_def upstream_sum_def set_analyzer_def nth_list_update hands_update)
  next
    case (worker_score k an w e ws ws' t)
    then have "score_move opts s s'" unfolding score_move_def using len
      by (intro exI [of _ k] exI [of _ w] exI [of _ e] exI [of _ ws] exI [of _ ws'] exI [of _ t]) simp
    then show ?thesis using no_score by blast
  next
    case (worker_barrier k an w ws)
    then show ?thesis by (auto simp: stock_set_analyzer hands_update)
  next
    case (publish k an)
    then show ?thesis by (auto simp: stock_set_analyzer)
  next
    case (agg_wait k an)
    then show ?thesis using len
      by (cases "k < 4") (auto simp: stock_def upstream_sum_def set_analyzer_def nth_list_update list_update_beyond not_less)
  qed (simp_all add: stock_set_reader reader_pending_def, simp_all add: stock_def upstream_sum_def split: if_splits)
qed

section \<open>Exact scores\<close>

abbreviation dbl_max :: int where "dbl_max \<equiv> 9007199254740992"

definition kw_value :: "nat \<Rightarrow> string \<Rightarrow> log_entry_t \<Rightarrow> int" where
  "kw_value l kw e = count_overlapping_keyword (message e) kw * level_weight (int l)"

lemma level_weight_pos: "l < 4 \<Longrightarrow> 1 \<le> level_weight (int l)"
  by (auto simp: level_weight_def level_defs)

lemma kw_value_nonneg: "0 \<le> kw_value l kw e"
  by (simp add: kw_value_def count_overlapping_nonneg level_weight_nonneg)

lemma weighted_exact:
  assumes "l < 4" and "kw_value l kw e \<le> dbl_max"
  shows "dbl_mul (dbl (count_overlapping_keyword (message e) kw)) (dbl (level_weight (int l))) = kw_value l kw e"
proof -
  let ?c = "count_overlapping_keyword (message e) kw" and ?w = "level_weight (int l)"
  have w: "1 \<le> ?w" "?w \<le> 4" using level_weight_pos [OF assms(1)] level_weight_le by auto
  have c: "0 \<le> ?c" by (rule count_overlapping_nonneg)
  have "?c \<le> ?c * ?w" using c w(1) by (simp add: mult_le_cancel_left1)
  then have "dbl ?c = ?c" using assms(2) c by (intro dbl_exact) (simp add: kw_value_def)
  moreover have "dbl ?w = ?w" using w by (intro dbl_exact) simp
  moreover have "dbl (?c * ?w) = ?c * ?w"
    using assms(2) kw_value_nonneg [of l kw e] by (intro dbl_exact) (simp add: kw_value_def)
  ultimately show ?thesis by (simp add: dbl_mul_def kw_value_def)
qed

lemma score_keywords_exact:
  assumes "l < 4" and "length scs = length kws"
    and "\<forall>k<length kws. 0 \<le> scs ! k \<and> scs ! k + kw_value l (kws ! k) e \<le> dbl_max"
  shows "fst (score_keywords (int l) (message e) kws scs te tt) = map2 (\<lambda>kw sc. sc + kw_value l kw e) kws scs"
  using assms(2,3)
proof (induction "int l" "message e" kws scs te tt rule: score_keywords.induct)
  case (1 kw kws sc scs te tt)
  have b: "0 \<le> sc" "sc + kw_value l kw e \<le> dbl_max" using 1(4) by auto
  have tl: "\<forall>k<length kws. 0 \<le> scs ! k \<and> scs ! k + kw_value l (kws ! k) e \<le> dbl_max"
    using 1(4) by (metis Suc_less_eq length_Cons nth_Cons_Suc)
  have v: "0 \<le> kw_value l kw e" by (rule kw_value_nonneg)
  have w: "dbl_mul (dbl (count_overlapping_keyword (message e) kw)) (dbl (level_weight (int l))) = kw_value l kw e"
    using b v assms(1) by (intro weighted_exact) auto
  have a: "dbl_add sc (kw_value l kw e) = sc + kw_value l kw e"
    using b v by (simp add: dbl_add_def dbl_exact)
  show ?case
  proof (cases "count_overlapping_keyword (message e) kw > 0")
    case True
    then show ?thesis using 1(1) [OF refl True refl] 1(3) tl w a by (auto simp: Let_def split: prod.splits)
  next
    case False
    then have "kw_value l kw e = 0"
      using count_overlapping_nonneg [of "message e" kw] by (simp add: kw_value_def)
    then show ?thesis using False 1(2) [OF refl False] 1(3) tl by (auto simp: Let_def split: prod.splits)
  qed
qed simp_all

lemma add_scores_exact:
  assumes "length ss \<le> length ps" and "\<forall>k<length ss. 0 \<le> ss ! k \<and> 0 \<le> ps ! k \<and> ps ! k + ss ! k \<le> dbl_max"
    and "0 \<le> tot" and "tot + sum_list ss \<le> dbl_max"
  shows "add_scores ss ps tot = (map2 (+) ps ss @ drop (length ss) ps, tot + sum_list ss)"
  using assms
proof (induction ss ps tot rule: add_scores.induct)
  case (1 s ss p ps tot)
  have nn: "0 \<le> s" "0 \<le> p" "p + s \<le> dbl_max" using 1(3) by auto
  have tl: "\<forall>k<length ss. 0 \<le> ss ! k \<and> 0 \<le> ps ! k \<and> ps ! k + ss ! k \<le> dbl_max"
    using 1(3) by (metis Suc_less_eq length_Cons nth_Cons_Suc)
  have "0 \<le> sum_list ss" using tl by (intro sum_list_nonneg) (metis in_set_conv_nth)
  then have t: "dbl_add tot s = tot + s" using nn 1(4,5) by (simp add: dbl_add_def dbl_exact)
  have p: "dbl_add p s = p + s" using nn by (simp add: dbl_add_def dbl_exact)
  have "add_scores ss ps (tot + s) = (map2 (+) ps ss @ drop (length ss) ps, tot + s + sum_list ss)"
    using 1(1) 1(2,4,5) tl nn t by simp
  then show ?case using t p by (simp add: add.assoc)
qed simp_all

section \<open>The ledger of a level\<close>

definition open_sum :: "(worker_state \<Rightarrow> int) \<Rightarrow> (worker_pc \<times> worker_state) list \<Rightarrow> int" where
  "open_sum h wks = (\<Sum>x\<leftarrow>wks. if fst x = W_Done then 0 else h (snd x))"

definition kw_ledger :: "nat \<Rightarrow> analyzer \<Rightarrow> int" where
  "kw_ledger k an = open_sum (\<lambda>ws. scores ws ! k) (workers an) + per_keyword_score (level_result an) ! k"

definition entry_ledger :: "analyzer \<Rightarrow> int" where
  "entry_ledger an = open_sum entries_per_worker (workers an) + total_entries (level_result an)"

definition worker_ok :: "nat \<Rightarrow> worker_state \<Rightarrow> bool" where
  "worker_ok nk ws \<longleftrightarrow> length (scores ws) = nk \<and> (\<forall>k<nk. 0 \<le> scores ws ! k)"

definition analyzer_ok :: "nat \<Rightarrow> analyzer \<Rightarrow> bool" where
  "analyzer_ok nk an \<longleftrightarrow>
     workers an \<noteq> [] \<and> list_all (\<lambda>x. worker_ok nk (snd x)) (workers an) \<and>
     length (per_keyword_score (level_result an)) = 8 \<and>
     (\<forall>k<nk. 0 \<le> per_keyword_score (level_result an) ! k) \<and>
     total_weighted_score (level_result an) = sum_list (take nk (per_keyword_score (level_result an)))"

lemma open_sum_update:
  "w < length wks \<Longrightarrow> open_sum h (wks[w := x]) =
     open_sum h wks - (if fst (wks ! w) = W_Done then 0 else h (snd (wks ! w))) + (if fst x = W_Done then 0 else h (snd x))"
  unfolding open_sum_def using sum_list_map_update [of w wks "\<lambda>x. if fst x = W_Done then 0 else h (snd x)" x] by simp

lemma sum_list_ge_member: "(\<And>x. x \<in> set xs \<Longrightarrow> 0 \<le> f x) \<Longrightarrow> y \<in> set xs \<Longrightarrow> f y \<le> (\<Sum>x\<leftarrow>xs. (f x :: int))"
proof (induction xs)
  case (Cons a xs)
  have "0 \<le> (\<Sum>x\<leftarrow>xs. f x)" using Cons.prems(1) by (intro sum_list_nonneg) auto
  then show ?case using Cons by fastforce
qed simp

lemma level_sum_nonneg: "(\<And>x. 0 \<le> g x) \<Longrightarrow> 0 \<le> level_sum g l xs"
  by (induction xs) auto

lemma upstream_nonneg: "(\<And>x. 0 \<le> g x) \<Longrightarrow> 0 \<le> upstream_sum g l s"
  unfolding upstream_sum_def by (intro add_nonneg_nonneg sum_list_nonneg) (auto intro: level_sum_nonneg)

lemma value_sum_nonneg: "(\<And>x. 0 \<le> g x) \<Longrightarrow> 0 \<le> value_sum g xs"
  by (induction xs) auto

lemma stock_ge_hand:
  assumes "\<And>x. 0 \<le> g x" and "w < length (workers (analyzers s ! l))" and "workers (analyzers s ! l) ! w = (W_Score e, ws)"
  shows "g e \<le> stock g l s"
proof -
  have "(W_Score e, ws) \<in> set (workers (analyzers s ! l))" using assms(2,3) by (metis nth_mem)
  then have "g e \<le> hands_sum g (workers (analyzers s ! l))"
    unfolding hands_sum_def using value_sum_nonneg [OF assms(1)]
      sum_list_ge_member [of "workers (analyzers s ! l)" "\<lambda>x. value_sum g (worker_hand x)" "(W_Score e, ws)"]
    by simp
  moreover have "0 \<le> value_sum g (ring_contents (region_b s ! l))" using assms(1) by (rule value_sum_nonneg)
  ultimately show ?thesis using upstream_nonneg [of g l s] assms(1) unfolding stock_def by fastforce
qed

lemma stock_nonneg: "(\<And>x. 0 \<le> g x) \<Longrightarrow> 0 \<le> stock g l s"
  unfolding stock_def hands_sum_def using upstream_nonneg [of g l s]
  by (intro add_nonneg_nonneg value_sum_nonneg sum_list_nonneg) (auto simp: value_sum_nonneg simp del: worker_hand.simps)

text \<open>A worker's open score is part of the ledger.\<close>

lemma ledger_ge:
  assumes ok: "analyzer_ok nk an" and w: "w < length (workers an)" "workers an ! w = (pc, ws)" "pc \<noteq> W_Done" and k: "k < nk"
  shows "0 \<le> scores ws ! k" "0 \<le> per_keyword_score (level_result an) ! k"
    "scores ws ! k + per_keyword_score (level_result an) ! k \<le> kw_ledger k an"
proof -
  let ?f = "\<lambda>x. if fst x = W_Done then 0 else scores (snd x) ! k"
  have mem: "(pc, ws) \<in> set (workers an)" using w by (metis nth_mem)
  have "0 \<le> ?f x" if "x \<in> set (workers an)" for x
    using ok that k by (auto simp: analyzer_ok_def list_all_iff worker_ok_def)
  then have "?f (pc, ws) \<le> open_sum (\<lambda>ws. scores ws ! k) (workers an)"
    unfolding open_sum_def using mem by (intro sum_list_ge_member) auto
  then show "scores ws ! k + per_keyword_score (level_result an) ! k \<le> kw_ledger k an"
    using w(3) by (simp add: kw_ledger_def)
  show "0 \<le> scores ws ! k" "0 \<le> per_keyword_score (level_result an) ! k"
    using ok mem k by (auto simp: analyzer_ok_def list_all_iff worker_ok_def)
qed

lemma sum_map2_add:
  "length ss \<le> length ps \<Longrightarrow> sum_list (map2 (+) ps ss) = sum_list (take (length ss) ps) + sum_list (ss :: int list)"
proof (induction ss arbitrary: ps)
  case (Cons a ss)
  then show ?case by (cases ps) auto
qed simp

lemma sum_take_nth: "n \<le> length xs \<Longrightarrow> sum_list (take n xs) = (\<Sum>k<n. xs ! k :: int)"
  by (simp add: sum_list_sum_nth atLeast0LessThan)

lemma nth_map2_add_append:
  "k < length ss \<Longrightarrow> length ss \<le> length ps \<Longrightarrow> (map2 (+) ps ss @ drop n ps) ! k = ps ! k + ss ! k"
  by (simp add: nth_append)

text \<open>When a worker passes the barrier, its scores move into the result and the ledger is unchanged.\<close>

lemma tls_destructor_ledger:
  assumes ok: "analyzer_ok nk an" and nk: "nk \<le> 8" and w: "w < length (workers an)" "workers an ! w = (W_Barrier, ws)"
    and bound: "(\<Sum>k<nk. kw_ledger k an) \<le> dbl_max"
    and an': "an' = an\<lparr>workers := (workers an)[w := (W_Done, ws)], level_result := tls_destructor w ws (level_result an)\<rparr>"
  shows "analyzer_ok nk an'" "k < nk \<Longrightarrow> kw_ledger k an' = kw_ledger k an" "entry_ledger an' = entry_ledger an"
proof -
  let ?res = "level_result an"
  let ?ps = "per_keyword_score ?res"
  have mem: "(W_Barrier, ws) \<in> set (workers an)" using w by (metis nth_mem)
  have len: "length (scores ws) = nk" "length ?ps = 8"
    using ok mem by (auto simp: analyzer_ok_def list_all_iff worker_ok_def)
  have le: "0 \<le> scores ws ! k" "0 \<le> ?ps ! k" "scores ws ! k + ?ps ! k \<le> kw_ledger k an" if "k < nk" for k
    using ledger_ge [OF ok w _ that] by auto
  have each: "?ps ! k + scores ws ! k \<le> dbl_max" if "k < nk" for k
  proof -
    have "kw_ledger k an \<le> (\<Sum>k<nk. kw_ledger k an)"
      using that le by (intro member_le_sum) (auto intro: order_trans [OF add_nonneg_nonneg])
    then show ?thesis using le(3) [OF that] bound by linarith
  qed
  have tw: "total_weighted_score ?res = (\<Sum>k<nk. ?ps ! k)"
    using ok nk len by (simp add: analyzer_ok_def sum_take_nth)
  have ss: "sum_list (scores ws) = (\<Sum>k<nk. scores ws ! k)" using len by (simp add: sum_list_sum_nth atLeast0LessThan)
  have "total_weighted_score ?res + sum_list (scores ws) = (\<Sum>k<nk. scores ws ! k + ?ps ! k)"
    by (simp add: tw ss sum.distrib)
  also have "\<dots> \<le> (\<Sum>k<nk. kw_ledger k an)" using le by (intro sum_mono) auto
  finally have tot: "total_weighted_score ?res + sum_list (scores ws) \<le> dbl_max" using bound by linarith
  have "0 \<le> total_weighted_score ?res" unfolding tw using le by (intro sum_nonneg) auto
  then have add: "add_scores (scores ws) ?ps (total_weighted_score ?res) =
      (map2 (+) ?ps (scores ws) @ drop nk ?ps, total_weighted_score ?res + sum_list (scores ws))"
    using add_scores_exact [of "scores ws" ?ps] len nk le each tot by simp
  have res': "per_keyword_score (level_result an') = map2 (+) ?ps (scores ws) @ drop nk ?ps"
    "total_weighted_score (level_result an') = total_weighted_score ?res + sum_list (scores ws)"
    "total_entries (level_result an') = total_entries ?res + entries_per_worker ws"
    using add by (simp_all add: an' tls_destructor_def)
  have nth: "(map2 (+) ?ps (scores ws) @ drop nk ?ps) ! k = ?ps ! k + scores ws ! k" if "k < nk" for k
    using nth_map2_add_append [of k "scores ws" ?ps nk] that len nk by simp
  have "list_all (\<lambda>x. worker_ok nk (snd x)) (workers an')"
    using ok mem by (auto simp: an' analyzer_ok_def list_all_iff dest!: set_update_cases)
  moreover have "workers an' \<noteq> []" using mem by (auto simp: an')
  ultimately show "analyzer_ok nk an'"
    using res' len nk le nth sum_map2_add [of "scores ws" ?ps] ok by (simp add: analyzer_ok_def)
  show "kw_ledger k an' = kw_ledger k an" if "k < nk"
    using res' nth [OF that] w by (simp add: kw_ledger_def an' open_sum_update)
  show "entry_ledger an' = entry_ledger an"
    using res' w by (simp add: entry_ledger_def an' open_sum_update)
qed

text \<open>Scoring an entry adds its values to the ledger.\<close>

lemma worker_entry_ledger:
  assumes ok: "analyzer_ok nk an" and l: "l < 4" and nk: "nk = length kws"
    and w: "w < length (workers an)" "workers an ! w = (W_Score e, ws)"
    and bound: "\<And>k. k < nk \<Longrightarrow> kw_value l (kws ! k) e + kw_ledger k an \<le> dbl_max"
    and step: "worker_entry (int l) kws e (ws, source_hits an) = (ws', t)"
    and an': "an' = an\<lparr>workers := (workers an)[w := (W_Pop, ws')], source_hits := t\<rparr>"
  shows "analyzer_ok nk an'" "k < nk \<Longrightarrow> kw_ledger k an' = kw_ledger k an + kw_value l (kws ! k) e"
    "entry_ledger an' = entry_ledger an + 1"
proof -
  have mem: "(W_Score e, ws) \<in> set (workers an)" using w by (metis nth_mem)
  have len: "length (scores ws) = length kws" using ok mem nk by (auto simp: analyzer_ok_def list_all_iff worker_ok_def)
  have le: "0 \<le> scores ws ! k \<and> scores ws ! k + kw_value l (kws ! k) e \<le> dbl_max" if "k < nk" for k
    using ledger_ge [OF ok w _ that] bound [OF that] by fastforce
  have ws': "scores ws' = map2 (\<lambda>kw sc. sc + kw_value l kw e) kws (scores ws)"
    "entries_per_worker ws' = entries_per_worker ws + 1"
    using step score_keywords_exact [OF l len, of e 0 "thread_total ws"] le nk
    by (auto simp: worker_entry_def split: prod.splits)
  then have sc: "scores ws' ! k = scores ws ! k + kw_value l (kws ! k) e" if "k < nk" for k
    using that len nk by simp
  have "worker_ok nk ws'" using ws'(1) sc len nk le kw_value_nonneg [of l _ e] by (auto simp: worker_ok_def)
  then show "analyzer_ok nk an'"
    using ok by (auto simp: an' analyzer_ok_def list_all_iff dest!: set_update_cases)
  show "kw_ledger k an' = kw_ledger k an + kw_value l (kws ! k) e" if "k < nk"
    using sc [OF that] w by (simp add: kw_ledger_def an' open_sum_update)
  show "entry_ledger an' = entry_ledger an + 1"
    using ws'(2) w by (simp add: entry_ledger_def an' open_sum_update)
qed

section \<open>Totals per level\<close>

definition totals_inv :: "program_options_t \<Rightarrow> (nat \<Rightarrow> nat \<Rightarrow> int) \<Rightarrow> (nat \<Rightarrow> int) \<Rightarrow> pipeline \<Rightarrow> bool" where
  "totals_inv opts T N s \<longleftrightarrow>
     (\<forall>l<4. analyzer_ok (length (keyword_list opts)) (analyzers s ! l) \<and>
        (\<forall>k<length (keyword_list opts). stock (kw_value l (keyword_list opts ! k)) l s + kw_ledger k (analyzers s ! l) = T l k) \<and>
        stock (\<lambda>_. 1) l s + entry_ledger (analyzers s ! l) = N l)"

lemma totals_invD:
  assumes "totals_inv opts T N s" and "l < 4"
  shows "analyzer_ok (length (keyword_list opts)) (analyzers s ! l)"
    "k < length (keyword_list opts) \<Longrightarrow> stock (kw_value l (keyword_list opts ! k)) l s + kw_ledger k (analyzers s ! l) = T l k"
    "stock (\<lambda>_. 1) l s + entry_ledger (analyzers s ! l) = N l"
  using assms by (auto simp: totals_inv_def)

lemma totals_inv_keep:
  assumes inv: "totals_inv opts T N s" and stock: "\<And>g l. l < 4 \<Longrightarrow> stock g l s' = stock g l s"
    and an: "\<And>l. l < 4 \<Longrightarrow> analyzer_ok (length (keyword_list opts)) (analyzers s' ! l) \<and>
        (\<forall>k<length (keyword_list opts). kw_ledger k (analyzers s' ! l) = kw_ledger k (analyzers s ! l)) \<and>
        entry_ledger (analyzers s' ! l) = entry_ledger (analyzers s ! l)"
  shows "totals_inv opts T N s'"
  using inv an stock unfolding totals_inv_def by auto

text \<open>Analyzer updates that leave the ledger alone.\<close>

lemma analyzer_same_ledger:
  assumes "analyzer_ok nk an" and "w < length (workers an)" and "workers an ! w = (pc, ws)" and "pc \<noteq> W_Done" and "pc' \<noteq> W_Done"
    and "an' = an\<lparr>workers := (workers an)[w := (pc', ws)]\<rparr>"
  shows "analyzer_ok nk an'" "kw_ledger k an' = kw_ledger k an" "entry_ledger an' = entry_ledger an"
proof -
  have "(pc, ws) \<in> set (workers an)" using assms(2,3) by (metis nth_mem)
  then show "analyzer_ok nk an'" "kw_ledger k an' = kw_ledger k an" "entry_ledger an' = entry_ledger an"
    using assms by (auto simp: analyzer_ok_def list_all_iff kw_ledger_def entry_ledger_def open_sum_update dest!: set_update_cases)
qed

lemma publish_same_ledger:
  "analyzer_ok nk (an\<lparr>level_result := (compute_top3 t (level_result an))\<lparr>ready := b\<rparr>\<rparr>) = analyzer_ok nk an"
  "kw_ledger k (an\<lparr>level_result := (compute_top3 t (level_result an))\<lparr>ready := b\<rparr>\<rparr>) = kw_ledger k an"
  "entry_ledger (an\<lparr>level_result := (compute_top3 t (level_result an))\<lparr>ready := b\<rparr>\<rparr>) = entry_ledger an"
  by (simp_all add: analyzer_ok_def kw_ledger_def entry_ledger_def)

lemma semaphore_same_ledger [simp]:
  "analyzer_ok nk (an\<lparr>level_ready := n\<rparr>) = analyzer_ok nk an" "kw_ledger k (an\<lparr>level_ready := n\<rparr>) = kw_ledger k an"
  "entry_ledger (an\<lparr>level_ready := n\<rparr>) = entry_ledger an"
  by (simp_all add: analyzer_ok_def kw_ledger_def entry_ledger_def)

lemma ledger_bound:
  assumes inv: "totals_inv opts T N s" and l: "l < 4" and "(\<Sum>k<length (keyword_list opts). T l k) \<le> dbl_max"
  shows "(\<Sum>k<length (keyword_list opts). kw_ledger k (analyzers s ! l)) \<le> dbl_max"
proof -
  have "kw_ledger k (analyzers s ! l) \<le> T l k" if "k < length (keyword_list opts)" for k
    using totals_invD(2) [OF inv l that] stock_nonneg [of "kw_value l (keyword_list opts ! k)" l s] kw_value_nonneg
    by fastforce
  then have "(\<Sum>k<length (keyword_list opts). kw_ledger k (analyzers s ! l)) \<le> (\<Sum>k<length (keyword_list opts). T l k)"
    by (intro sum_mono) auto
  then show ?thesis using assms(3) by linarith
qed

lemma kw_ledger_nonneg: "analyzer_ok nk an \<Longrightarrow> k < nk \<Longrightarrow> 0 \<le> kw_ledger k an"
  unfolding kw_ledger_def open_sum_def
  by (intro add_nonneg_nonneg sum_list_nonneg) (auto simp: analyzer_ok_def list_all_iff worker_ok_def)

lemma total_bound_each:
  assumes inv: "totals_inv opts T N s" and l: "l < 4" and k: "k < length (keyword_list opts)"
    and "(\<Sum>k<length (keyword_list opts). T l k) \<le> dbl_max"
  shows "T l k \<le> dbl_max"
proof -
  have "0 \<le> T l j" if "j < length (keyword_list opts)" for j
    using totals_invD(2) [OF inv l that] kw_ledger_nonneg [OF totals_invD(1) [OF inv l] that]
      stock_nonneg [of "kw_value l (keyword_list opts ! j)" l s] kw_value_nonneg by fastforce
  then have "T l k \<le> (\<Sum>k<length (keyword_list opts). T l k)" using k by (intro member_le_sum) auto
  then show ?thesis using assms(4) by linarith
qed

lemma totals_inv_score:
  assumes inv: "totals_inv opts T N s" and flow: "flow_inv R s" and move: "score_move opts s s'"
    and bound: "\<And>l. l < 4 \<Longrightarrow> (\<Sum>k<length (keyword_list opts). T l k) \<le> dbl_max"
  shows "totals_inv opts T N s'"
proof -
  let ?kws = "keyword_list opts"
  obtain j w e ws ws' t where j: "j < 4" and w: "w < length (workers (analyzers s ! j))" "workers (analyzers s ! j) ! w = (W_Score e, ws)"
    and step: "worker_entry (int j) ?kws e (ws, source_hits (analyzers s ! j)) = (ws', t)"
    and s': "s' = set_analyzer j ((analyzers s ! j)\<lparr>workers := (workers (analyzers s ! j))[w := (W_Pop, ws')], source_hits := t\<rparr>) s"
    using move by (auto simp: score_move_def)
  let ?an' = "(analyzers s ! j)\<lparr>workers := (workers (analyzers s ! j))[w := (W_Pop, ws')], source_hits := t\<rparr>"
  have len: "length (analyzers s) = 4" using flow by (auto simp: flow_inv_def)
  have "kw_value j (?kws ! k) e + kw_ledger k (analyzers s ! j) \<le> dbl_max" if "k < length ?kws" for k
    using stock_ge_hand [of "kw_value j (?kws ! k)", OF kw_value_nonneg w] totals_invD(2) [OF inv j that]
      total_bound_each [OF inv j that bound [OF j]] by linarith
  note led = worker_entry_ledger [OF totals_invD(1) [OF inv j] j refl w this step refl]
  have st: "stock g l s' = stock g l s - (if l = j then g e else 0)" for g l
    unfolding s' using j w len by (simp add: stock_set_analyzer hands_update)
  have an: "analyzers s' ! l = (if l = j then ?an' else analyzers s ! l)" if "l < 4" for l
    unfolding s' using j len that by (simp add: set_analyzer_def nth_list_update)
  show ?thesis
    unfolding totals_inv_def
  proof (intro allI impI)
    fix l assume l: "l < (4::nat)"
    show "analyzer_ok (length ?kws) (analyzers s' ! l) \<and>
        (\<forall>k<length ?kws. stock (kw_value l (?kws ! k)) l s' + kw_ledger k (analyzers s' ! l) = T l k) \<and>
        stock (\<lambda>_. 1) l s' + entry_ledger (analyzers s' ! l) = N l"
      using totals_invD [OF inv l] led an [OF l] st by auto
  qed
qed

lemma totals_inv_set_analyzer:
  assumes inv: "totals_inv opts T N s" and stock: "\<And>g l. l < 4 \<Longrightarrow> stock g l s' = stock g l s"
    and len: "length (analyzers s) = 4" and ans: "analyzers s' = (analyzers s)[j := an']" and j: "j < 4"
    and led: "analyzer_ok (length (keyword_list opts)) an'"
      "\<And>k. k < length (keyword_list opts) \<Longrightarrow> kw_ledger k an' = kw_ledger k (analyzers s ! j)"
      "entry_ledger an' = entry_ledger (analyzers s ! j)"
  shows "totals_inv opts T N s'"
proof (rule totals_inv_keep [OF inv stock])
  fix l assume l: "l < (4::nat)"
  show "analyzer_ok (length (keyword_list opts)) (analyzers s' ! l) \<and>
        (\<forall>k<length (keyword_list opts). kw_ledger k (analyzers s' ! l) = kw_ledger k (analyzers s ! l)) \<and>
        entry_ledger (analyzers s' ! l) = entry_ledger (analyzers s ! l)"
    using totals_invD(1) [OF inv l] led l j len by (cases "l = j") (simp_all add: ans)
qed

lemma totals_inv_move:
  assumes inv: "totals_inv opts T N s" and flow: "flow_inv R s" and move: "pmove opts s s'"
    and bound: "\<And>l. l < 4 \<Longrightarrow> (\<Sum>k<length (keyword_list opts). T l k) \<le> dbl_max"
    and nk: "length (keyword_list opts) \<le> 8"
  shows "totals_inv opts T N s'"
proof (cases "score_move opts s s'")
  case True
  then show ?thesis using totals_inv_score [OF inv flow _ bound] by blast
next
  case no_score: False
  note stock = stock_move [OF flow move _ no_score]
  have len: "length (analyzers s) = 4" using flow by (auto simp: flow_inv_def)
  note upd = totals_inv_set_analyzer [OF inv stock len]
  have same: "totals_inv opts T N s'" if "analyzers s' = analyzers s"
    using totals_inv_keep [OF inv stock] totals_invD(1) [OF inv] that by simp
  show ?thesis
    using move
  proof cases
    case (worker_end j an w ws)
    then show ?thesis
      using analyzer_same_ledger [OF totals_invD(1) [OF inv], of j w W_Pop ws W_Barrier] len
      by (intro upd [where j = j and an' = "an\<lparr>workers := (workers an)[w := (W_Barrier, ws)]\<rparr>"]) (auto simp: set_analyzer_def)
  next
    case (worker_pop j an w ws b e)
    then show ?thesis
      using analyzer_same_ledger [OF totals_invD(1) [OF inv], of j w W_Pop ws "W_Score e"] len
      by (intro upd [where j = j and an' = "an\<lparr>workers := (workers an)[w := (W_Score e, ws)]\<rparr>"]) (auto simp: set_analyzer_def)
  next
    case (worker_score j an w e ws ws' t)
    then have "score_move opts s s'" unfolding score_move_def using len
      by (intro exI [of _ j] exI [of _ w] exI [of _ e] exI [of _ ws] exI [of _ ws'] exI [of _ t]) simp
    then show ?thesis using no_score by blast
  next
    case (worker_barrier j an w ws)
    then have j: "j < 4" using len by simp
    note led = tls_destructor_ledger [OF totals_invD(1) [OF inv j] nk _ _ ledger_bound [OF inv j bound [OF j]] refl, of w ws]
    show ?thesis using worker_barrier j led
      by (intro upd [where j = j and an' = "an\<lparr>workers := (workers an)[w := (W_Done, ws)],
            level_result := tls_destructor w ws (level_result an)\<rparr>"]) (auto simp: set_analyzer_def)
  next
    case (publish j an)
    then show ?thesis using totals_invD(1) [OF inv, of j] len
      by (intro upd [where j = j and an' = "an\<lparr>level_result := (compute_top3 (source_hits an) (level_result an))\<lparr>ready := True\<rparr>,
            level_ready := level_ready an + 1\<rparr>"]) (auto simp: set_analyzer_def publish_same_ledger)
  next
    case (agg_wait j an)
    show ?thesis
    proof (cases "j < 4")
      case True
      then show ?thesis using agg_wait totals_invD(1) [OF inv True]
        by (intro upd [where j = j and an' = "an\<lparr>level_ready := level_ready an - 1\<rparr>"]) (auto simp: set_analyzer_def)
    next
      case False
      then show ?thesis using agg_wait len by (intro same) (simp add: set_analyzer_def list_update_beyond)
    qed
  qed ((rule same, simp add: set_reader_def dispatch_eof_def Let_def)+)
qed

section \<open>The high-priority score\<close>

definition hp_value :: "program_options_t \<Rightarrow> log_entry_t \<Rightarrow> int" where
  "hp_value opts e = (\<Sum>kw\<leftarrow>keyword_list opts. count_overlapping_keyword (message e) kw * level_weight (level_index e))"

definition is_hp :: "program_options_t \<Rightarrow> log_entry_t \<Rightarrow> bool" where
  "is_hp opts e \<longleftrightarrow> \<not> is_eof e \<and> source_is_priority (priority_sources opts) (source e)"

definition hp_sum :: "program_options_t \<Rightarrow> (log_entry_t \<Rightarrow> int) \<Rightarrow> log_entry_t list \<Rightarrow> int" where
  "hp_sum opts g xs = (\<Sum>x\<leftarrow>xs. if is_hp opts x then g x else 0)"

fun score_hand :: "aggregator_pc \<Rightarrow> log_entry_t list" where
  "score_hand (G_Score e) = [e]"
| "score_hand _ = []"

definition hp_stock :: "program_options_t \<Rightarrow> (log_entry_t \<Rightarrow> int) \<Rightarrow> pipeline \<Rightarrow> int" where
  "hp_stock opts g s =
     (\<Sum>rp\<leftarrow>readers s. hp_sum opts g (reader_pending rp)) + hp_sum opts g (ring_contents (region_a s)) +
     hp_sum opts g (route_hand (dispatcher s)) + value_sum g (priority_hand (dispatcher s)) +
     value_sum g (ring_contents (region_d s)) + value_sum g (score_hand (aggregator s))"

definition hp_inv :: "program_options_t \<Rightarrow> int \<Rightarrow> int \<Rightarrow> pipeline \<Rightarrow> bool" where
  "hp_inv opts T N s \<longleftrightarrow>
     list_all routable (ring_contents (region_d s) @ score_hand (aggregator s)) \<and>
     0 \<le> fst (high_priority s) \<and>
     hp_stock opts (hp_value opts) s + fst (high_priority s) = T \<and> hp_stock opts (\<lambda>_. 1) s + snd (high_priority s) = N"

lemma hp_sum_simps [simp]:
  "hp_sum opts g [] = 0" "hp_sum opts g (x # xs) = (if is_hp opts x then g x else 0) + hp_sum opts g xs"
  "hp_sum opts g (xs @ ys) = hp_sum opts g xs + hp_sum opts g ys"
  by (simp_all add: hp_sum_def)

lemma concat_update_hp:
  assumes "t < length xss" and "xss ! t = e # es"
  shows "hp_sum opts g (concat (xss[t := es])) + hp_sum opts g [e] = hp_sum opts g (concat xss)"
  using assms
proof (induction xss arbitrary: t)
  case (Cons xs xss)
  then show ?case by (cases t) auto
qed simp

lemma hp_value_nonneg: "0 \<le> hp_value opts e"
  unfolding hp_value_def by (intro sum_list_nonneg) (auto simp: count_overlapping_nonneg level_weight_nonneg)

lemma hp_sum_nonneg: "(\<And>x. 0 \<le> g x) \<Longrightarrow> 0 \<le> hp_sum opts g xs"
  by (induction xs) auto

definition hp_move :: "program_options_t \<Rightarrow> pipeline \<Rightarrow> pipeline \<Rightarrow> bool" where
  "hp_move opts s s' \<longleftrightarrow>
     (\<exists>e. aggregator s = G_Score e \<and>
        s' = s\<lparr>high_priority := aggregate_entry (keyword_list opts) e (high_priority s), aggregator := G_Drain\<rparr>)"

lemma hp_sum_plain: "\<not> is_hp opts e \<Longrightarrow> hp_sum opts g [e] = 0"
  by simp

lemma hp_stock_set_reader:
  assumes "r < length (readers s)"
  shows "hp_stock opts g (set_reader r rp s) =
    hp_stock opts g s - hp_sum opts g (reader_pending (readers s ! r)) + hp_sum opts g (reader_pending rp)"
  using assms by (simp add: hp_stock_def set_reader_def readers_sum_update)

lemma hp_stock_move:
  assumes flow: "flow_inv R s" and move: "pmove opts s s'" and no_score: "\<not> hp_move opts s s'"
  shows "hp_stock opts g s' = hp_stock opts g s"
  using move
proof cases
  case (thread_push r rp t e es b)
  then show ?thesis using concat_update_hp [of t "todo rp" e es opts g]
    by (simp add: hp_stock_set_reader reader_pending_def)
next
  case (parser_push r rp e a)
  then show ?thesis by (simp add: hp_stock_def set_reader_def readers_sum_update reader_pending_def)
next
  case (parser_eof r rp l a)
  then show ?thesis by (simp add: hp_stock_def set_reader_def readers_sum_update reader_pending_def is_hp_def)
next
  case (disp_pop a e)
  then show ?thesis by (auto simp: hp_stock_def is_hp_def)
next
  case (disp_eof e)
  then show ?thesis by (auto simp: hp_stock_def dispatch_eof_def Let_def)
next
  case (disp_push_b e l b)
  then have "routable e" using flow by (simp add: flow_inv_def)
  then show ?thesis using disp_push_b by (auto simp: hp_stock_def is_hp_def routable_def)
next
  case (agg_score e)
  then show ?thesis using no_score by (auto simp: hp_move_def)
qed (simp_all add: hp_stock_set_reader reader_pending_def, simp_all add: hp_stock_def set_analyzer_def split: if_splits)

lemma high_priority_exact:
  assumes "routable e" and "0 \<le> sc"
    and "sc + (\<Sum>kw\<leftarrow>kws. count_overlapping_keyword (message e) kw * level_weight (level_index e)) \<le> dbl_max"
  shows "high_priority_hits kws e sc = sc + (\<Sum>kw\<leftarrow>kws. count_overlapping_keyword (message e) kw * level_weight (level_index e))"
  using assms(2,3) unfolding high_priority_hits_def
proof (induction kws arbitrary: sc)
  case (Cons kw kws)
  obtain l where l: "l < 4" "level_index e = int l" using assms(1) by (auto simp: routable_def intro: that [of "nat (level_index e)"])
  let ?v = "count_overlapping_keyword (message e) kw * level_weight (level_index e)"
  let ?r = "\<Sum>kw\<leftarrow>kws. count_overlapping_keyword (message e) kw * level_weight (level_index e)"
  have nn: "0 \<le> ?v" "0 \<le> ?r"
    by (auto intro!: sum_list_nonneg simp: count_overlapping_nonneg level_weight_nonneg)
  then have "dbl_mul (dbl (count_overlapping_keyword (message e) kw)) (dbl (level_weight (level_index e))) = ?v"
    using weighted_exact [OF l(1), of kw e] Cons.prems l(2) by (simp add: kw_value_def)
  moreover have "dbl_add sc ?v = sc + ?v" using Cons.prems nn by (simp add: dbl_add_def dbl_exact)
  ultimately show ?case using Cons.IH [of "sc + ?v"] Cons.prems nn by simp
qed simp

lemma hp_stock_ge_hand:
  assumes "\<And>x. 0 \<le> g x" and "aggregator s = G_Score e"
  shows "g e \<le> hp_stock opts g s"
proof -
  have "0 \<le> (\<Sum>rp\<leftarrow>readers s. hp_sum opts g (reader_pending rp))"
    using hp_sum_nonneg [of g, OF assms(1)] by (intro sum_list_nonneg) auto
  then show ?thesis
    using hp_sum_nonneg [of g opts "ring_contents (region_a s)", OF assms(1)]
      hp_sum_nonneg [of g opts "route_hand (dispatcher s)", OF assms(1)]
      value_sum_nonneg [of g "priority_hand (dispatcher s)", OF assms(1)]
      value_sum_nonneg [of g "ring_contents (region_d s)", OF assms(1)] assms(2)
    unfolding hp_stock_def by simp
qed

lemma hp_inv_move:
  assumes inv: "hp_inv opts T N s" and flow: "flow_inv R s" and move: "pmove opts s s'" and bound: "T \<le> dbl_max"
  shows "hp_inv opts T N s'"
proof (cases "hp_move opts s s'")
  case True
  then obtain e where e: "aggregator s = G_Score e"
    and s': "s' = s\<lparr>high_priority := aggregate_entry (keyword_list opts) e (high_priority s), aggregator := G_Drain\<rparr>"
    by (auto simp: hp_move_def)
  have ok: "routable e" "0 \<le> fst (high_priority s)" using inv e by (auto simp: hp_inv_def)
  have st: "hp_stock opts g s' = hp_stock opts g s - g e" for g
    using e by (simp add: s' hp_stock_def)
  have "fst (high_priority s) + hp_value opts e \<le> dbl_max"
    using hp_stock_ge_hand [of "hp_value opts" s e opts, OF hp_value_nonneg e] inv bound by (auto simp: hp_inv_def)
  then have "high_priority_hits (keyword_list opts) e (fst (high_priority s)) = fst (high_priority s) + hp_value opts e"
    using high_priority_exact [OF ok] by (simp add: hp_value_def)
  then have "high_priority s' = (fst (high_priority s) + hp_value opts e, snd (high_priority s) + 1)"
    using ok by (simp add: s' aggregate_entry_def routable_def)
  then show ?thesis using inv st hp_value_nonneg [of opts e] by (simp add: hp_inv_def s' e)
next
  case False
  note st = hp_stock_move [OF flow move False]
  show ?thesis
    using move
  proof cases
    case (disp_push_d e d)
    then have "routable e" using flow by (simp add: flow_inv_def)
    then show ?thesis using inv st disp_push_d by (simp add: hp_inv_def)
  next
    case (agg_score e)
    then show ?thesis using False by (auto simp: hp_move_def)
  qed (use inv st in \<open>simp_all add: hp_inv_def set_reader_def set_analyzer_def dispatch_eof_def Let_def\<close>)
qed

end
