(* ===== verification/Log_Correct.thy ===== *)
theory Log_Correct
  imports Log_Totals
begin

text \<open>
  The results of the log analyser: what the report holds when the aggregator has ended, what
  happens when a log file cannot be read, and the timeout of the dispatcher.
\<close>

section \<open>The reference result\<close>

text \<open>The entries of a file and of all files: its well-formed lines, in order.\<close>

definition file_entries :: "string \<Rightarrow> log_entry_t list" where
  "file_entries f = List.map_filter (\<lambda>l. parse_log_line (c_str l)) (map snd (lines_from f 0))"

definition all_entries :: "string option list \<Rightarrow> log_entry_t list" where
  "all_entries contents = concat (map (\<lambda>c. case c of None \<Rightarrow> [] | Some f \<Rightarrow> file_entries f) contents)"

definition level_entries :: "nat \<Rightarrow> string option list \<Rightarrow> log_entry_t list" where
  "level_entries l contents = filter (\<lambda>e. level_index e = int l) (all_entries contents)"

definition priority_entries :: "program_options_t \<Rightarrow> string option list \<Rightarrow> log_entry_t list" where
  "priority_entries opts contents =
     filter (\<lambda>e. source_is_priority (priority_sources opts) (source e)) (all_entries contents)"

lemma map_filter_concat: "List.map_filter p (concat xss) = concat (map (List.map_filter p) xss)"
  by (induction xss) (simp_all add: map_filter_simps List.map_filter_def)

lemma init_reader_entries:
  assumes "0 < nat (reader_threads opts)"
  shows "reader_pending (init_reader opts fd r c) =
    map (\<lambda>e. e\<lparr>reader_id := int r\<rparr>) (case c of None \<Rightarrow> [] | Some f \<Rightarrow> file_entries f)"
proof (cases c)
  case (Some f)
  let ?args = "thread_args (length f) (nat (reader_threads opts))"
  have lines: "lines_from f 0 = concat (map (reader_thread_lines f) ?args)"
    using thread_lines_concat [OF assms, of f] by simp
  have "file_entries f =
      concat (map (\<lambda>ctx. List.map_filter (\<lambda>l. parse_log_line (c_str l)) (map snd (reader_thread_lines f ctx))) ?args)"
    unfolding file_entries_def lines by (simp add: map_concat map_filter_concat comp_def)
  then show ?thesis
    by (simp add: Some init_reader_def reader_pending_def reader_thread_entries map_concat comp_def)
qed (simp add: init_reader_def reader_pending_def)

lemma file_entries_routable: "e \<in> set (file_entries f) \<Longrightarrow> routable e"
  using parse_log_line_routable by (auto simp: file_entries_def List.map_filter_def)

lemma all_entries_routable: "e \<in> set (all_entries contents) \<Longrightarrow> routable e"
  using file_entries_routable by (auto simp: all_entries_def split: option.splits)

lemma level_sum_filter:
  assumes "\<And>e x. g (e\<lparr>reader_id := x\<rparr>) = g e" and "list_all routable es"
  shows "level_sum g l (map (\<lambda>e. e\<lparr>reader_id := x\<rparr>) es) = value_sum g (filter (\<lambda>e. level_index e = int l) es)"
  using assms by (induction es) (auto simp: routable_def)

lemma hp_sum_filter:
  assumes "\<And>e x. g (e\<lparr>reader_id := x\<rparr>) = g e" and "list_all routable es"
  shows "hp_sum opts g (map (\<lambda>e. e\<lparr>reader_id := x\<rparr>) es) =
    value_sum g (filter (\<lambda>e. source_is_priority (priority_sources opts) (source e)) es)"
  using assms by (induction es) (auto simp: routable_def is_hp_def)

lemma value_sum_concat: "value_sum g (concat xss) = (\<Sum>xs\<leftarrow>xss. value_sum g xs)"
  by (induction xss) auto

lemma sum_over_index: "(\<Sum>r\<leftarrow>[0..<length xs]. (k (xs ! r) :: int)) = (\<Sum>x\<leftarrow>xs. k x)"
proof -
  have "map (\<lambda>r. k (xs ! r)) [0..<length xs] = map k xs" by (metis map_map map_nth comp_def map_eq_conv)
  then show ?thesis by (rule arg_cong)
qed

text \<open>The stock of the start state.\<close>

lemma init_stock:
  assumes ok: "\<not> options_invalid opts" and g: "\<And>e x. g (e\<lparr>reader_id := x\<rparr>) = g e" and l: "l < 4"
  shows "stock g l (init_pipeline opts fd contents) = value_sum g (level_entries l contents)"
proof -
  have "level_sum g l (reader_pending (init_reader opts fd r c)) =
      value_sum g (filter (\<lambda>e. level_index e = int l) (case c of None \<Rightarrow> [] | Some f \<Rightarrow> file_entries f))" for r c
    using level_sum_filter [OF g] file_entries_routable capacities_pos [OF ok]
    by (auto simp: init_reader_entries list_all_iff split: option.splits)
  then have "(\<Sum>rp\<leftarrow>readers (init_pipeline opts fd contents). level_sum g l (reader_pending rp)) =
      (\<Sum>c\<leftarrow>contents. value_sum g (filter (\<lambda>e. level_index e = int l) (case c of None \<Rightarrow> [] | Some f \<Rightarrow> file_entries f)))"
    using sum_over_index [of "\<lambda>c. value_sum g (filter (\<lambda>e. level_index e = int l) (case c of None \<Rightarrow> [] | Some f \<Rightarrow> file_entries f))" contents]
    by (simp add: init_pipeline_def comp_def)
  moreover have "hands_sum g (workers (init_analyzer opts l)) = 0"
    by (simp add: hands_sum_def init_analyzer_def map_replicate_const sum_list_replicate)
  ultimately show ?thesis using l
    by (simp add: stock_def upstream_sum_def init_pipeline_def level_entries_def all_entries_def filter_concat
        value_sum_concat comp_def)
qed

lemma init_hp_stock:
  assumes ok: "\<not> options_invalid opts" and g: "\<And>e x. g (e\<lparr>reader_id := x\<rparr>) = g e"
  shows "hp_stock opts g (init_pipeline opts fd contents) = value_sum g (priority_entries opts contents)"
proof -
  let ?P = "\<lambda>e. source_is_priority (priority_sources opts) (source e)"
  have "hp_sum opts g (reader_pending (init_reader opts fd r c)) =
      value_sum g (filter ?P (case c of None \<Rightarrow> [] | Some f \<Rightarrow> file_entries f))" for r c
    using hp_sum_filter [OF g] file_entries_routable capacities_pos [OF ok]
    by (auto simp: init_reader_entries list_all_iff split: option.splits)
  then have "(\<Sum>rp\<leftarrow>readers (init_pipeline opts fd contents). hp_sum opts g (reader_pending rp)) =
      (\<Sum>c\<leftarrow>contents. value_sum g (filter ?P (case c of None \<Rightarrow> [] | Some f \<Rightarrow> file_entries f)))"
    using sum_over_index [of "\<lambda>c. value_sum g (filter ?P (case c of None \<Rightarrow> [] | Some f \<Rightarrow> file_entries f))" contents]
    by (simp add: init_pipeline_def comp_def)
  then show ?thesis
    by (simp add: hp_stock_def init_pipeline_def priority_entries_def all_entries_def filter_concat value_sum_concat comp_def)
qed

lemma init_totals:
  assumes ok: "\<not> options_invalid opts" and nk: "length (keyword_list opts) \<le> 8"
  shows "analyzer_ok (length (keyword_list opts)) (init_analyzer opts l)"
    "k < length (keyword_list opts) \<Longrightarrow> kw_ledger k (init_analyzer opts l) = 0"
    "entry_ledger (init_analyzer opts l) = 0"
  using capacities_pos [OF ok] nk
  by (auto simp: analyzer_ok_def kw_ledger_def entry_ledger_def open_sum_def init_analyzer_def init_result_def
      init_worker_def worker_ok_def map_replicate_const sum_list_replicate list_all_iff)

section \<open>The report\<close>

definition report_inv :: "program_options_t \<Rightarrow> pipeline \<Rightarrow> bool" where
  "report_inv opts s \<longleftrightarrow>
     (aggregator s = G_Done \<longrightarrow>
        report s = Some (write_text_output (keyword_list opts) (length (files opts)) (nat (worker_threads opts))
                           (map level_result (analyzers s)) (fst (high_priority s)),
                         write_binary_output (keyword_list opts) (map level_result (analyzers s)) (fst (high_priority s))))"

lemma map_update_same: "f y = f (xs ! i) \<Longrightarrow> map f (xs[i := y]) = map f xs"
  by (metis list_update_id map_update)

lemma report_inv_move:
  assumes pinv: "pipe_inv R s" and inv: "report_inv opts s" and move: "pmove opts s s'"
  shows "report_inv opts s'"
proof -
  have len: "length (analyzers s) = 4" using pinv by (auto simp: pipe_inv_def flow_inv_def)
  have published: "ready (level_result (analyzers s ! l)) \<and> list_all (\<lambda>x. fst x = W_Done) (workers (analyzers s ! l))"
    if "aggregator s = G_Done" "l < 4" for l
    using pinv that by (auto simp: pipe_inv_def aggregator_inv_def publish_inv_def)
  show ?thesis
    using move
  proof cases
    case (worker_barrier l an w ws)
    have "fst (workers (analyzers s ! l) ! w) = W_Done" if "aggregator s = G_Done"
      using published [OF that, of l] worker_barrier len by (auto simp: list_all_length)
    then show ?thesis using worker_barrier by (auto simp: report_inv_def set_analyzer_def)
  next
    case (publish l an)
    then show ?thesis using published [of l] len by (auto simp: report_inv_def set_analyzer_def)
  qed (use inv in \<open>simp_all add: report_inv_def set_reader_def set_analyzer_def dispatch_eof_def Let_def map_update_same\<close>)
qed

section \<open>Runs\<close>

lemma value_sum_filter_le: "(\<And>x. 0 \<le> g x) \<Longrightarrow> value_sum g (filter P xs) \<le> value_sum g xs"
  by (induction xs) (auto intro: order_trans)

lemma hp_value_kw_values:
  assumes "level_index e = int l"
  shows "hp_value opts e = (\<Sum>k<length (keyword_list opts). kw_value l (keyword_list opts ! k) e)"
proof -
  have "hp_value opts e = sum_list (map (\<lambda>kw. kw_value l kw e) (keyword_list opts))"
    using assms by (simp add: hp_value_def kw_value_def)
  then show ?thesis by (simp add: sum_list_sum_nth atLeast0LessThan)
qed

lemma value_sum_swap: "(\<Sum>k<n. value_sum (g k) es) = value_sum (\<lambda>e. \<Sum>k<n. g k e) (es :: log_entry_t list)"
  by (induction es) (auto simp: sum.distrib)

lemma level_entries_total:
  "(\<Sum>k<length (keyword_list opts). value_sum (kw_value l (keyword_list opts ! k)) (level_entries l contents)) =
     value_sum (hp_value opts) (level_entries l contents)"
proof -
  have "value_sum (\<lambda>e. \<Sum>k<length (keyword_list opts). kw_value l (keyword_list opts ! k) e) (level_entries l contents) =
      value_sum (hp_value opts) (level_entries l contents)"
    using hp_value_kw_values by (intro arg_cong [where f = sum_list] map_cong) (auto simp: level_entries_def)
  then show ?thesis by (simp add: value_sum_swap)
qed

definition level_T :: "program_options_t \<Rightarrow> string option list \<Rightarrow> nat \<Rightarrow> nat \<Rightarrow> int" where
  "level_T opts contents l k = value_sum (kw_value l (keyword_list opts ! k)) (level_entries l contents)"

definition run_inv :: "program_options_t \<Rightarrow> string option list \<Rightarrow> pipeline \<Rightarrow> bool" where
  "run_inv opts contents s \<longleftrightarrow>
     pipe_inv (length contents) s \<and> report_inv opts s \<and>
     totals_inv opts (level_T opts contents) (\<lambda>l. int (length (level_entries l contents))) s \<and>
     hp_inv opts (value_sum (hp_value opts) (priority_entries opts contents)) (int (length (priority_entries opts contents))) s"

lemma value_sum_one: "value_sum (\<lambda>_. 1) xs = int (length xs)"
  by (induction xs) auto

lemma run_inv_init:
  assumes ok: "\<not> options_invalid opts" and nk: "length (keyword_list opts) \<le> 8"
  shows "run_inv opts contents (init_pipeline opts fd contents)"
proof -
  let ?s = "init_pipeline opts fd contents"
  have an: "analyzers ?s ! l = init_analyzer opts l" if "l < 4" for l using that by (simp add: init_pipeline_def)
  have "totals_inv opts (level_T opts contents) (\<lambda>l. int (length (level_entries l contents))) ?s"
    unfolding totals_inv_def
  proof (intro allI impI)
    fix l assume l: "l < (4::nat)"
    show "analyzer_ok (length (keyword_list opts)) (analyzers ?s ! l) \<and>
        (\<forall>k<length (keyword_list opts). stock (kw_value l (keyword_list opts ! k)) l ?s + kw_ledger k (analyzers ?s ! l) =
            level_T opts contents l k) \<and>
        stock (\<lambda>_. 1) l ?s + entry_ledger (analyzers ?s ! l) = int (length (level_entries l contents))"
      using init_totals [OF ok nk] init_stock [OF ok _ l, of "\<lambda>_. 1" fd contents]
        init_stock [OF ok _ l, of "kw_value l (keyword_list opts ! k)" fd contents for k]
      by (simp add: an [OF l] level_T_def kw_value_def value_sum_one)
  qed
  moreover have "hp_inv opts (value_sum (hp_value opts) (priority_entries opts contents)) (int (length (priority_entries opts contents))) ?s"
    using init_hp_stock [OF ok, of "hp_value opts" fd contents] init_hp_stock [OF ok, of "\<lambda>_. 1" fd contents]
    by (simp add: hp_inv_def hp_value_def value_sum_one) (simp add: init_pipeline_def)
  moreover have "report_inv opts ?s" by (simp add: report_inv_def init_pipeline_def)
  ultimately show ?thesis using pipe_inv_init [OF ok] by (simp add: run_inv_def)
qed

lemma run_inv_reach:
  assumes ok: "\<not> options_invalid opts" and nk: "length (keyword_list opts) \<le> 8" and files: "length (files opts) = length contents"
    and bound: "value_sum (hp_value opts) (all_entries contents) \<le> dbl_max"
    and reach: "preach opts (init_pipeline opts fd contents) s"
  shows "run_inv opts contents s"
  using reach
proof (induction rule: preach.induct)
  case start
  show ?case by (rule run_inv_init [OF ok nk])
next
  case (step s a s')
  have inv: "pipe_inv (length contents) s" "report_inv opts s"
    "totals_inv opts (level_T opts contents) (\<lambda>l. int (length (level_entries l contents))) s"
    "hp_inv opts (value_sum (hp_value opts) (priority_entries opts contents)) (int (length (priority_entries opts contents))) s"
    using step.IH by (auto simp: run_inv_def)
  have flow: "flow_inv (length contents) s" using inv(1) by (simp add: pipe_inv_def)
  then have move: "pmove opts s s'" using flow_pmove step.hyps(2) by blast
  have le: "value_sum (hp_value opts) (filter P (all_entries contents)) \<le> dbl_max" for P
    using value_sum_filter_le [of "hp_value opts" P, OF hp_value_nonneg] bound by (rule order_trans)
  have "(\<Sum>k<length (keyword_list opts). level_T opts contents l k) \<le> dbl_max" for l
    using le by (simp add: level_T_def level_entries_total) (simp add: level_entries_def)
  then have "totals_inv opts (level_T opts contents) (\<lambda>l. int (length (level_entries l contents))) s'"
    using totals_inv_move [OF inv(3) flow move _ nk] by blast
  moreover have "hp_inv opts (value_sum (hp_value opts) (priority_entries opts contents)) (int (length (priority_entries opts contents))) s'"
    using hp_inv_move [OF inv(4) flow move] le by (simp add: priority_entries_def)
  ultimately show ?case
    using pipe_inv_move [OF inv(1) files move] report_inv_move [OF inv(1,2) move] by (simp add: run_inv_def)
qed

text \<open>When a level is published nothing of it is in flight any more.\<close>

lemma published_empty:
  assumes pinv: "pipe_inv R s" and l: "l < 4" and an: "analyzer_ok nk (analyzers s ! l)" and ready: "ready (level_result (analyzers s ! l))"
  shows "\<forall>rp\<in>set (readers s). reader_pending rp = []" "\<forall>e\<in>set (ring_contents (region_a s)). is_eof e"
    "route_hand (dispatcher s) = []" "ring_contents (region_b s ! l) = []" "list_all (\<lambda>x. fst x = W_Done) (workers (analyzers s ! l))"
proof -
  have i: "flow_inv R s" "order_inv s" "count_inv s" "post_inv s" "worker_inv s" "publish_inv s"
    using pinv by (simp_all add: pipe_inv_def)
  show all_done: "list_all (\<lambda>x. fst x = W_Done) (workers (analyzers s ! l))" using i(6) l ready by (auto simp: publish_inv_def)
  have "workers (analyzers s ! l) \<noteq> []" using an by (simp add: analyzer_ok_def)
  then obtain x where "x \<in> set (workers (analyzers s ! l))" by (meson last_in_set)
  moreover from this have "at_barrier (fst x)" using all_done by (simp add: list_all_iff at_barrier_def)
  ultimately have b: "eof_posted (region_b s ! l)" "ring_contents (region_b s ! l) = []" using i(5) l by (auto simp: worker_inv_def)
  then have p: "eof_seen s ! l = R" "route_hand (dispatcher s) = []" using i(1,4) l by (auto simp: post_inv_def flow_inv_def)
  show "ring_contents (region_b s ! l) = []" "route_hand (dispatcher s) = []" by (rule b p)+
  show "\<forall>rp\<in>set (readers s). reader_pending rp = []" "\<forall>e\<in>set (ring_contents (region_a s)). is_eof e"
    using all_marks_consumed(1,2) [OF i(1,2,3) l p(1)] by auto
qed

lemma level_sum_eof: "\<forall>e\<in>set xs. is_eof e \<Longrightarrow> level_sum g l xs = 0"
  by (induction xs) auto

lemma hp_sum_eof: "\<forall>e\<in>set xs. is_eof e \<Longrightarrow> hp_sum opts g xs = 0"
  by (induction xs) (auto simp: is_hp_def)

lemma sum_list_all_zero: "(\<And>x. x \<in> set xs \<Longrightarrow> f x = 0) \<Longrightarrow> (\<Sum>x\<leftarrow>xs. (f x :: int)) = 0"
  by (induction xs) auto

lemma published_stock:
  assumes "pipe_inv R s" and "l < 4" and "analyzer_ok nk (analyzers s ! l)" and "ready (level_result (analyzers s ! l))"
  shows "stock g l s = 0" "kw_ledger k (analyzers s ! l) = per_keyword_score (level_result (analyzers s ! l)) ! k"
    "entry_ledger (analyzers s ! l) = total_entries (level_result (analyzers s ! l))"
proof -
  note e = published_empty [OF assms]
  have "worker_hand x = []" if "x \<in> set (workers (analyzers s ! l))" for x
    using e(5) that by (cases x) (auto simp: list_all_iff)
  then have "hands_sum g (workers (analyzers s ! l)) = 0" unfolding hands_sum_def by (intro sum_list_all_zero) simp
  moreover have "(\<Sum>rp\<leftarrow>readers s. level_sum g l (reader_pending rp)) = 0"
    using e(1) by (intro sum_list_all_zero) simp
  ultimately show "stock g l s = 0" using e(2,3,4) by (simp add: stock_def upstream_sum_def level_sum_eof)
  have "open_sum h (workers (analyzers s ! l)) = 0" for h
    unfolding open_sum_def using e(5) by (intro sum_list_all_zero) (simp add: list_all_iff)
  then show "kw_ledger k (analyzers s ! l) = per_keyword_score (level_result (analyzers s ! l)) ! k"
    "entry_ledger (analyzers s ! l) = total_entries (level_result (analyzers s ! l))"
    by (simp_all add: kw_ledger_def entry_ledger_def)
qed

section \<open>Properties\<close>

definition level_correct :: "program_options_t \<Rightarrow> string option list \<Rightarrow> nat \<Rightarrow> level_result_t \<Rightarrow> bool" where
  "level_correct opts contents l r \<longleftrightarrow>
     total_entries r = int (length (level_entries l contents)) \<and>
     (\<forall>k<length (keyword_list opts).
        per_keyword_score r ! k =
          (\<Sum>e\<leftarrow>level_entries l contents.
             count_overlapping_keyword (message e) (keyword_list opts ! k) * level_weight (int l))) \<and>
     total_weighted_score r = (\<Sum>k<length (keyword_list opts). per_keyword_score r ! k)"

text \<open>(C12) End to end: for all options that pass the checks of \<open>parse_args\<close>, all contents of the log
  files and every interleaving of the processes and threads, when the aggregator has ended the
  four results hold the number of well-formed lines of their level and, per keyword, the sum over
  these lines of the overlapping matches times the weight of the level; the high-priority score is the
  sum over the lines of the priority sources, and the two output files are written from these
  results. The sum of all scores is at most \<open>2 ^ 53\<close>, where \<open>double\<close> is exact.\<close>

theorem pipeline_report_correct:
  assumes "\<not> options_invalid opts" and "options_fit opts" and "length (files opts) = length contents"
    and "(\<Sum>e\<leftarrow>all_entries contents. hp_value opts e) \<le> 9007199254740992"
    and "preach opts (init_pipeline opts fd contents) s" and "aggregator s = G_Done"
  shows "(\<forall>l<4. level_correct opts contents l (level_result (analyzers s ! l))) \<and>
    high_priority s = ((\<Sum>e\<leftarrow>priority_entries opts contents. hp_value opts e), int (length (priority_entries opts contents))) \<and>
    report s = Some (write_text_output (keyword_list opts) (length contents) (nat (worker_threads opts))
                       (map level_result (analyzers s)) (fst (high_priority s)),
                     write_binary_output (keyword_list opts) (map level_result (analyzers s)) (fst (high_priority s)))"
proof -
  have nk: "length (keyword_list opts) \<le> 8" using assms(2) by (simp add: options_fit_def)
  have run: "run_inv opts contents s" by (rule run_inv_reach [OF assms(1) nk assms(3,4,5)])
  then have pinv: "pipe_inv (length contents) s"
    and tot: "totals_inv opts (level_T opts contents) (\<lambda>l. int (length (level_entries l contents))) s"
    and hp: "hp_inv opts (value_sum (hp_value opts) (priority_entries opts contents)) (int (length (priority_entries opts contents))) s"
    and rep: "report_inv opts s"
    by (simp_all add: run_inv_def)
  have ready: "ready (level_result (analyzers s ! l))" if "l < 4" for l
    using pinv that assms(6) by (simp add: pipe_inv_def aggregator_inv_def)
  have level: "level_correct opts contents l (level_result (analyzers s ! l))" if l: "l < 4" for l
  proof -
    note an = totals_invD(1) [OF tot l]
    note pub = published_stock [OF pinv l an ready [OF l]]
    have "total_weighted_score (level_result (analyzers s ! l)) =
        (\<Sum>k<length (keyword_list opts). per_keyword_score (level_result (analyzers s ! l)) ! k)"
      using an nk by (simp add: analyzer_ok_def sum_take_nth)
    then show ?thesis
      using totals_invD(2,3) [OF tot l] pub by (simp add: level_correct_def level_T_def kw_value_def [abs_def])
  qed
  have e: "\<forall>rp\<in>set (readers s). reader_pending rp = []" "\<forall>e\<in>set (ring_contents (region_a s)). is_eof e"
    "route_hand (dispatcher s) = []"
    using published_empty [OF pinv _ totals_invD(1) [OF tot] ready, of 0] by auto
  have "ring_contents (region_d s) = []" "dispatcher s = D_Done"
    using pinv assms(6) by (auto simp: pipe_inv_def aggregator_inv_def)
  moreover have "(\<Sum>rp\<leftarrow>readers s. hp_sum opts g (reader_pending rp)) = 0" for g
    using e(1) by (intro sum_list_all_zero) simp
  ultimately have "hp_stock opts g s = 0" for g
    using e assms(6) by (simp add: hp_stock_def hp_sum_eof)
  then have "high_priority s = ((\<Sum>e\<leftarrow>priority_entries opts contents. hp_value opts e), int (length (priority_entries opts contents)))"
    using hp by (simp add: hp_inv_def prod_eq_iff)
  then show ?thesis using level rep assms(3,6) by (simp add: report_inv_def)
qed

text \<open>A run of the whole pipeline on one file with one line.\<close>

definition demo_opts :: program_options_t where
  "demo_opts =
     \<lparr>reader_threads = 1, worker_threads = 1, capacity_a = 4, capacity_b = 4, capacity_d = 2,
      timeout_sec = 10, config_file = ''c'', filter_file = ''f'', output_file = ''o'', binary_file = ''b'',
      keyword_list = [''fail''], files = [''a.log''], priority_sources = [''auth'']\<rparr>"

definition demo_log :: string where
  "demo_log = ''[2026-05-01 10:20:30] [ERROR] [auth] fail fail'' @ [newline]"

definition demo_schedule :: "actor list" where
  "demo_schedule =
     [Reader_Thread 0 0, Readers_Joined 0, Parser 0, Parser 0, Parser 0, Dispatcher, Dispatcher, Dispatcher] @
     replicate 4 (Parser 0) @ replicate 10 Dispatcher @ replicate 4 (Worker 0 0) @
     [Worker 1 0, Worker 1 0, Worker 2 0, Worker 2 0, Worker 3 0, Worker 3 0, Analyzer 0, Analyzer 1, Analyzer 2, Analyzer 3] @
     replicate 8 Aggregator"

theorem pipeline_report_correct_witness:
  "\<exists>s. preach demo_opts (init_pipeline demo_opts (\<lambda>_. 3) [Some demo_log]) s \<and> aggregator s = G_Done \<and>
       (\<forall>l<4. level_correct demo_opts [Some demo_log] l (level_result (analyzers s ! l)))"
proof -
  have a: "\<not> options_invalid demo_opts" "options_fit demo_opts" by code_simp+
  have b: "length (files demo_opts) = length [Some demo_log]" by (simp add: demo_opts_def)
  have c: "(\<Sum>e\<leftarrow>all_entries [Some demo_log]. hp_value demo_opts e) \<le> 9007199254740992" by code_simp
  have "map_option (\<lambda>s. aggregator s = G_Done) (prun demo_opts demo_schedule (init_pipeline demo_opts (\<lambda>_. 3) [Some demo_log])) = Some True"
    by code_simp
  then obtain s where s: "prun demo_opts demo_schedule (init_pipeline demo_opts (\<lambda>_. 3) [Some demo_log]) = Some s" "aggregator s = G_Done"
    by auto
  have r: "preach demo_opts (init_pipeline demo_opts (\<lambda>_. 3) [Some demo_log]) s"
    using prun_preach [OF s(1)] preach.start by blast
  from pipeline_report_correct [OF a b c r s(2)] r s(2) show ?thesis by blast
qed

end
