(* ===== verification/Log_Liveness.thy ===== *)
theory Log_Liveness
  imports Log_Correct
begin

text \<open>
  Progress of the log pipeline: as long as the timeout check of the dispatcher does not end its
  loop, the condition of some thread always holds; a check that does end it can deadlock the pipeline; and a log
  file that cannot be opened keeps the pipeline from ending at all.
\<close>

section \<open>Progress\<close>

text \<open>Runs in which the dispatcher never leaves its loop through the timeout check.\<close>

inductive calm_reach :: "program_options_t \<Rightarrow> pipeline \<Rightarrow> pipeline \<Rightarrow> bool" for opts s0 where
  calm_start: "calm_reach opts s0 s0"
| calm_step: "calm_reach opts s0 s \<Longrightarrow> pstep opts a s = Some s' \<Longrightarrow>
    \<not> (dispatcher s = D_TimedOut \<and> timeout_all_done (region_a s)) \<Longrightarrow> calm_reach opts s0 s'"

definition posted_count :: "pipeline \<Rightarrow> nat" where
  "posted_count s = length (filter eof_posted (region_b s))"

definition live_inv :: "nat \<Rightarrow> pipeline \<Rightarrow> bool" where
  "live_inv R s \<longleftrightarrow>
     (dispatcher s = D_Finish \<or> dispatcher s = D_Done \<longrightarrow> finished_levels s = 4) \<and>
     finished_levels s = posted_count s \<and>
     (\<forall>l<4. eof_seen s ! l = R \<longrightarrow> eof_posted (region_b s ! l)) \<and>
     (\<forall>l<4. workers (analyzers s ! l) \<noteq> []) \<and>
     (\<forall>l<4. waited (aggregator s) \<le> l \<and> ready (level_result (analyzers s ! l)) \<longrightarrow> level_ready (analyzers s ! l) > 0) \<and>
     (\<forall>rp\<in>set (readers s). parser rp \<noteq> P_Exited)"

lemma posted_count_update:
  assumes "l < length bs" and "\<not> eof_posted (bs ! l)" and "eof_posted b"
  shows "length (filter eof_posted (bs[l := b])) = Suc (length (filter eof_posted bs))"
  using assms
proof (induction bs arbitrary: l)
  case (Cons a bs)
  then show ?case by (cases l) auto
qed simp

lemma posted_count_keep:
  assumes "l < length bs" and "eof_posted b = eof_posted (bs ! l)"
  shows "length (filter eof_posted (bs[l := b])) = length (filter eof_posted bs)"
  using assms
proof (induction bs arbitrary: l)
  case (Cons a bs)
  then show ?case by (cases l) auto
qed simp

lemma posted_all:
  assumes "length (region_b s) = 4" and "posted_count s = 4" and "l < 4"
  shows "eof_posted (region_b s ! l)"
proof -
  have "filter eof_posted (region_b s) = region_b s"
    using assms by (metis filter_id_conv length_filter_less not_less_iff_gr_or_eq posted_count_def)
  then show ?thesis using assms by (metis filter_id_conv nth_mem)
qed

lemma set_reader_exited:
  assumes "\<forall>rp\<in>set (readers s). parser rp \<noteq> P_Exited" and "parser rp \<noteq> P_Exited"
  shows "\<forall>rp\<in>set (readers (set_reader r rp s)). parser rp \<noteq> P_Exited"
  using assms by (auto simp: set_reader_def dest!: set_update_cases)

lemma live_inv_set_reader:
  "live_inv R s \<Longrightarrow> parser rp \<noteq> P_Exited \<Longrightarrow> live_inv R (set_reader r rp s)"
  using set_reader_exited [of s rp r] by (auto simp: live_inv_def set_reader_def posted_count_def)

lemma live_inv_set_analyzer:
  assumes "live_inv R s" and "length (analyzers s) = 4" and "l < 4" and "workers an \<noteq> []"
    and "waited (aggregator s) \<le> l \<Longrightarrow> ready (level_result an) \<Longrightarrow> level_ready an > 0"
  shows "live_inv R (set_analyzer l an s)"
  using assms by (auto simp: live_inv_def set_analyzer_def posted_count_def nth_list_update)

lemma live_inv_move:
  assumes pinv: "pipe_inv R s" and inv: "live_inv R s" and move: "pmove opts s s'" and files: "length (files opts) = R"
    and calm: "\<not> (dispatcher s = D_TimedOut \<and> timeout_all_done (region_a s))"
  shows "live_inv R s'"
proof -
  have len: "length (analyzers s) = 4" "length (region_b s) = 4" "length (eof_seen s) = 4"
    using pinv by (auto simp: pipe_inv_def flow_inv_def)
  have known: "workers (analyzers s ! l) \<noteq> []"
    "waited (aggregator s) \<le> l \<Longrightarrow> ready (level_result (analyzers s ! l)) \<Longrightarrow> level_ready (analyzers s ! l) > 0" if "l < 4" for l
    using inv that by (auto simp: live_inv_def)
  have alive: "parser (readers s ! r) \<noteq> P_Exited" if "r < length (readers s)" for r
    using inv that by (auto simp: live_inv_def)
  show ?thesis
    using move
  proof cases
    case (thread_push r rp t e es b)
    then show ?thesis using live_inv_set_reader [OF inv] alive by simp
  next
    case (joined r rp)
    then show ?thesis using live_inv_set_reader [OF inv] alive by simp
  next
    case (parser_end r rp)
    then show ?thesis using live_inv_set_reader [OF inv] by simp
  next
    case (parser_pop r rp b e)
    then show ?thesis using live_inv_set_reader [OF inv] by simp
  next
    case (parser_push r rp e a)
    have "live_inv R (s\<lparr>region_a := a\<rparr>)" using inv by (auto simp: live_inv_def posted_count_def)
    then show ?thesis using live_inv_set_reader parser_push by simp
  next
    case (parser_eof r rp l a)
    have "live_inv R (s\<lparr>region_a := a\<rparr>)" using inv by (auto simp: live_inv_def posted_count_def)
    then show ?thesis using live_inv_set_reader parser_eof by simp
  next
    case (disp_exit)
    have "posted_count s \<le> 4" using len by (metis length_filter_le posted_count_def)
    then show ?thesis using inv disp_exit by (auto simp: live_inv_def posted_count_def)
  next
    case (disp_eof e)
    let ?l = "nat (level_index e)"
    have l: "?l < 4" using pinv disp_eof by (auto simp: pipe_inv_def flow_inv_def entry_ok_def)
    show ?thesis
    proof (cases "eof_seen s ! ?l + 1 = R \<and> \<not> eof_posted (region_b s ! ?l)")
      case True
      then have "s' = s\<lparr>eof_seen := (eof_seen s)[?l := eof_seen s ! ?l + 1], dispatcher := D_Pop,
          region_b := (region_b s)[?l := (region_b s ! ?l)\<lparr>eof_posted := True\<rparr>], finished_levels := finished_levels s + 1\<rparr>"
        using disp_eof l len files by (simp add: dispatch_eof_def Let_def)
      then show ?thesis using inv True l len posted_count_update [of ?l "region_b s"]
        by (auto simp: live_inv_def posted_count_def nth_list_update)
    next
      case False
      then have "s' = s\<lparr>eof_seen := (eof_seen s)[?l := eof_seen s ! ?l + 1], dispatcher := D_Pop\<rparr>"
        using disp_eof l len files by (auto simp: dispatch_eof_def Let_def)
      then show ?thesis using inv False l len by (auto simp: live_inv_def posted_count_def nth_list_update)
    qed
  next
    case (disp_push_b e l b)
    then have "l < 4" using pinv by (auto simp: pipe_inv_def flow_inv_def routable_def)
    then show ?thesis using inv disp_push_b len posted_count_keep [of l "region_b s" b]
      by (auto simp: live_inv_def posted_count_def nth_list_update)
  next
    case (worker_pop l an w ws b e)
    then have l: "l < 4" using len by simp
    then have "live_inv R (s\<lparr>region_b := (region_b s)[l := b]\<rparr>)"
      using inv len worker_pop posted_count_keep [of l "region_b s" b]
      by (auto simp: live_inv_def posted_count_def nth_list_update)
    from live_inv_set_analyzer [OF this, of l "an\<lparr>workers := (workers an)[w := (W_Score e, ws)]\<rparr>"]
    show ?thesis using worker_pop len l known [OF l] by simp
  next
    case (worker_end l an w ws)
    then show ?thesis using known [of l] len by (auto intro!: live_inv_set_analyzer [OF inv len(1)])
  next
    case (worker_score l an w e ws ws' t)
    then show ?thesis using known [of l] len by (auto intro!: live_inv_set_analyzer [OF inv len(1)])
  next
    case (worker_barrier l an w ws)
    then show ?thesis using known [of l] len by (auto intro!: live_inv_set_analyzer [OF inv len(1)])
  next
    case (publish l an)
    then show ?thesis using known [of l] len by (auto intro!: live_inv_set_analyzer [OF inv len(1)])
  next
    case (agg_wait l an)
    then have "l < 4" using pinv by (auto simp: pipe_inv_def aggregator_inv_def)
    then show ?thesis using inv agg_wait len
      by (auto simp: live_inv_def posted_count_def set_analyzer_def nth_list_update)
  qed (use inv calm in \<open>auto simp: live_inv_def posted_count_def split: if_splits\<close>)
qed

lemma calm_reach_inv:
  assumes "calm_reach opts s0 s" and "pipe_inv R s0" and "live_inv R s0" and "length (files opts) = R"
  shows "pipe_inv R s \<and> live_inv R s"
  using assms(1)
proof (induction rule: calm_reach.induct)
  case (calm_step s a s')
  then have "pmove opts s s'" using flow_pmove by (auto simp: pipe_inv_def)
  then show ?case using calm_step pipe_inv_move live_inv_move assms(4) by blast
qed (use assms in auto)

lemma live_inv_init:
  assumes ok: "\<not> options_invalid opts" and "list_all (\<lambda>c. c \<noteq> None) contents" and "contents \<noteq> []"
  shows "live_inv (length contents) (init_pipeline opts fd contents)"
proof -
  have "parser (init_reader opts fd r (contents ! r)) \<noteq> P_Exited" if "r < length contents" for r
    using assms(2) that by (auto simp: init_reader_def list_all_length)
  then show ?thesis using assms(3) capacities_pos [OF ok]
    by (auto simp: live_inv_def init_pipeline_def posted_count_def init_region_b_def init_analyzer_def init_result_def)
qed

text \<open>A blocked state: no step but a timeout is possible.\<close>

definition blocked :: "program_options_t \<Rightarrow> pipeline \<Rightarrow> bool" where
  "blocked opts s \<longleftrightarrow> (\<forall>a. a \<noteq> Timeout \<longrightarrow> pstep opts a s = None)"

lemma blockedD:
  assumes "blocked opts s"
  shows "dispatcher_step opts s = None" "aggregator_step opts s = None"
    "r < length (readers s) \<Longrightarrow> parser_step r s = None" "r < length (readers s) \<Longrightarrow> readers_joined_step r s = None"
    "r < length (readers s) \<Longrightarrow> t < length (todo (readers s ! r)) \<Longrightarrow> reader_thread_step r t s = None"
    "l < length (analyzers s) \<Longrightarrow> analyzer_step l s = None"
  using assms [unfolded blocked_def, rule_format, of Dispatcher] assms [unfolded blocked_def, rule_format, of Aggregator]
    assms [unfolded blocked_def, rule_format, of "Parser r"] assms [unfolded blocked_def, rule_format, of "Readers_Joined r"]
    assms [unfolded blocked_def, rule_format, of "Reader_Thread r t"] assms [unfolded blocked_def, rule_format, of "Analyzer l"]
  by (simp_all add: pstep_def)

lemma blocked_worker:
  assumes blk: "blocked opts s" and flow: "flow_inv R s" and l: "l < 4" and w: "w < length (workers (analyzers s ! l))"
    and pw: "workers (analyzers s ! l) ! w = (pc, ws)"
  shows "pc \<noteq> W_Score e" "pc = W_Pop \<Longrightarrow> ring_contents (region_b s ! l) = [] \<and> \<not> eof_posted (region_b s ! l)"
    "pc = W_Barrier \<Longrightarrow> \<not> list_all (\<lambda>x. at_barrier (fst x)) (workers (analyzers s ! l))"
proof -
  have "worker_step opts l w s = None"
    using blk l w flow by (auto simp: blocked_def pstep_def flow_inv_def dest!: spec [of _ "Worker l w"])
  then have n: "(case pc of W_Pop \<Rightarrow> pop_level_entry (region_b s ! l) = Blocked
      | W_Score e \<Rightarrow> False
      | W_Barrier \<Rightarrow> \<not> list_all (\<lambda>x. at_barrier (fst x)) (workers (analyzers s ! l))
      | W_Done \<Rightarrow> True)"
    using pw by (auto simp: worker_step_def Let_def split: worker_pc.splits pop_result.splits prod.splits if_splits)
  show "pc \<noteq> W_Score e" using n by (cases pc) auto
  show "\<not> list_all (\<lambda>x. at_barrier (fst x)) (workers (analyzers s ! l))" if "pc = W_Barrier" using n that by simp
  have "ring_contents (region_b s ! l) = [] \<and> \<not> eof_posted (region_b s ! l)"
    if "pop_level_entry (region_b s ! l) = Blocked"
    using that by (auto simp: pop_level_entry_def ring_empty_iff split: if_splits prod.splits)
  then show "ring_contents (region_b s ! l) = [] \<and> \<not> eof_posted (region_b s ! l)" if "pc = W_Pop" using n that by simp
qed

lemma blocked_level:
  assumes blk: "blocked opts s" and pinv: "pipe_inv R s" and linv: "live_inv R s" and l: "l < 4"
  shows "ring_contents (region_b s ! l) = []" "eof_posted (region_b s ! l) \<Longrightarrow> ready (level_result (analyzers s ! l))"
proof -
  let ?an = "analyzers s ! l"
  have flow: "flow_inv R s" using pinv by (simp add: pipe_inv_def)
  have pcs: "fst x \<noteq> W_Score e \<and> (fst x = W_Pop \<longrightarrow> ring_contents (region_b s ! l) = [] \<and> \<not> eof_posted (region_b s ! l)) \<and>
      (fst x = W_Barrier \<longrightarrow> \<not> list_all (\<lambda>x. at_barrier (fst x)) (workers ?an))"
    if "x \<in> set (workers ?an)" for x e
    using blocked_worker [OF blk flow l] that by (metis in_set_conv_nth prod.collapse)
  have bar: "eof_posted (region_b s ! l) \<and> ring_contents (region_b s ! l) = []" if "x \<in> set (workers ?an)" "at_barrier (fst x)" for x
    using pinv that l by (auto simp: pipe_inv_def worker_inv_def)
  have "workers ?an \<noteq> []" using linv l by (auto simp: live_inv_def)
  then obtain x where x: "x \<in> set (workers ?an)" by (meson last_in_set)
  show "ring_contents (region_b s ! l) = []"
    using pcs [OF x] bar [OF x] by (cases "fst x") (auto simp: at_barrier_def)
  show "ready (level_result ?an)" if "eof_posted (region_b s ! l)"
  proof -
    have "at_barrier (fst x)" if "x \<in> set (workers ?an)" for x
      using pcs [OF that] \<open>eof_posted (region_b s ! l)\<close> by (cases "fst x") (auto simp: at_barrier_def)
    then have "fst x = W_Done" if "x \<in> set (workers ?an)" for x
      using pcs [OF that] that by (cases "fst x") (fastforce simp: list_all_iff at_barrier_def)+
    then have "list_all (\<lambda>x. fst x = W_Done) (workers ?an)" by (simp add: list_all_iff)
    moreover have "analyzer_step l s = None"
      using blk l flow by (auto simp: blocked_def pstep_def flow_inv_def dest!: spec [of _ "Analyzer l"])
    ultimately show ?thesis by (auto simp: analyzer_step_def Let_def split: if_splits)
  qed
qed

lemma blocked_reader:
  assumes blk: "blocked opts s" and flow: "flow_inv R s" and r: "r < R" and a: "ring_contents (region_a s) = []"
    and alive: "parser (readers s ! r) \<noteq> P_Exited"
  shows "parser (readers s ! r) = P_Done"
proof (rule ccontr)
  assume not_done: "parser (readers s ! r) \<noteq> P_Done"
  let ?rp = "readers s ! r"
  have len: "r < length (readers s)" and rinv: "reader_inv r ?rp" and ainv: "ring_inv (region_a s)"
    using flow r by (auto simp: flow_inv_def)
  have binv: "ring_inv (buffer ?rp)" using rinv by (simp add: reader_inv_def)
  have none: "parser_step r s = None" "readers_joined_step r s = None"
    using blockedD(3,4) [OF blk len] by auto
  have thread: "reader_thread_step r t s = None" if "t < length (todo ?rp)" for t
    using blockedD(5) [OF blk len that] .
  have room: "push_region_a e (region_a s) \<noteq> None" for e
    using region_a_fifo.push_blocks [OF ainv, of e] a ring_bounds(2) [OF ainv] by simp
  have "parser ?rp = P_Pop"
  proof (cases "parser ?rp")
    case (P_Push e)
    obtain a where "push_region_a e (region_a s) = Some a" using room [of e] by auto
    then show ?thesis using none(1) P_Push by (simp add: parser_step_def Let_def)
  next
    case (P_Eof l)
    obtain a where "push_region_a (eof_entry r l) (region_a s) = Some a" using room [of "eof_entry r l"] by auto
    then show ?thesis using none(1) P_Eof by (simp add: parser_step_def Let_def)
  qed (use alive not_done in auto)
  then have "private_buffer_pop (buffer ?rp) = Blocked"
    using none(1) by (auto simp: parser_step_def Let_def split: pop_result.splits)
  then have empty: "ring_contents (buffer ?rp) = []" "\<not> producers_done (buffer ?rp)"
    by (auto simp: private_buffer_pop_def ring_empty_iff split: if_splits prod.splits)
  then have "\<not> list_all (\<lambda>es. es = []) (todo ?rp)"
    using none(2) alive by (auto simp: readers_joined_step_def Let_def split: if_splits)
  then obtain t where t: "t < length (todo ?rp)" "todo ?rp ! t \<noteq> []" by (auto simp: list_all_length)
  obtain e es where e: "todo ?rp ! t = e # es" using t(2) by (cases "todo ?rp ! t") auto
  have "private_buffer_push e (buffer ?rp) \<noteq> None"
    using private_fifo.push_blocks [OF binv, of e] empty(1) ring_bounds(2) [OF binv] by simp
  then show False using thread [OF t(1)] e by (auto simp: reader_thread_step_def Let_def)
qed

lemma blocked_dispatcher:
  assumes blk: "blocked opts s" and pinv: "pipe_inv R s" and linv: "live_inv R s"
  shows "dispatcher s = D_Done \<or> (dispatcher s = D_Pop \<and> finished_levels s < 4 \<and> ring_contents (region_a s) = [])"
proof -
  have flow: "flow_inv R s" using pinv by (simp add: pipe_inv_def)
  have none: "dispatcher_step opts s = None" "aggregator_step opts s = None"
    using blockedD(1,2) [OF blk] by auto
  show ?thesis
  proof (cases "dispatcher s")
    case D_Pop
    then have "finished_levels s < 4" using none(1) by (auto simp: dispatcher_step_def split: if_splits)
    moreover from this have "\<forall>e a. pop_region_a (region_a s) \<noteq> Got e a"
      using none(1) D_Pop by (auto simp: dispatcher_step_def split: pop_result.splits)
    then have "ring_contents (region_a s) = []" using region_a_fifo.pop_fails [of "region_a s"] flow by (auto simp: flow_inv_def)
    ultimately show ?thesis using D_Pop by simp
  next
    case (D_PushB e)
    let ?l = "nat (level_index e)"
    have l: "?l < 4" using flow D_PushB by (simp add: flow_inv_def routable_def nat_less_iff)
    have b: "ring_inv (region_b s ! ?l)" using flow l by (auto simp: flow_inv_def list_all_length)
    have "push_region_b e (region_b s ! ?l) = None"
      using none(1) D_PushB by (auto simp: dispatcher_step_def Let_def split: option.splits)
    then have "ring_contents (region_b s ! ?l) \<noteq> []"
      using region_b_fifo.push_blocks [OF b, of e] ring_bounds(2) [OF b] by (auto simp: ring_empty_iff)
    then show ?thesis using blocked_level(1) [OF blk pinv linv l] by blast
  next
    case (D_PushD e)
    have d: "ring_inv (region_d s)" using flow by (simp add: flow_inv_def)
    have "push_region_d e (region_d s) = None" using none(1) D_PushD by (auto simp: dispatcher_step_def split: option.splits)
    then have ne: "ring_contents (region_d s) \<noteq> []"
      using region_d_fifo.push_blocks [OF d, of e] ring_bounds(2) [OF d] by (auto simp: ring_empty_iff)
    then obtain x y where "pop_region_d (region_d s) = Got x y" using region_d_fifo.pop_fails [OF d] by auto
    then have "aggregator s \<noteq> G_Drain" using none(2) by (auto simp: aggregator_step_def)
    moreover have "aggregator s \<noteq> G_Score z" for z using none(2) by (auto simp: aggregator_step_def)
    ultimately have "drained (aggregator s)" by (cases "aggregator s") auto
    then show ?thesis using pinv ne by (auto simp: pipe_inv_def aggregator_inv_def)
  qed (use none(1) in \<open>auto simp: dispatcher_step_def\<close>)
qed

lemma blocked_done:
  assumes blk: "blocked opts s" and pinv: "pipe_inv R s" and linv: "live_inv R s" and disp: "dispatcher s = D_Done"
  shows "aggregator s = G_Done"
proof -
  have len: "length (region_b s) = 4" using pinv by (simp add: pipe_inv_def flow_inv_def)
  have "posted_count s = 4" using linv disp by (simp add: live_inv_def)
  then have ready: "ready (level_result (analyzers s ! l))" if "l < 4" for l
    using posted_all [OF len _ that] blocked_level(2) [OF blk pinv linv that] by blast
  have none: "aggregator_step opts s = None"
    using blockedD(2) [OF blk] .
  have "dispatcher_done (region_d s)" using pinv disp by (simp add: pipe_inv_def aggregator_inv_def)
  then have "pop_region_d (region_d s) \<noteq> Blocked" by (simp add: pop_region_d_def split: prod.splits)
  moreover have "level_ready (analyzers s ! l) > 0" if "aggregator s = G_Wait l" "l < 4" for l
    using linv that ready [OF that(2)] by (auto simp: live_inv_def)
  moreover have "l < 4" if "aggregator s = G_Wait l" for l
    using pinv that by (simp add: pipe_inv_def aggregator_inv_def)
  ultimately show ?thesis using none ready
    by (cases "aggregator s") (auto simp: aggregator_step_def Let_def split: pop_result.splits if_splits)
qed

lemma unsent_reader:
  assumes "unsent l rs \<noteq> 0"
  obtains rp where "rp \<in> set rs" "eofs_pushed (parser rp) \<le> l"
  using assms unfolding unsent_def by (induction rs) (auto split: if_splits)

section \<open>A file that cannot be opened\<close>

definition missing_inv :: "nat \<Rightarrow> nat \<Rightarrow> pipeline \<Rightarrow> bool" where
  "missing_inv R r s \<longleftrightarrow>
     r < R \<and> parser (readers s ! r) = P_Exited \<and> finished_levels s = 0 \<and>
     dispatcher s \<noteq> D_Finish \<and> dispatcher s \<noteq> D_Done \<and>
     total_readers (region_a s) = R \<and> length (eof_count_per_level (region_a s)) = 4 \<and>
     (\<forall>l<4. int (eof_count_per_level (region_a s) ! l) + unsent l (readers s) = int R)"

lemma unsent_exited:
  assumes "r < length rs" and "parser (rs ! r) = P_Exited"
  shows "1 \<le> unsent l rs"
proof -
  have "rs ! r \<in> set rs" using assms(1) by simp
  then have "(if eofs_pushed (parser (rs ! r)) \<le> l then 1 else 0) \<le> unsent l rs"
    unfolding unsent_def by (rule sum_list_ge_member [rotated]) auto
  then show ?thesis using assms(2) by simp
qed

lemma missing_inv_reader:
  assumes "missing_inv R r s" and "q < length (readers s)" and "length (readers s) = R"
    and "eofs_pushed (parser rp) = eofs_pushed (parser (readers s ! q))"
    and "parser (readers s ! q) = P_Exited \<Longrightarrow> parser rp = P_Exited"
  shows "missing_inv R r (set_reader q rp s)"
  using assms by (cases "q = r") (auto simp: missing_inv_def set_reader_def unsent_update)

lemma missing_inv_move:
  assumes pinv: "pipe_inv R s" and inv: "missing_inv R r s" and move: "pmove opts s s'" and files: "length (files opts) = R"
  shows "missing_inv R r s'"
proof -
  have len: "length (readers s) = R" "length (eof_seen s) = 4" using pinv by (auto simp: pipe_inv_def flow_inv_def)
  have un: "1 \<le> unsent l (readers s)" for l using inv len by (intro unsent_exited [of r]) (auto simp: missing_inv_def)
  note upd = missing_inv_reader [OF inv _ len(1)]
  show ?thesis
    using move
  proof cases
    case (parser_push q rp e a)
    have "reader_inv q (readers s ! q)" using pinv parser_push by (auto simp: pipe_inv_def flow_inv_def)
    then have "\<not> is_eof e" using parser_push by (auto simp: reader_inv_def reader_pending_def plain_entry_def)
    then have "missing_inv R r (s\<lparr>region_a := a\<rparr>)" using inv parser_push by (simp add: missing_inv_def eof_counted_def)
    from missing_inv_reader [OF this, of q] show ?thesis using parser_push len by simp
  next
    case (parser_eof q rp l a)
    have ok: "parser_ok (P_Eof l)" using pinv parser_eof by (auto simp: pipe_inv_def flow_inv_def reader_inv_def)
    have "q \<noteq> r" using inv parser_eof by (auto simp: missing_inv_def)
    then show ?thesis using inv parser_eof ok len
      by (auto simp: missing_inv_def set_reader_def unsent_update eof_counted_def nth_list_update
          eofs_pushed_step [OF ok] simp del: eofs_pushed.simps(2) split del: if_split)
        (auto split: if_splits)
  next
    case (disp_check)
    have "int (eof_count_per_level (region_a s) ! 0) + unsent 0 (readers s) = int R" using inv by (simp add: missing_inv_def)
    then have "eof_count_per_level (region_a s) ! 0 < R" using un [of 0] by linarith
    then have "\<not> timeout_all_done (region_a s)"
      using inv by (auto simp: missing_inv_def timeout_all_done_def list_all_length intro!: exI [of _ 0])
    then show ?thesis using inv disp_check by (simp add: missing_inv_def)
  next
    case (disp_eof e)
    let ?l = "nat (level_index e)"
    have l: "?l < 4" "is_eof e" "level_index e = int ?l" using pinv disp_eof by (auto simp: pipe_inv_def flow_inv_def entry_ok_def)
    have "int (eof_seen s ! ?l) + marks ?l (ring_contents (region_a s)) + 1 + unsent ?l (readers s) = int R"
      using pinv l disp_eof len by (auto simp: pipe_inv_def count_inv_def)
    then have "eof_seen s ! ?l + 1 \<noteq> length (files opts)"
      using un [of ?l] marks_nonneg [of ?l "ring_contents (region_a s)"] files by linarith
    then show ?thesis using inv disp_eof l len by (simp add: missing_inv_def dispatch_eof_def Let_def)
  qed (use inv in \<open>auto intro!: upd\<close>, auto simp: missing_inv_def set_analyzer_def)
qed

text \<open>In every state that is reached without the dispatcher's timeout check ending its loop, the condition of some
  thread holds, until the aggregator has written the report; that the thread is also awake is shown in
  \<open>Log_Wait\<close>.\<close>

lemma pipeline_enabled:
  assumes "\<not> options_invalid opts" and "length (files opts) = length contents"
    and "list_all (\<lambda>c. c \<noteq> None) contents" and "contents \<noteq> []"
    and "calm_reach opts (init_pipeline opts fd contents) s" and "aggregator s \<noteq> G_Done"
  shows "\<exists>a s'. a \<noteq> Timeout \<and> pstep opts a s = Some s'"
proof (rule ccontr)
  assume "\<not> ?thesis"
  then have blk: "blocked opts s" by (auto simp: blocked_def)
  let ?R = "length contents"
  have inv: "pipe_inv ?R s" "live_inv ?R s"
    using calm_reach_inv [OF assms(5) pipe_inv_init [OF assms(1) refl] live_inv_init [OF assms(1,3,4)] assms(2)] by auto
  have flow: "flow_inv ?R s" and cnt: "count_inv s" using inv(1) by (auto simp: pipe_inv_def)
  have pop: "dispatcher s = D_Pop" "finished_levels s < 4" "ring_contents (region_a s) = []"
    using blocked_dispatcher [OF blk inv] blocked_done [OF blk inv] assms(6) by auto
  have "length (region_b s) = 4" using flow by (simp add: flow_inv_def)
  moreover have "posted_count s < 4" using inv(2) pop(2) by (simp add: live_inv_def)
  ultimately obtain l where l: "l < 4" "\<not> eof_posted (region_b s ! l)"
    unfolding posted_count_def by (metis filter_True in_set_conv_nth nat_neq_iff)
  then have "eof_seen s ! l \<noteq> ?R" using inv(2) by (auto simp: live_inv_def)
  then have "unsent l (readers s) \<noteq> 0"
    using cnt l(1) pop flow by (auto simp: count_inv_def flow_inv_def)
  then obtain rp where rp: "rp \<in> set (readers s)" "eofs_pushed (parser rp) \<le> l" by (rule unsent_reader)
  then obtain r where r: "r < ?R" "rp = readers s ! r" using flow by (metis flow_inv_def in_set_conv_nth)
  have "parser rp \<noteq> P_Exited" using inv(2) rp(1) by (simp add: live_inv_def)
  then have "parser rp = P_Done" using blocked_reader [OF blk flow r(1) pop(3)] r(2) by simp
  then show False using rp(2) l(1) by simp
qed

section \<open>Properties\<close>

text \<open>The actors of a state.\<close>

definition all_actors :: "pipeline \<Rightarrow> actor list" where
  "all_actors s =
     [Dispatcher, Timeout, Aggregator] @ map Analyzer [0..<length (analyzers s)] @
     concat (map (\<lambda>r. [Readers_Joined r, Parser r] @ map (Reader_Thread r) [0..<length (todo (readers s ! r))]) [0..<length (readers s)]) @
     concat (map (\<lambda>l. map (Worker l) [0..<length (workers (analyzers s ! l))]) [0..<length (analyzers s)])"

lemma all_actors_stuck: "list_all (\<lambda>a. Option.is_none (pstep opts a s)) (all_actors s) \<Longrightarrow> pstep opts a s = None"
proof (cases "a \<in> set (all_actors s)")
  case False
  then show ?thesis by (cases a) (auto simp: all_actors_def pstep_def image_iff)
qed (simp add: list_all_iff Option.is_none_def)

definition race_schedule :: "actor list" where
  "race_schedule =
     [Timeout, Readers_Joined 0] @ replicate 5 (Parser 0) @ [Dispatcher, Dispatcher, Aggregator]"

text \<open>(C14) The dispatcher's timeout check races with the readers: it looks at the counters that
  readers increment when they push an end marker, after it has released the mutex under which it saw
  Region A empty. If the last markers arrive in between, it leaves its loop with the markers
  still in Region A; then no thread can ever move again and the report is never written.\<close>

theorem dispatcher_timeout_deadlock:
  "\<exists>s. preach demo_opts (init_pipeline demo_opts (\<lambda>_. 3) [Some []]) s \<and>
       (\<forall>a. pstep demo_opts a s = None) \<and> dispatcher s = D_Done \<and> length (ring_contents (region_a s)) = 4 \<and>
       aggregator s \<noteq> G_Done \<and> report s = None"
proof -
  let ?s0 = "init_pipeline demo_opts (\<lambda>_. 3) [Some []]"
  have "map_option (\<lambda>s. list_all (\<lambda>a. Option.is_none (pstep demo_opts a s)) (all_actors s) \<and> dispatcher s = D_Done \<and>
      length (ring_contents (region_a s)) = 4 \<and> aggregator s \<noteq> G_Done \<and> Option.is_none (report s)) (prun demo_opts race_schedule ?s0) = Some True"
    by code_simp
  then obtain s where s: "prun demo_opts race_schedule ?s0 = Some s"
    and f: "list_all (\<lambda>a. Option.is_none (pstep demo_opts a s)) (all_actors s)" "dispatcher s = D_Done"
      "length (ring_contents (region_a s)) = 4" "aggregator s \<noteq> G_Done" "report s = None"
    by (auto simp: Option.is_none_def)
  have "preach demo_opts ?s0 s" using prun_preach [OF s] preach.start by blast
  then show ?thesis using f all_actors_stuck by blast
qed

text \<open>(C15) A log file that cannot be opened blocks the program: its reader process exits without
  sending end markers, so no level is ever closed, the dispatcher never ends and the report is never
  written, whatever the other readers do and however often the dispatcher times out.\<close>

theorem missing_file_never_ends:
  assumes "\<not> options_invalid opts" and "length (files opts) = length contents"
    and "r < length contents" and "contents ! r = None"
    and "preach opts (init_pipeline opts fd contents) s"
  shows "dispatcher s \<noteq> D_Done \<and> aggregator s \<noteq> G_Done \<and> posted_count s = 0"
proof -
  let ?R = "length contents" and ?s0 = "init_pipeline opts fd contents"
  have "eofs_pushed (parser (init_reader opts fd q c)) = 0" for q c by (simp add: init_reader_def split: option.splits)
  then have "missing_inv ?R r ?s0"
    using assms by (simp add: missing_inv_def init_pipeline_def init_reader_def [of _ _ _ None] init_region_a_def unsent_def comp_def sum_list_triv)
  then have start: "pipe_inv ?R ?s0 \<and> missing_inv ?R r ?s0" using pipe_inv_init [OF assms(1) refl] by blast
  have inv: "pipe_inv ?R s \<and> missing_inv ?R r s"
    using assms(5)
  proof (induction rule: preach.induct)
    case (step s a s')
    then have "pmove opts s s'" using flow_pmove by (auto simp: pipe_inv_def)
    then show ?case using step pipe_inv_move missing_inv_move assms(2) by blast
  qed (rule start)
  then have "dispatcher s \<noteq> D_Done" and un: "1 \<le> unsent l (readers s)" for l
    using unsent_exited [of r "readers s" l] by (auto simp: missing_inv_def pipe_inv_def flow_inv_def)
  moreover from this have "aggregator s \<noteq> G_Done" using inv by (auto simp: pipe_inv_def aggregator_inv_def)
  moreover have "\<not> eof_posted b" if b: "b \<in> set (region_b s)" for b
  proof
    assume p: "eof_posted b"
    obtain l where l: "l < 4" "b = region_b s ! l"
      using b inv by (metis flow_inv_def in_set_conv_nth pipe_inv_def)
    then have "eof_seen s ! l = length (readers s)" using p inv by (auto simp: pipe_inv_def post_inv_def)
    then show False
      using inv l(1) un [of l] marks_nonneg [of l "ring_contents (region_a s)"] marks_nonneg [of l "eof_hand (dispatcher s)"]
      unfolding pipe_inv_def count_inv_def by fastforce
  qed
  ultimately show ?thesis by (simp add: posted_count_def filter_empty_conv)
qed

theorem missing_file_never_ends_witness:
  "dispatcher (init_pipeline demo_opts (\<lambda>_. 3) [None]) \<noteq> D_Done \<and> posted_count (init_pipeline demo_opts (\<lambda>_. 3) [None]) = 0"
proof -
  have "\<not> options_invalid demo_opts" by code_simp
  moreover have "length (files demo_opts) = length [None :: string option]" by (simp add: demo_opts_def)
  ultimately show ?thesis
    using missing_file_never_ends [of demo_opts "[None]" 0 "\<lambda>_. 3", OF _ _ _ _ preach.start] by simp
qed

end
