(* ===== verification/Wait_Sets.thy ===== *)
theory Wait_Sets
  imports Main
begin

text \<open>
  Condition variables: threads that test a condition under a mutex and sleep when it does not hold, and the
  signals and broadcasts that wake them. The interface \<open>wait_sets\<close> says what the steps of a program must satisfy for
  no wake-up to be lost; it is used for the log pipeline.
\<close>

section \<open>Waking\<close>

text \<open>What a step does to a condition variable: nothing, \<open>pthread_cond_signal\<close> or \<open>pthread_cond_broadcast\<close>.\<close>

datatype notice = Nobody | One_Waiter | All_Waiters

text \<open>The threads of a set that wait at a condition variable.\<close>

definition sleeping_at :: "('a \<Rightarrow> 'c option) \<Rightarrow> 'a set \<Rightarrow> 'c \<Rightarrow> 'a set" where
  "sleeping_at at A c = {a \<in> A. at a = Some c}"

text \<open>A signal wakes at least one of the sleepers if there is any, a broadcast all of them; others may wake up
  at the same time.\<close>

definition wakes :: "('c \<Rightarrow> notice) \<Rightarrow> ('a \<Rightarrow> 'c option) \<Rightarrow> 'a set \<Rightarrow> 'a set \<Rightarrow> bool" where
  "wakes n at A A' \<longleftrightarrow>
     A' \<subseteq> A \<and>
     (\<forall>c. case n c of
            Nobody \<Rightarrow> True
          | One_Waiter \<Rightarrow> sleeping_at at A c = {} \<or> sleeping_at at A' c \<noteq> sleeping_at at A c
          | All_Waiters \<Rightarrow> sleeping_at at A' c = {})"

lemma wakesD:
  assumes "wakes n at A A'"
  shows "A' \<subseteq> A"
    and "n c = All_Waiters \<Longrightarrow> sleeping_at at A' c = {}"
    and "n c = One_Waiter \<Longrightarrow> sleeping_at at A' c \<noteq> {} \<Longrightarrow> \<exists>x\<in>A - A'. at x = Some c"
proof -
  show sub: "A' \<subseteq> A" using assms by (simp add: wakes_def)
  have c: "case n c of Nobody \<Rightarrow> True
      | One_Waiter \<Rightarrow> sleeping_at at A c = {} \<or> sleeping_at at A' c \<noteq> sleeping_at at A c
      | All_Waiters \<Rightarrow> sleeping_at at A' c = {}"
    using assms unfolding wakes_def by blast
  show "sleeping_at at A' c = {}" if "n c = All_Waiters" using c that by simp
  show "\<exists>x\<in>A - A'. at x = Some c" if "n c = One_Waiter" "sleeping_at at A' c \<noteq> {}"
    using c that sub by (auto simp: sleeping_at_def)
qed

text \<open>No wake-up is lost: where threads sleep, the condition variable is not closed for good, and there are at
  least as many threads awake at it as there are units that a thread could take.\<close>

definition rested :: "('a \<Rightarrow> 'c option) \<Rightarrow> ('c \<Rightarrow> nat) \<Rightarrow> ('c \<Rightarrow> bool) \<Rightarrow> 'a set \<Rightarrow> bool" where
  "rested at av cl A \<longleftrightarrow>
     (\<forall>a\<in>A. at a \<noteq> None) \<and>
     (\<forall>c. sleeping_at at A c \<noteq> {} \<longrightarrow> \<not> cl c \<and> av c \<le> card {a. at a = Some c \<and> a \<notin> A})"

lemma rested_empty: "rested at av cl {}"
  by (simp add: rested_def sleeping_at_def)

section \<open>The interface\<close>

text \<open>\<open>waits_at s a\<close> is the condition variable whose condition thread \<open>a\<close> has to test next. A condition holds when
  its condition variable is closed (the end of a stream) or when there are units to take. \<open>owner b\<close> is the thread
  that the step \<open>b\<close> belongs to.\<close>

locale wait_sets =
  fixes step :: "'a \<Rightarrow> 's \<Rightarrow> 's option"
    and owner :: "'a \<Rightarrow> 'a"
    and waits_at :: "'s \<Rightarrow> 'a \<Rightarrow> 'c option"
    and avail :: "'s \<Rightarrow> 'c \<Rightarrow> nat"
    and closed :: "'s \<Rightarrow> 'c \<Rightarrow> bool"
    and notify :: "'a \<Rightarrow> 's \<Rightarrow> 'c \<Rightarrow> notice"
    and ok :: "'s \<Rightarrow> bool"
  assumes waiting: "ok s \<Longrightarrow> waits_at s a = Some c \<Longrightarrow> step a s = None \<longleftrightarrow> \<not> closed s c \<and> avail s c = 0"
    and frame: "ok s \<Longrightarrow> step b s = Some s' \<Longrightarrow> a \<noteq> owner b \<Longrightarrow> waits_at s' a = waits_at s a"
    and finite_waiters: "finite {a. waits_at s a = Some c}"
    and grows: "ok s \<Longrightarrow> step b s = Some s' \<Longrightarrow> notify b s c \<noteq> All_Waiters \<Longrightarrow>
      avail s' c \<le> avail s c + (if notify b s c = One_Waiter then 1 else 0)"
    and closes: "ok s \<Longrightarrow> step b s = Some s' \<Longrightarrow> closed s' c \<Longrightarrow> closed s c \<or> notify b s c = All_Waiters"
    and leaves: "ok s \<Longrightarrow> step b s = Some s' \<Longrightarrow> waits_at s (owner b) = Some c \<Longrightarrow> waits_at s' (owner b) \<noteq> Some c \<Longrightarrow>
      \<not> closed s c \<Longrightarrow> avail s' c \<le> avail s c - 1"
begin

abbreviation no_lost :: "'s \<Rightarrow> 'a set \<Rightarrow> bool" where
  "no_lost s A \<equiv> rested (waits_at s) (avail s) (closed s) A"

lemma sleep_keeps:
  assumes "ok s" and "no_lost s A" and "step a s = None" and "waits_at s a \<noteq> None"
  shows "no_lost s (insert a A)"
proof -
  obtain c where c: "waits_at s a = Some c" using assms(4) by blast
  have blocked: "\<not> closed s c" "avail s c = 0" using waiting [OF assms(1) c] assms(3) by auto
  have "\<not> closed s d \<and> avail s d \<le> card {x. waits_at s x = Some d \<and> x \<notin> insert a A}"
    if "sleeping_at (waits_at s) (insert a A) d \<noteq> {}" for d
  proof (cases "d = c")
    case False
    with c have "sleeping_at (waits_at s) A d \<noteq> {}" "{x. waits_at s x = Some d \<and> x \<notin> insert a A} = {x. waits_at s x = Some d \<and> x \<notin> A}"
      using that by (auto simp: sleeping_at_def)
    with assms(2) show ?thesis by (simp add: rested_def)
  qed (use blocked in simp)
  then show ?thesis using assms(2,4) by (simp add: rested_def)
qed

lemma spurious_keeps:
  assumes "no_lost s A"
  shows "no_lost s (A - {a})"
proof -
  have "\<not> closed s c \<and> avail s c \<le> card {x. waits_at s x = Some c \<and> x \<notin> A - {a}}"
    if "sleeping_at (waits_at s) (A - {a}) c \<noteq> {}" for c
  proof -
    have "sleeping_at (waits_at s) A c \<noteq> {}" using that by (auto simp: sleeping_at_def)
    moreover have "card {x. waits_at s x = Some c \<and> x \<notin> A} \<le> card {x. waits_at s x = Some c \<and> x \<notin> A - {a}}"
      using finite_waiters [of s c] by (intro card_mono finite_subset [OF _ finite_waiters]) auto
    ultimately show ?thesis using assms by (fastforce simp: rested_def)
  qed
  then show ?thesis using assms by (simp add: rested_def)
qed

lemma move_keeps:
  assumes "ok s" and inv: "no_lost s A" and step: "step b s = Some s'"
    and w: "wakes (notify b s) (waits_at s) (A - {owner b}) A'"
  shows "no_lost s' A'"
proof -
  let ?o = "owner b"
  have sub: "A' \<subseteq> A - {?o}" by (rule wakesD(1) [OF w])
  have same: "waits_at s' a = waits_at s a" if "a \<noteq> ?o" for a using frame [OF assms(1) step that] .
  have sl: "sleeping_at (waits_at s') B c = sleeping_at (waits_at s) B c" if "B \<subseteq> A - {?o}" for B c
  proof -
    have "waits_at s' a = waits_at s a" if "a \<in> B" for a using that \<open>B \<subseteq> A - {?o}\<close> by (intro same) auto
    then show ?thesis by (auto simp: sleeping_at_def)
  qed
  have "\<not> closed s' c \<and> avail s' c \<le> card {a. waits_at s' a = Some c \<and> a \<notin> A'}"
    if ne: "sleeping_at (waits_at s') A' c \<noteq> {}" for c
  proof -
    let ?aw = "{a. waits_at s a = Some c \<and> a \<notin> A}" and ?aw' = "{a. waits_at s' a = Some c \<and> a \<notin> A'}"
    have ne': "sleeping_at (waits_at s) A' c \<noteq> {}" using ne sl [OF sub] by simp
    then have "sleeping_at (waits_at s) A c \<noteq> {}" using sub by (auto simp: sleeping_at_def)
    with inv have old: "\<not> closed s c" "avail s c \<le> card ?aw" unfolding rested_def by blast+
    have fin: "finite ?aw" "finite ?aw'"
      using finite_subset [OF _ finite_waiters [of s c], of ?aw] finite_subset [OF _ finite_waiters [of s' c], of ?aw'] by blast+
    have not_all: "notify b s c \<noteq> All_Waiters" using wakesD(2) [OF w, of c] ne' by blast
    have "avail s' c \<le> card ?aw'"
    proof (cases "waits_at s ?o = Some c \<and> waits_at s' ?o \<noteq> Some c")
      case True
      have "?aw - {?o} \<subseteq> ?aw'" using same sub by auto
      then have "card ?aw - 1 \<le> card ?aw'"
        using card_mono [OF fin(2), of "?aw - {?o}"] diff_card_le_card_Diff [of "{?o}" ?aw] by simp
      with leaves [OF assms(1) step, of c] True old show ?thesis by linarith
    next
      case False
      have mono: "?aw \<subseteq> ?aw'"
      proof
        fix x assume x: "x \<in> ?aw"
        then show "x \<in> ?aw'" using False same [of x] sub by (cases "x = ?o") auto
      qed
      show ?thesis
      proof (cases "notify b s c")
        case One_Waiter
        then obtain x where x: "x \<in> A" "x \<noteq> ?o" "waits_at s x = Some c" "x \<notin> A'"
          using wakesD(3) [OF w _ ne'] by blast
        then have "insert x ?aw \<subseteq> ?aw'" using mono same [of x] by auto
        then have "Suc (card ?aw) \<le> card ?aw'" using card_mono [OF fin(2), of "insert x ?aw"] x(1) fin(1) by simp
        with grows [OF assms(1) step not_all] One_Waiter old show ?thesis by simp
      next
        case Nobody
        with grows [OF assms(1) step not_all] old card_mono [OF fin(2) mono] show ?thesis by simp
      qed (use not_all in simp)
    qed
    with closes [OF assms(1) step, of c] old not_all show ?thesis by blast
  qed
  moreover have "waits_at s' a \<noteq> None" if "a \<in> A'" for a
  proof -
    have "a \<in> A" "a \<noteq> ?o" using that sub by auto
    with inv same show ?thesis by (simp add: rested_def)
  qed
  ultimately show ?thesis by (simp add: rested_def)
qed

text \<open>Where some thread could move, a thread that is awake can.\<close>

lemma awake_moves:
  assumes "ok s" and "no_lost s A" and "step a s \<noteq> None"
  shows "\<exists>b. b \<notin> A \<and> step b s \<noteq> None \<and> (b = a \<or> waits_at s b \<noteq> None)"
proof (cases "a \<in> A")
  case True
  then obtain c where c: "waits_at s a = Some c" using assms(2) by (auto simp: rested_def)
  then have "sleeping_at (waits_at s) A c \<noteq> {}" using True by (auto simp: sleeping_at_def)
  with assms(2) have r: "\<not> closed s c" "avail s c \<le> card {x. waits_at s x = Some c \<and> x \<notin> A}" unfolding rested_def by blast+
  have "0 < avail s c" using waiting [OF assms(1) c] assms(3) r(1) by auto
  with r(2) have "card {x. waits_at s x = Some c \<and> x \<notin> A} \<noteq> 0" by linarith
  then have "{x. waits_at s x = Some c \<and> x \<notin> A} \<noteq> {}" by (metis card.empty)
  then obtain b where b: "waits_at s b = Some c" "b \<notin> A" by blast
  moreover have "step b s \<noteq> None" using waiting [OF assms(1) b(1)] \<open>0 < avail s c\<close> by simp
  ultimately show ?thesis by auto
qed (use assms(3) in auto)

end

end
