(* ===== verification/Log_Wait.thy ===== *)
theory Log_Wait
  imports Log_Liveness Wait_Sets
begin

text \<open>
  The condition variables of the log pipeline. A step of \<open>Log_Pipeline\<close> is enabled as soon as the condition of its
  thread holds; here a thread whose condition does not hold goes to sleep, and only the signals and broadcasts of
  the code, a timeout or a spurious wake-up let it test its condition again. The waits of \<open>pthread_join\<close>, of the
  barrier and of the process-shared semaphores of the system are not condition variables of the program.
\<close>

section \<open>Waiting and waking\<close>

datatype condvar =
    Not_Full nat
  | Not_Empty nat
  | Not_Full_A
  | Not_Empty_A
  | Not_Full_B nat
  | Not_Empty_B nat
  | Not_Full_D
  | Not_Empty_D
  | Result_Cond nat

text \<open>The condition variable at whose loop a thread is. For \<open>result_cond\<close> the number is the level that the
  aggregator waits for.\<close>

definition waits_at :: "pipeline \<Rightarrow> actor \<Rightarrow> condvar option" where
  "waits_at s a =
     (case a of
        Reader_Thread r t \<Rightarrow>
          if r < length (readers s) \<and> t < length (todo (readers s ! r)) \<and> todo (readers s ! r) ! t \<noteq> []
          then Some (Not_Full r) else None
      | Parser r \<Rightarrow>
          if r < length (readers s)
          then (case parser (readers s ! r) of
                  P_Pop \<Rightarrow> Some (Not_Empty r)
                | P_Push e \<Rightarrow> Some Not_Full_A
                | P_Eof l \<Rightarrow> Some Not_Full_A
                | _ \<Rightarrow> None)
          else None
      | Dispatcher \<Rightarrow>
          (case dispatcher s of
             D_Pop \<Rightarrow> if finished_levels s < MAX_LEVELS then Some Not_Empty_A else None
           | D_PushB e \<Rightarrow> Some (Not_Full_B (nat (level_index e)))
           | D_PushD e \<Rightarrow> Some Not_Full_D
           | _ \<Rightarrow> None)
      | Worker l w \<Rightarrow>
          if l < length (analyzers s) \<and> w < length (workers (analyzers s ! l))
          then (case fst (workers (analyzers s ! l) ! w) of W_Pop \<Rightarrow> Some (Not_Empty_B l) | _ \<Rightarrow> None)
          else None
      | Aggregator \<Rightarrow>
          (case aggregator s of G_Drain \<Rightarrow> Some Not_Empty_D | G_Wait l \<Rightarrow> Some (Result_Cond l) | _ \<Rightarrow> None)
      | _ \<Rightarrow> None)"

text \<open>The signals and broadcasts of the steps: \<open>private_buffer_pop\<close> and \<open>push_region_a\<close> in a parser thread,
  \<open>pop_region_a\<close>, \<open>push_region_b\<close>, \<open>push_region_d\<close> and the loop of the dispatcher, \<open>pop_level_entry\<close> in a worker, and
  the loop of the aggregator on Region D.\<close>

definition parser_signals :: "nat \<Rightarrow> pipeline \<Rightarrow> condvar \<Rightarrow> notice" where
  "parser_signals r s c =
     (case parser (readers s ! r) of
        P_Pop \<Rightarrow> if c = Not_Full r \<and> r_count (buffer (readers s ! r)) \<noteq> 0 then One_Waiter else Nobody
      | P_Push e \<Rightarrow> if c = Not_Empty_A then One_Waiter else Nobody
      | P_Eof l \<Rightarrow> if c = Not_Empty_A then One_Waiter else Nobody
      | _ \<Rightarrow> Nobody)"

definition dispatcher_signals :: "program_options_t \<Rightarrow> pipeline \<Rightarrow> condvar \<Rightarrow> notice" where
  "dispatcher_signals opts s c =
     (case dispatcher s of
        D_Pop \<Rightarrow> if c = Not_Full_A \<and> finished_levels s < MAX_LEVELS then One_Waiter else Nobody
      | D_Eof e \<Rightarrow>
          if c = Not_Empty_B (nat (level_index e)) \<and>
             eof_seen s ! nat (level_index e) + 1 = length (files opts) \<and>
             \<not> eof_posted (region_b s ! nat (level_index e))
          then All_Waiters else Nobody
      | D_PushB e \<Rightarrow> if c = Not_Empty_B (nat (level_index e)) then One_Waiter else Nobody
      | D_PushD e \<Rightarrow> if c = Not_Empty_D then One_Waiter else Nobody
      | D_Finish \<Rightarrow> if c = Not_Empty_D then All_Waiters else Nobody
      | _ \<Rightarrow> Nobody)"

definition worker_signals :: "nat \<Rightarrow> nat \<Rightarrow> pipeline \<Rightarrow> condvar \<Rightarrow> notice" where
  "worker_signals l w s c =
     (if fst (workers (analyzers s ! l) ! w) = W_Pop \<and> c = Not_Full_B l \<and> r_count (region_b s ! l) \<noteq> 0
      then One_Waiter else Nobody)"

definition analyzer_signals :: "condvar \<Rightarrow> notice" where
  "analyzer_signals c = (case c of Result_Cond k \<Rightarrow> All_Waiters | _ \<Rightarrow> Nobody)"

definition aggregator_signals :: "pipeline \<Rightarrow> condvar \<Rightarrow> notice" where
  "aggregator_signals s c =
     (if aggregator s = G_Drain \<and> c = Not_Full_D \<and> r_count (region_d s) \<noteq> 0 then One_Waiter else Nobody)"

text \<open>A reader thread signals in \<open>private_buffer_push\<close>; \<open>run_reader_process\<close> broadcasts when it has joined them.\<close>

definition signals_of :: "program_options_t \<Rightarrow> actor \<Rightarrow> pipeline \<Rightarrow> condvar \<Rightarrow> notice" where
  "signals_of opts a s c =
     (case a of
        Reader_Thread r t \<Rightarrow> if c = Not_Empty r then One_Waiter else Nobody
      | Readers_Joined r \<Rightarrow> if c = Not_Empty r then All_Waiters else Nobody
      | Parser r \<Rightarrow> parser_signals r s c
      | Dispatcher \<Rightarrow> dispatcher_signals opts s c
      | Worker l w \<Rightarrow> worker_signals l w s c
      | Analyzer l \<Rightarrow> analyzer_signals c
      | Aggregator \<Rightarrow> aggregator_signals s c
      | Timeout \<Rightarrow> Nobody)"

text \<open>A timeout is a step of the dispatcher.\<close>

fun owner :: "actor \<Rightarrow> actor" where
  "owner Timeout = Dispatcher"
| "owner a = a"

text \<open>The pipeline with the set of the threads that sleep. A thread that is awake makes its step, and the
  condition variables that it signals lose sleepers; or it finds that its condition does not hold and goes to
  sleep, in the same critical section; or a sleeper wakes up without a signal. A timeout also ends a sleep.\<close>

inductive wstep :: "program_options_t \<Rightarrow> pipeline \<times> actor set \<Rightarrow> pipeline \<times> actor set \<Rightarrow> bool" for opts where
  move: "a \<notin> A \<Longrightarrow> pstep opts a s = Some s' \<Longrightarrow> wakes (signals_of opts a s) (waits_at s) (A - {owner a}) A' \<Longrightarrow>
     wstep opts (s, A) (s', A')"
| go_to_sleep: "a \<notin> A \<Longrightarrow> pstep opts a s = None \<Longrightarrow> waits_at s a \<noteq> None \<Longrightarrow> wstep opts (s, A) (s, insert a A)"
| spurious: "a \<in> A \<Longrightarrow> wstep opts (s, A) (s, A - {a})"

text \<open>Runs in which the dispatcher never leaves its loop through the timeout check.\<close>

inductive calm_wreach :: "program_options_t \<Rightarrow> pipeline \<Rightarrow> pipeline \<times> actor set \<Rightarrow> bool" for opts s0 where
  start: "calm_wreach opts s0 (s0, {})"
| step: "calm_wreach opts s0 (s, A) \<Longrightarrow> wstep opts (s, A) w \<Longrightarrow>
    \<not> (dispatcher s = D_TimedOut \<and> timeout_all_done (region_a s)) \<Longrightarrow> calm_wreach opts s0 w"

section \<open>No wake-up is lost\<close>

lemmas signal_defs = signals_of_def parser_signals_def dispatcher_signals_def worker_signals_def analyzer_signals_def aggregator_signals_def

text \<open>The units that can be taken at a condition variable, and whether it is closed for good.\<close>

definition free_slots :: "('e, 'z) ring_scheme \<Rightarrow> nat" where
  "free_slots r = r_capacity r - r_count r"

fun avail :: "pipeline \<Rightarrow> condvar \<Rightarrow> nat" where
  "avail s (Not_Full r) = free_slots (buffer (readers s ! r))"
| "avail s (Not_Empty r) = r_count (buffer (readers s ! r))"
| "avail s Not_Full_A = free_slots (region_a s)"
| "avail s Not_Empty_A = r_count (region_a s)"
| "avail s (Not_Full_B l) = free_slots (region_b s ! l)"
| "avail s (Not_Empty_B l) = r_count (region_b s ! l)"
| "avail s Not_Full_D = free_slots (region_d s)"
| "avail s Not_Empty_D = r_count (region_d s)"
| "avail s (Result_Cond l) = 0"

fun closed :: "pipeline \<Rightarrow> condvar \<Rightarrow> bool" where
  "closed s (Not_Empty r) = producers_done (buffer (readers s ! r))"
| "closed s (Not_Empty_B l) = eof_posted (region_b s ! l)"
| "closed s Not_Empty_D = dispatcher_done (region_d s)"
| "closed s (Result_Cond l) = (ready (level_result (analyzers s ! l)) \<and> level_ready (analyzers s ! l) > 0)"
| "closed s _ = False"

lemma free_slots_simps [simp]:
  "free_slots (ring_put e r) = free_slots r - 1"
  "free_slots (snd (ring_take r)) \<le> Suc (free_slots r)"
  by (auto simp: free_slots_def)

lemma blocked_push: "ring_inv r \<Longrightarrow> r_count r = r_capacity r \<longleftrightarrow> free_slots r = 0"
  using ring_bounds(1) [of r] by (auto simp: free_slots_def)

lemma flow_rings_at:
  assumes "flow_inv R s"
  shows "r < length (readers s) \<Longrightarrow> ring_inv (buffer (readers s ! r))" "ring_inv (region_a s)" "ring_inv (region_d s)"
    "l < 4 \<Longrightarrow> ring_inv (region_b s ! l)" "length (region_b s) = 4" "length (analyzers s) = 4"
  using assms by (auto simp: flow_inv_def reader_inv_def list_all_length)

lemma pipeline_waiting:
  assumes "flow_inv R s" and "waits_at s a = Some c"
  shows "pstep opts a s = None \<longleftrightarrow> \<not> closed s c \<and> avail s c = 0"
proof (cases a)
  case (Reader_Thread r t)
  then have c: "r < length (readers s)" "t < length (todo (readers s ! r))" "todo (readers s ! r) ! t \<noteq> []" "c = Not_Full r"
    using assms(2) by (auto simp: waits_at_def split: if_splits)
  show ?thesis using c Reader_Thread blocked_push [OF flow_rings_at(1) [OF assms(1) c(1)]]
    by (simp add: pstep_def reader_thread_step_def Let_def private_buffer_push_def split: list.splits)
next
  case (Parser r)
  then have r: "r < length (readers s)" using assms(2) by (auto simp: waits_at_def split: if_splits)
  show ?thesis using assms(2) r Parser blocked_push [OF flow_rings_at(2) [OF assms(1)]]
    by (auto simp: waits_at_def pstep_def parser_step_def Let_def private_buffer_pop_def push_region_a_def
        split: parser_pc.splits if_splits prod.splits)
next
  case Dispatcher
  show ?thesis
  proof (cases "dispatcher s")
    case (D_PushB e)
    then have "nat (level_index e) < 4" using flow_hand [OF assms(1) D_PushB] by (simp add: nat_less_iff)
    from blocked_push [OF flow_rings_at(4) [OF assms(1) this]] show ?thesis using D_PushB assms(2) Dispatcher
      by (auto simp: waits_at_def pstep_def dispatcher_step_def Let_def push_region_b_def)
  qed (use assms(2) Dispatcher blocked_push [OF flow_rings_at(3) [OF assms(1)]] in
      \<open>auto simp: waits_at_def pstep_def dispatcher_step_def pop_region_a_def push_region_d_def split: if_splits prod.splits\<close>)
next
  case (Worker l w)
  then show ?thesis using assms(2)
    by (auto simp: waits_at_def pstep_def worker_step_def Let_def pop_level_entry_def split: if_splits worker_pc.splits prod.splits)
next
  case Aggregator
  then show ?thesis using assms(2)
    by (auto simp: waits_at_def pstep_def aggregator_step_def Let_def pop_region_d_def split: aggregator_pc.splits if_splits prod.splits)
qed (use assms(2) in \<open>simp_all add: waits_at_def\<close>)

lemma finite_waiters: "finite {a. waits_at s a = Some c}"
proof (rule finite_subset)
  show "{a. waits_at s a = Some c} \<subseteq> set (all_actors s)"
  proof
    fix a assume "a \<in> {a. waits_at s a = Some c}"
    then show "a \<in> set (all_actors s)" by (cases a) (auto simp: waits_at_def all_actors_def image_iff split: if_splits)
  qed
qed simp

text \<open>What a step has to satisfy so that its signals are enough.\<close>

definition lawful :: "program_options_t \<Rightarrow> actor \<Rightarrow> pipeline \<Rightarrow> pipeline \<Rightarrow> bool" where
  "lawful opts b s s' \<longleftrightarrow>
     (\<forall>a. a \<noteq> owner b \<longrightarrow> waits_at s' a = waits_at s a) \<and>
     (\<forall>c. (closed s' c \<longrightarrow> closed s c \<or> signals_of opts b s c = All_Waiters) \<and>
          (signals_of opts b s c \<noteq> All_Waiters \<longrightarrow>
             avail s' c \<le> avail s c + (if signals_of opts b s c = One_Waiter then 1 else 0)) \<and>
          (waits_at s (owner b) = Some c \<and> waits_at s' (owner b) \<noteq> Some c \<and> \<not> closed s c \<longrightarrow> avail s' c \<le> avail s c - 1))"

lemma lawfulI:
  assumes "\<And>a. a \<noteq> owner b \<Longrightarrow> waits_at s' a = waits_at s a"
    and "\<And>c. closed s' c \<Longrightarrow> closed s c \<or> signals_of opts b s c = All_Waiters"
    and "\<And>c. signals_of opts b s c \<noteq> All_Waiters \<Longrightarrow> avail s' c \<le> avail s c + (if signals_of opts b s c = One_Waiter then 1 else 0)"
    and "\<And>c. waits_at s (owner b) = Some c \<Longrightarrow> waits_at s' (owner b) \<noteq> Some c \<Longrightarrow> \<not> closed s c \<Longrightarrow> avail s' c \<le> avail s c - 1"
  shows "lawful opts b s s'"
  using assms unfolding lawful_def by blast

text \<open>A step that changes one reader process, one analyzer, or only the hands of the threads.\<close>

lemma waits_at_set_reader:
  assumes "r < length (readers s)" and "a \<noteq> Parser r \<or> parser rp = parser (readers s ! r)"
    and "\<And>t. a = Reader_Thread r t \<Longrightarrow> todo rp ! t = todo (readers s ! r) ! t" and "length (todo rp) = length (todo (readers s ! r))"
  shows "waits_at (set_reader r rp s) a = waits_at s a"
  using assms by (cases a) (auto simp: waits_at_def set_reader_def nth_list_update)

lemma reader_thread_lawful:
  assumes "r < length (readers s)" and "reader_thread_step r t s = Some s'"
  shows "lawful opts (Reader_Thread r t) s s'"
proof -
  let ?rp = "readers s ! r"
  obtain e es where e: "todo ?rp ! t = e # es" "s' = set_reader r (?rp\<lparr>todo := (todo ?rp)[t := es], buffer := ring_put e (buffer ?rp)\<rparr>) s"
    using assms(2) by (auto simp: reader_thread_step_def Let_def private_buffer_push_def split: list.splits if_splits)
  show ?thesis
  proof (rule lawfulI)
    fix c show "closed s c \<or> signals_of opts (Reader_Thread r t) s c = All_Waiters" if "closed s' c"
      using that assms(1) e by (cases c) (auto simp: set_reader_def nth_list_update ring_put_def split: if_splits)
  next
    fix c show "avail s' c \<le> avail s c + (if signals_of opts (Reader_Thread r t) s c = One_Waiter then 1 else 0)"
      using assms(1) e by (cases c) (auto simp: set_reader_def nth_list_update signal_defs)
  next
    fix c assume "waits_at s (owner (Reader_Thread r t)) = Some c"
    then show "avail s' c \<le> avail s c - 1" using assms(1) e by (auto simp: waits_at_def set_reader_def split: if_splits)
  next
    fix a assume "a \<noteq> owner (Reader_Thread r t)"
    then show "waits_at s' a = waits_at s a" unfolding e(2) using assms(1) by (intro waits_at_set_reader) auto
  qed
qed

lemma waits_at_frame [simp]:
  "waits_at (s\<lparr>region_a := ra\<rparr>) a = waits_at s a" "waits_at (s\<lparr>region_b := rb\<rparr>) a = waits_at s a"
  "waits_at (s\<lparr>region_d := rd\<rparr>) a = waits_at s a" "waits_at (s\<lparr>eof_seen := es\<rparr>) a = waits_at s a"
  "a \<noteq> Dispatcher \<Longrightarrow> waits_at (s\<lparr>dispatcher := d\<rparr>) a = waits_at s a"
  "a \<noteq> Dispatcher \<Longrightarrow> waits_at (s\<lparr>finished_levels := n\<rparr>) a = waits_at s a"
  "a \<noteq> Aggregator \<Longrightarrow> waits_at (s\<lparr>aggregator := g\<rparr>) a = waits_at s a"
  "waits_at (s\<lparr>high_priority := h\<rparr>) a = waits_at s a" "waits_at (s\<lparr>report := rep\<rparr>) a = waits_at s a"
  by (cases a; simp add: waits_at_def)+

lemma joined_lawful:
  assumes "r < length (readers s)" and "readers_joined_step r s = Some s'"
  shows "lawful opts (Readers_Joined r) s s'"
proof -
  let ?rp = "readers s ! r"
  have e: "s' = set_reader r (?rp\<lparr>buffer := (buffer ?rp)\<lparr>producers_done := True\<rparr>\<rparr>) s"
    using assms(2) by (auto simp: readers_joined_step_def Let_def split: if_splits)
  show ?thesis
  proof (rule lawfulI)
    fix c show "closed s c \<or> signals_of opts (Readers_Joined r) s c = All_Waiters" if "closed s' c"
      using that assms(1) e by (cases c) (auto simp: set_reader_def nth_list_update signal_defs split: if_splits)
  next
    fix c show "avail s' c \<le> avail s c + (if signals_of opts (Readers_Joined r) s c = One_Waiter then 1 else 0)"
      using assms(1) e by (cases c) (auto simp: set_reader_def nth_list_update free_slots_def)
  next
    fix a show "waits_at s' a = waits_at s a" unfolding e using assms(1) by (intro waits_at_set_reader) auto
  qed (simp add: waits_at_def)
qed

lemma parser_pop_lawful:
  assumes "r < length (readers s)" and "parser (readers s ! r) = P_Pop" and "parser_step r s = Some s'"
  shows "lawful opts (Parser r) s s'"
proof -
  let ?rp = "readers s ! r"
  have "producers_done (buffer ?rp) \<and> r_count (buffer ?rp) = 0 \<and> s' = set_reader r (?rp\<lparr>parser := P_Eof 0\<rparr>) s \<or>
      r_count (buffer ?rp) \<noteq> 0 \<and>
      s' = set_reader r (?rp\<lparr>buffer := snd (ring_take (buffer ?rp)), parser := P_Push (fst (ring_take (buffer ?rp)))\<rparr>) s"
    using assms(2,3) by (auto simp: parser_step_def Let_def private_buffer_pop_def split: if_splits prod.splits)
  then show ?thesis
  proof
    assume e: "producers_done (buffer ?rp) \<and> r_count (buffer ?rp) = 0 \<and> s' = set_reader r (?rp\<lparr>parser := P_Eof 0\<rparr>) s"
    show ?thesis
    proof (rule lawfulI)
      fix c show "closed s c \<or> signals_of opts (Parser r) s c = All_Waiters" if "closed s' c"
        using that assms(1) e by (cases c) (auto simp: set_reader_def nth_list_update split: if_splits)
    next
      fix c show "avail s' c \<le> avail s c + (if signals_of opts (Parser r) s c = One_Waiter then 1 else 0)"
        using assms(1) e by (cases c) (auto simp: set_reader_def nth_list_update)
    next
      fix c assume "waits_at s (owner (Parser r)) = Some c" "\<not> closed s c"
      then show "avail s' c \<le> avail s c - 1" using assms(1,2) e by (auto simp: waits_at_def split: if_splits)
    next
      fix a assume "a \<noteq> owner (Parser r)"
      then show "waits_at s' a = waits_at s a" using e assms(1) by (auto intro!: waits_at_set_reader)
    qed
  next
    assume e: "r_count (buffer ?rp) \<noteq> 0 \<and>
      s' = set_reader r (?rp\<lparr>buffer := snd (ring_take (buffer ?rp)), parser := P_Push (fst (ring_take (buffer ?rp)))\<rparr>) s"
    show ?thesis
    proof (rule lawfulI)
      fix c show "closed s c \<or> signals_of opts (Parser r) s c = All_Waiters" if "closed s' c"
        using that assms(1) e by (cases c) (auto simp: set_reader_def nth_list_update ring_take_def split: if_splits)
    next
      fix c show "avail s' c \<le> avail s c + (if signals_of opts (Parser r) s c = One_Waiter then 1 else 0)"
        using assms(1,2) e by (cases c) (auto simp: set_reader_def nth_list_update signal_defs)
    next
      fix c assume "waits_at s (owner (Parser r)) = Some c"
      then show "avail s' c \<le> avail s c - 1" using assms(1,2) e by (auto simp: waits_at_def set_reader_def split: if_splits)
    next
      fix a assume "a \<noteq> owner (Parser r)"
      then show "waits_at s' a = waits_at s a" using e assms(1) by (auto intro!: waits_at_set_reader)
    qed
  qed
qed

lemma push_region_a_fields:
  assumes "push_region_a e a = Some a'"
  shows "r_count a' = r_count a + 1" "free_slots a' = free_slots a - 1"
  using assms by (auto simp: push_region_a_def Let_def free_slots_def split: if_splits)

lemma parser_push_lawful:
  assumes "r < length (readers s)" and "(\<exists>e. parser (readers s ! r) = P_Push e) \<or> (\<exists>l. parser (readers s ! r) = P_Eof l)"
    and "parser_step r s = Some s'"
  shows "lawful opts (Parser r) s s'"
proof -
  let ?rp = "readers s ! r"
  obtain pc e a' where e: "push_region_a e (region_a s) = Some a'" "s' = set_reader r (?rp\<lparr>parser := pc\<rparr>) (s\<lparr>region_a := a'\<rparr>)"
    using assms(2,3) by (auto simp: parser_step_def Let_def split: option.splits)
  note f = push_region_a_fields [OF e(1)]
  show ?thesis
  proof (rule lawfulI)
    fix c show "closed s c \<or> signals_of opts (Parser r) s c = All_Waiters" if "closed s' c"
      using that assms(1) e by (cases c) (auto simp: set_reader_def nth_list_update split: if_splits)
  next
    fix c show "avail s' c \<le> avail s c + (if signals_of opts (Parser r) s c = One_Waiter then 1 else 0)"
      using assms(1,2) e f by (cases c) (auto simp: set_reader_def nth_list_update signal_defs)
  next
    fix c assume "waits_at s (owner (Parser r)) = Some c"
    then show "avail s' c \<le> avail s c - 1" using assms(1,2) e f by (auto simp: waits_at_def set_reader_def split: if_splits)
  next
    fix a assume "a \<noteq> owner (Parser r)"
    then have "waits_at (set_reader r (?rp\<lparr>parser := pc\<rparr>) (s\<lparr>region_a := a'\<rparr>)) a = waits_at (s\<lparr>region_a := a'\<rparr>) a"
      using assms(1) by (intro waits_at_set_reader) auto
    then show "waits_at s' a = waits_at s a" using e(2) by simp
  qed
qed

lemma parser_lawful:
  assumes "r < length (readers s)" and "parser_step r s = Some s'"
  shows "lawful opts (Parser r) s s'"
proof (cases "parser (readers s ! r)")
  case P_Pop
  then show ?thesis using parser_pop_lawful assms by blast
qed (use assms parser_push_lawful in \<open>auto simp: parser_step_def Let_def\<close>)

text \<open>The dispatcher.\<close>

lemma timeout_lawful:
  assumes "timeout_step s = Some s'"
  shows "lawful opts Timeout s s'"
proof -
  have e: "dispatcher s = D_Pop" "finished_levels s < 4" "r_count (region_a s) = 0" "s' = s\<lparr>dispatcher := D_TimedOut\<rparr>"
    using assms by (auto simp: timeout_step_def split: if_splits)
  have same: "avail s' c = avail s c" "closed s' c = closed s c" for c by (cases c; simp add: e(4))+
  show ?thesis by (rule lawfulI) (use e same in \<open>auto simp: waits_at_def [of _ Dispatcher]\<close>)
qed

lemma disp_pop_lawful:
  assumes "dispatcher s = D_Pop" and "dispatcher_step opts s = Some s'"
  shows "lawful opts Dispatcher s s'"
proof (cases "finished_levels s < 4")
  case False
  then have e: "s' = s\<lparr>dispatcher := D_Finish\<rparr>" using assms by (simp add: dispatcher_step_def)
  have same: "avail s' c = avail s c" "closed s' c = closed s c" for c by (cases c; simp add: e)+
  show ?thesis by (rule lawfulI) (use assms(1) e False same in \<open>auto simp: waits_at_def [of _ Dispatcher]\<close>)
next
  case True
  let ?a = "snd (ring_take (region_a s))"
  obtain d where e: "r_count (region_a s) \<noteq> 0" "s' = s\<lparr>region_a := ?a, dispatcher := d\<rparr>"
    using assms True by (auto simp: dispatcher_step_def pop_region_a_def split: if_splits prod.splits)
  show ?thesis
  proof (rule lawfulI)
    fix c show "closed s c \<or> signals_of opts Dispatcher s c = All_Waiters" if "closed s' c"
      using that e by (cases c) auto
  next
    fix c show "avail s' c \<le> avail s c + (if signals_of opts Dispatcher s c = One_Waiter then 1 else 0)"
      using assms(1) True e by (cases c) (auto simp: signal_defs)
  next
    fix c assume "waits_at s (owner Dispatcher) = Some c"
    then show "avail s' c \<le> avail s c - 1" using assms(1) True e by (auto simp: waits_at_def)
  next
    fix a assume "a \<noteq> owner Dispatcher"
    then show "waits_at s' a = waits_at s a" using e(2) by simp
  qed
qed

lemma disp_eof_lawful:
  assumes flow: "flow_inv R s" and "dispatcher s = D_Eof e" and "s' = dispatch_eof opts e s"
  shows "lawful opts Dispatcher s s'"
proof -
  let ?l = "nat (level_index e)"
  have l: "?l < 4" "length (eof_seen s) = 4" "length (region_b s) = 4"
    using flow assms(2) by (auto simp: flow_inv_def entry_ok_def nat_less_iff)
  obtain post where post: "post \<longleftrightarrow> eof_seen s ! ?l + 1 = length (files opts) \<and> \<not> eof_posted (region_b s ! ?l)" by blast
  have e: "s' = (if post then s\<lparr>eof_seen := (eof_seen s)[?l := eof_seen s ! ?l + 1], dispatcher := D_Pop,
        region_b := (region_b s)[?l := (region_b s ! ?l)\<lparr>eof_posted := True\<rparr>], finished_levels := finished_levels s + 1\<rparr>
      else s\<lparr>eof_seen := (eof_seen s)[?l := eof_seen s ! ?l + 1], dispatcher := D_Pop\<rparr>)"
    unfolding assms(3) post using l by (auto simp: dispatch_eof_def Let_def)
  show ?thesis
  proof (rule lawfulI)
    fix c show "closed s c \<or> signals_of opts Dispatcher s c = All_Waiters" if "closed s' c"
      using that assms(2) e l by (cases c) (auto simp: signal_defs post nth_list_update split: if_splits)
  next
    fix c show "avail s' c \<le> avail s c + (if signals_of opts Dispatcher s c = One_Waiter then 1 else 0)"
      using e l by (cases c) (auto simp: nth_list_update free_slots_def)
  next
    fix a assume "a \<noteq> owner Dispatcher"
    then show "waits_at s' a = waits_at s a" using e by simp
  qed (use assms(2) in \<open>simp add: waits_at_def\<close>)
qed

lemma disp_push_b_lawful:
  assumes flow: "flow_inv R s" and "dispatcher s = D_PushB e" and "dispatcher_step opts s = Some s'"
  shows "lawful opts Dispatcher s s'"
proof -
  let ?l = "nat (level_index e)"
  have l: "?l < 4" "length (region_b s) = 4" using flow_hand [OF flow assms(2)] flow by (auto simp: flow_inv_def nat_less_iff)
  obtain d where e: "s' = s\<lparr>region_b := (region_b s)[?l := ring_put e (region_b s ! ?l)], dispatcher := d\<rparr>"
    using assms(2,3) by (auto simp: dispatcher_step_def Let_def push_region_b_def split: if_splits)
  show ?thesis
  proof (rule lawfulI)
    fix c show "closed s c \<or> signals_of opts Dispatcher s c = All_Waiters" if "closed s' c"
      using that e l by (cases c) (auto simp: nth_list_update ring_put_def split: if_splits)
  next
    fix c show "avail s' c \<le> avail s c + (if signals_of opts Dispatcher s c = One_Waiter then 1 else 0)"
      using assms(2) e l by (cases c) (auto simp: signal_defs nth_list_update)
  next
    fix c assume "waits_at s (owner Dispatcher) = Some c"
    then show "avail s' c \<le> avail s c - 1" using assms(2) e l by (auto simp: waits_at_def)
  next
    fix a assume "a \<noteq> owner Dispatcher"
    then show "waits_at s' a = waits_at s a" using e by simp
  qed
qed

lemma disp_rest_lawful:
  assumes "dispatcher s = D_TimedOut \<or> dispatcher s = D_Finish \<or> (\<exists>e. dispatcher s = D_PushD e)"
    and "dispatcher_step opts s = Some s'"
  shows "lawful opts Dispatcher s s'"
proof (rule lawfulI)
  fix c show "closed s c \<or> signals_of opts Dispatcher s c = All_Waiters" if "closed s' c"
    using that assms by (cases c) (auto simp: dispatcher_step_def push_region_d_def signal_defs ring_put_def split: if_splits)
next
  fix c show "avail s' c \<le> avail s c + (if signals_of opts Dispatcher s c = One_Waiter then 1 else 0)"
    if "signals_of opts Dispatcher s c \<noteq> All_Waiters"
    using that assms by (cases c) (auto simp: dispatcher_step_def push_region_d_def signal_defs free_slots_def split: if_splits)
next
  fix c assume "waits_at s (owner Dispatcher) = Some c"
  then show "avail s' c \<le> avail s c - 1" using assms
    by (auto simp: waits_at_def dispatcher_step_def push_region_d_def split: if_splits)
next
  fix a assume "a \<noteq> owner Dispatcher"
  then show "waits_at s' a = waits_at s a"
    using assms by (auto simp: dispatcher_step_def push_region_d_def split: if_splits)
qed

lemma dispatcher_lawful:
  assumes "flow_inv R s" and "dispatcher_step opts s = Some s'"
  shows "lawful opts Dispatcher s s'"
proof (cases "dispatcher s")
  case (D_Eof e)
  then have "s' = dispatch_eof opts e s" using assms(2) by (simp add: dispatcher_step_def)
  then show ?thesis by (rule disp_eof_lawful [OF assms(1) D_Eof])
qed (use assms disp_pop_lawful disp_push_b_lawful disp_rest_lawful in \<open>auto simp: dispatcher_step_def [of _ s]\<close>)

text \<open>The analyzers and the aggregator.\<close>

lemma waits_at_set_analyzer:
  assumes "l < length (analyzers s)" and "length (workers an) = length (workers (analyzers s ! l))"
    and "\<And>w. a = Worker l w \<Longrightarrow> workers an ! w = workers (analyzers s ! l) ! w"
  shows "waits_at (set_analyzer l an s) a = waits_at s a"
  using assms by (cases a) (auto simp: waits_at_def set_analyzer_def nth_list_update)

lemma worker_pop_lawful:
  assumes flow: "flow_inv R s" and l: "l < length (analyzers s)" "w < length (workers (analyzers s ! l))"
    and pc: "fst (workers (analyzers s ! l) ! w) = W_Pop" and step: "worker_step opts l w s = Some s'"
  shows "lawful opts (Worker l w) s s'"
proof -
  let ?an = "analyzers s ! l" and ?b = "region_b s ! l"
  have len: "l < 4" "length (region_b s) = 4" using flow l(1) by (auto simp: flow_inv_def)
  have "eof_posted ?b \<and> r_count ?b = 0 \<and> (\<exists>p. s' = set_analyzer l (?an\<lparr>workers := (workers ?an)[w := p]\<rparr>) s) \<or>
      r_count ?b \<noteq> 0 \<and> (\<exists>p. s' = set_analyzer l (?an\<lparr>workers := (workers ?an)[w := p]\<rparr>) (s\<lparr>region_b := (region_b s)[l := snd (ring_take ?b)]\<rparr>))"
    using pc step by (auto simp: worker_step_def Let_def pop_level_entry_def split: if_splits prod.splits)
  then obtain p rb where e: "s' = set_analyzer l (?an\<lparr>workers := (workers ?an)[w := p]\<rparr>) (s\<lparr>region_b := rb\<rparr>)"
      and rb: "eof_posted ?b \<and> r_count ?b = 0 \<and> rb = region_b s \<or> r_count ?b \<noteq> 0 \<and> rb = (region_b s)[l := snd (ring_take ?b)]"
    by (metis pipeline.surjective pipeline.update_convs(6))
  show ?thesis
  proof (rule lawfulI)
    fix c show "closed s c \<or> signals_of opts (Worker l w) s c = All_Waiters" if "closed s' c"
      using that e rb l(1) len by (cases c) (auto simp: set_analyzer_def nth_list_update ring_take_def split: if_splits)
  next
    fix c show "avail s' c \<le> avail s c + (if signals_of opts (Worker l w) s c = One_Waiter then 1 else 0)"
      using pc e rb len by (cases c) (auto simp: set_analyzer_def nth_list_update signal_defs)
  next
    fix c assume "waits_at s (owner (Worker l w)) = Some c" "\<not> closed s c"
    then show "avail s' c \<le> avail s c - 1" using pc e rb len l by (auto simp: waits_at_def set_analyzer_def)
  next
    fix a assume "a \<noteq> owner (Worker l w)"
    then have "waits_at (set_analyzer l (?an\<lparr>workers := (workers ?an)[w := p]\<rparr>) (s\<lparr>region_b := rb\<rparr>)) a = waits_at (s\<lparr>region_b := rb\<rparr>) a"
      using l by (intro waits_at_set_analyzer) auto
    then show "waits_at s' a = waits_at s a" using e by simp
  qed
qed

lemma worker_rest_lawful:
  assumes l: "l < length (analyzers s)" "w < length (workers (analyzers s ! l))"
    and pc: "fst (workers (analyzers s ! l) ! w) \<noteq> W_Pop" and step: "worker_step opts l w s = Some s'"
  shows "lawful opts (Worker l w) s s'"
proof -
  let ?an = "analyzers s ! l"
  obtain an where e: "s' = set_analyzer l an s" "length (workers an) = length (workers ?an)" "ready (level_result an) = ready (level_result ?an)"
      "level_ready an = level_ready ?an" "\<And>v. v \<noteq> w \<Longrightarrow> workers an ! v = workers ?an ! v"
    using pc step by (auto simp: worker_step_def Let_def split: worker_pc.splits prod.splits if_splits)
  show ?thesis
  proof (rule lawfulI)
    fix c show "closed s c \<or> signals_of opts (Worker l w) s c = All_Waiters" if "closed s' c"
      using that e(1,3,4) l(1) by (cases c) (auto simp: set_analyzer_def nth_list_update split: if_splits)
  next
    fix c show "avail s' c \<le> avail s c + (if signals_of opts (Worker l w) s c = One_Waiter then 1 else 0)"
      using e(1) by (cases c) (auto simp: set_analyzer_def)
  next
    fix c assume "waits_at s (owner (Worker l w)) = Some c"
    then show "avail s' c \<le> avail s c - 1" using pc by (auto simp: waits_at_def split: if_splits worker_pc.splits)
  next
    fix a assume "a \<noteq> owner (Worker l w)"
    then show "waits_at s' a = waits_at s a" unfolding e(1) using l(1) e(2,5) by (intro waits_at_set_analyzer) auto
  qed
qed

lemma analyzer_lawful:
  assumes "l < length (analyzers s)" and "analyzer_step l s = Some s'"
  shows "lawful opts (Analyzer l) s s'"
proof -
  obtain an where e: "s' = set_analyzer l an s" "workers an = workers (analyzers s ! l)"
    using assms(2) by (auto simp: analyzer_step_def Let_def split: if_splits)
  show ?thesis
  proof (rule lawfulI)
    fix c show "closed s c \<or> signals_of opts (Analyzer l) s c = All_Waiters" if "closed s' c"
      using that e(1) by (cases c) (auto simp: set_analyzer_def signal_defs)
  next
    fix c show "avail s' c \<le> avail s c + (if signals_of opts (Analyzer l) s c = One_Waiter then 1 else 0)"
      using e(1) by (cases c) (auto simp: set_analyzer_def)
  next
    fix a show "waits_at s' a = waits_at s a" unfolding e(1) using assms(1) e(2) by (intro waits_at_set_analyzer) auto
  qed (simp add: waits_at_def)
qed

lemma aggregator_lawful:
  assumes "aggregator_step opts s = Some s'"
  shows "lawful opts Aggregator s s'"
proof (cases "\<exists>l. aggregator s = G_Wait l")
  case True
  then obtain l where l: "aggregator s = G_Wait l" by blast
  let ?an = "analyzers s ! l"
  obtain g where e: "ready (level_result ?an)" "level_ready ?an > 0"
      "s' = (set_analyzer l (?an\<lparr>level_ready := level_ready ?an - 1\<rparr>) s)\<lparr>aggregator := g\<rparr>"
    using assms l by (auto simp: aggregator_step_def Let_def split: if_splits)
  show ?thesis
  proof (rule lawfulI)
    fix c show "closed s c \<or> signals_of opts Aggregator s c = All_Waiters" if "closed s' c"
      using that e(3)
      by (cases "l < length (analyzers s)"; cases c) (auto simp: set_analyzer_def nth_list_update not_less list_update_beyond split: if_splits)
  next
    fix c show "avail s' c \<le> avail s c + (if signals_of opts Aggregator s c = One_Waiter then 1 else 0)"
      using e by (cases c) (auto simp: set_analyzer_def)
  next
    fix c assume "waits_at s (owner Aggregator) = Some c" "\<not> closed s c"
    then show "avail s' c \<le> avail s c - 1" using l e by (auto simp: waits_at_def)
  next
    fix a assume "a \<noteq> owner Aggregator"
    moreover have "waits_at (set_analyzer l (?an\<lparr>level_ready := level_ready ?an - 1\<rparr>) s) a = waits_at s a"
      by (cases "l < length (analyzers s)") (simp_all add: waits_at_set_analyzer, simp add: set_analyzer_def not_less list_update_beyond)
    ultimately show "waits_at s' a = waits_at s a" using e(3) by simp
  qed
next
  case False
  show ?thesis
  proof (rule lawfulI)
    fix c show "closed s c \<or> signals_of opts Aggregator s c = All_Waiters" if "closed s' c"
      using that assms False
      by (cases c) (auto simp: aggregator_step_def pop_region_d_def ring_take_def Let_def split: aggregator_pc.splits if_splits)
  next
    fix c show "avail s' c \<le> avail s c + (if signals_of opts Aggregator s c = One_Waiter then 1 else 0)"
      using assms False
      by (cases c) (auto simp: aggregator_step_def pop_region_d_def signal_defs Let_def
          free_slots_simps(2) [of "region_d s", unfolded ring_take_def] ring_take_def free_slots_def split: aggregator_pc.splits if_splits)
  next
    fix c assume "waits_at s (owner Aggregator) = Some c" "\<not> closed s c"
    then show "avail s' c \<le> avail s c - 1" using assms False
      by (auto simp: waits_at_def aggregator_step_def pop_region_d_def ring_take_def Let_def split: aggregator_pc.splits if_splits)
  next
    fix a assume "a \<noteq> owner Aggregator"
    then show "waits_at s' a = waits_at s a" using assms False
      by (auto simp: aggregator_step_def pop_region_d_def Let_def split: aggregator_pc.splits if_splits prod.splits)
  qed
qed

lemma pstep_lawful:
  assumes "flow_inv R s" and "pstep opts b s = Some s'"
  shows "lawful opts b s s'"
proof (cases b)
  case (Worker l w)
  then show ?thesis using assms worker_pop_lawful [OF assms(1)] worker_rest_lawful
    by (cases "fst (workers (analyzers s ! l) ! w) = W_Pop") (auto simp: pstep_def split: if_splits)
qed (use assms reader_thread_lawful joined_lawful parser_lawful dispatcher_lawful timeout_lawful analyzer_lawful aggregator_lawful
  in \<open>auto simp: pstep_def split: if_splits\<close>)

interpretation pipeline_waits: wait_sets "pstep opts" owner waits_at avail closed "signals_of opts" "flow_inv R" for opts R
proof
  fix s b s' assume f: "flow_inv R s" and st: "pstep opts b s = Some s'"
  note law = pstep_lawful [OF f st, unfolded lawful_def]
  show "waits_at s' a = waits_at s a" if "a \<noteq> owner b" for a using law that by blast
  show "closed s c \<or> signals_of opts b s c = All_Waiters" if "closed s' c" for c using law that by blast
  show "avail s' c \<le> avail s c + (if signals_of opts b s c = One_Waiter then 1 else 0)" if "signals_of opts b s c \<noteq> All_Waiters" for c
    using law that by blast
  show "avail s' c \<le> avail s c - 1" if "waits_at s (owner b) = Some c" "waits_at s' (owner b) \<noteq> Some c" "\<not> closed s c" for c
    using law that by blast
qed (use pipeline_waiting finite_waiters in blast)+

lemma calm_wreach_inv:
  assumes "calm_wreach opts s0 w" and "\<And>s. calm_reach opts s0 s \<Longrightarrow> flow_inv R s"
  shows "calm_reach opts s0 (fst w) \<and> rested (waits_at (fst w)) (avail (fst w)) (closed (fst w)) (snd w)"
  using assms(1)
proof (induction rule: calm_wreach.induct)
  case start
  show ?case by (simp add: calm_reach.calm_start rested_empty)
next
  case (step s A w)
  then have r: "calm_reach opts s0 s" and inv: "rested (waits_at s) (avail s) (closed s) A" by simp_all
  note ok = assms(2) [OF r]
  from step(2) show ?case
  proof cases
    case (move a s' A')
    then show ?thesis using calm_reach.calm_step [OF r move(3) step(3)] pipeline_waits.move_keeps [OF ok inv move(3,4)] by simp
  next
    case (go_to_sleep a)
    then show ?thesis using r pipeline_waits.sleep_keeps [OF ok inv go_to_sleep(3,4)] by simp
  next
    case (spurious a)
    then show ?thesis using r pipeline_waits.spurious_keeps [OF inv] by simp
  qed
qed

section \<open>Property\<close>

text \<open>(C13) The pipeline does not deadlock by itself and loses no wake-up: with options that are accepted and when
  every log file can be opened, in every state that is reached without the dispatcher's timeout check ending its
  loop, some thread that is not asleep on a condition variable can take a step, until the aggregator has written the
  report. No timeout and no spurious wake-up is needed for it; it rests on every signal and broadcast of the code.\<close>

theorem pipeline_never_stuck:
  assumes "\<not> options_invalid opts" and "length (files opts) = length contents"
    and "list_all (\<lambda>c. c \<noteq> None) contents" and "contents \<noteq> []"
    and "calm_wreach opts (init_pipeline opts fd contents) (s, A)" and "aggregator s \<noteq> G_Done"
  shows "\<exists>a s'. a \<noteq> Timeout \<and> a \<notin> A \<and> pstep opts a s = Some s'"
proof -
  let ?R = "length contents" and ?s0 = "init_pipeline opts fd contents"
  have flow: "flow_inv ?R t" if "calm_reach opts ?s0 t" for t
    using calm_reach_inv [OF that pipe_inv_init [OF assms(1) refl] live_inv_init [OF assms(1,3,4)] assms(2)] by (simp add: pipe_inv_def)
  have r: "calm_reach opts ?s0 s" "rested (waits_at s) (avail s) (closed s) A"
    using calm_wreach_inv [OF assms(5) flow] by simp_all
  obtain a s' where a: "a \<noteq> Timeout" "pstep opts a s = Some s'"
    using pipeline_enabled [OF assms(1-4) r(1) assms(6)] by blast
  then obtain b where "b \<notin> A" "pstep opts b s \<noteq> None" "b = a \<or> waits_at s b \<noteq> None"
    using pipeline_waits.awake_moves [OF flow [OF r(1)] r(2), of opts a] by auto
  moreover from this(3) a(1) have "b \<noteq> Timeout" by (auto simp: waits_at_def)
  ultimately show ?thesis by (intro exI [of _ b]) auto
qed

text \<open>The dispatcher and the aggregator have gone to sleep on empty queues: the readers can still move.\<close>

theorem pipeline_never_stuck_witness:
  "calm_wreach demo_opts (init_pipeline demo_opts (\<lambda>_. 3) [Some demo_log]) (init_pipeline demo_opts (\<lambda>_. 3) [Some demo_log], {Aggregator, Dispatcher}) \<and>
   (\<exists>a s'. a \<noteq> Timeout \<and> a \<notin> {Aggregator, Dispatcher} \<and> pstep demo_opts a (init_pipeline demo_opts (\<lambda>_. 3) [Some demo_log]) = Some s')"
proof -
  let ?s = "init_pipeline demo_opts (\<lambda>_. 3) [Some demo_log]"
  have s: "pstep demo_opts Dispatcher ?s = None" "pstep demo_opts Aggregator ?s = None" "waits_at ?s Dispatcher \<noteq> None"
    "waits_at ?s Aggregator \<noteq> None" "dispatcher ?s \<noteq> D_TimedOut" "aggregator ?s \<noteq> G_Done"
    by (simp_all add: pstep_def dispatcher_step_def aggregator_step_def pop_region_a_def pop_region_d_def init_pipeline_def
        init_region_a_def init_region_d_def waits_at_def)
  have "calm_wreach demo_opts ?s (?s, {Dispatcher})"
    using calm_wreach.step [OF calm_wreach.start go_to_sleep [OF _ s(1,3)]] s(5) by simp
  then have r: "calm_wreach demo_opts ?s (?s, {Aggregator, Dispatcher})"
    using calm_wreach.step [OF _ go_to_sleep [OF _ s(2,4)]] s(5) by simp
  have "\<not> options_invalid demo_opts" by code_simp
  moreover have "length (files demo_opts) = length [Some demo_log]" by (simp add: demo_opts_def)
  moreover have "list_all (\<lambda>c. c \<noteq> None) [Some demo_log]" "[Some demo_log] \<noteq> []" by simp_all
  ultimately have "\<exists>a s'. a \<noteq> Timeout \<and> a \<notin> {Aggregator, Dispatcher} \<and> pstep demo_opts a ?s = Some s'"
    using r s(6) by (rule pipeline_never_stuck)
  with r show ?thesis ..
qed

end
