(* ===== verification/Log_Watchdog.thy ===== *)
theory Log_Watchdog
  imports Log_Reader Log_Options Log_Score
begin

text \<open>
  The parent of the log analyser while its children work: the watchdog thread
  (\<open>HW4/watchdog.c\<close>), which reads the heartbeats of the readers, and the waiting loop, the
  termination of the children after SIGINT and the summary of \<open>HW4/main.c\<close>. The results of \<open>time\<close>,
  \<open>select\<close>, \<open>read\<close>, \<open>waitpid\<close> and \<open>kill\<close> are arguments.
\<close>

section \<open>The watchdog\<close>

text \<open>The state of the thread: the progress of each reader, which pipes are open, and the lines on the
  error output.\<close>

record watchdog =
  wd_progress :: "int list"
  pipe_open :: "bool list"
  wd_start :: int
  next_print :: int
  wd_lines :: "string list"

definition watchdog_init :: "nat \<Rightarrow> int \<Rightarrow> watchdog" where
  "watchdog_init num_files start =
     \<lparr>wd_progress = replicate num_files 0, pipe_open = replicate num_files True, wd_start = start,
      next_print = start + 3, wd_lines = []\<rparr>"

definition count_alive_children :: "(int \<Rightarrow> bool) \<Rightarrow> int list \<Rightarrow> nat" where
  "count_alive_children alive child_pids = length (filter (\<lambda>p. p > 0 \<and> alive p) child_pids)"

definition heartbeat_format :: "scan_dir list" where
  "heartbeat_format = SLits ''[R'' @ [SInt] @ SLits ''] '' @ [SInt] @ SLits '' lines processed''"

definition take_heartbeat :: "int list \<Rightarrow> string \<Rightarrow> int list" where
  "take_heartbeat progress line =
     (case sscanf heartbeat_format line of
        [VInt reader_no, VInt lines] \<Rightarrow>
          if 0 \<le> reader_no \<and> reader_no < int (length progress) then progress[nat reader_no := lines] else progress
      | _ \<Rightarrow> progress)"

text \<open>The text of one \<open>read\<close>, split into lines.\<close>

definition take_chunk :: "int list \<Rightarrow> string \<Rightarrow> int list" where
  "take_chunk progress buf = foldl take_heartbeat progress (strtok (\<lambda>c. c = newline) buf)"

text \<open>A \<open>read\<close> of up to 255 bytes on pipe \<open>i\<close>: \<open>None\<close> when the pipe is not ready or \<open>read\<close> fails, the empty
  text at the end of the stream.\<close>

definition read_pipe :: "watchdog \<Rightarrow> nat \<times> string option \<Rightarrow> watchdog" where
  "read_pipe w r =
     (case r of (i, res) \<Rightarrow>
        if \<not> pipe_open w ! i then w
        else (case res of
            None \<Rightarrow> w
          | Some buf \<Rightarrow>
              if buf = [] then w\<lparr>pipe_open := (pipe_open w)[i := False]\<rparr>
              else w\<lparr>wd_progress := take_chunk (wd_progress w) buf\<rparr>))"

definition select_timeout :: "watchdog \<Rightarrow> int \<Rightarrow> int" where
  "select_timeout w now = (if next_print w > now then next_print w - now else 0)"

definition progress_line :: "watchdog \<Rightarrow> int \<Rightarrow> nat \<Rightarrow> string" where
  "progress_line w now alive =
     ''[WATCHDOG] Progress at T+'' @ show_int (now - wd_start w) @ ''s:'' @
     concat (map (\<lambda>i. '' Reader '' @ show_nat i @ ''='' @ show_int (wd_progress w ! i)) [0..<length (wd_progress w)]) @
     '' children_alive='' @ show_nat alive"

text \<open>One turn of the loop: the results of the reads, then the time and the children alive.\<close>

definition watchdog_turn :: "int list \<Rightarrow> watchdog \<Rightarrow> string option list \<times> int \<times> (int \<Rightarrow> bool) \<Rightarrow> watchdog" where
  "watchdog_turn child_pids w turn =
     (case turn of (reads, now, alive) \<Rightarrow>
        let w1 = foldl read_pipe w (zip [0..<length (wd_progress w)] reads)
        in if now \<ge> next_print w1
           then w1\<lparr>wd_lines := wd_lines w1 @ [progress_line w1 now (count_alive_children alive child_pids)], next_print := now + 3\<rparr>
           else w1)"

text \<open>The turns before the thread sees the shutdown flag.\<close>

definition watchdog_thread_main :: "int list \<Rightarrow> nat \<Rightarrow> int \<Rightarrow> (string option list \<times> int \<times> (int \<Rightarrow> bool)) list \<Rightarrow> watchdog" where
  "watchdog_thread_main child_pids num_files start turns = foldl (watchdog_turn child_pids) (watchdog_init num_files start) turns"

section \<open>The waiting loop of the parent\<close>

text \<open>What \<open>waitpid\<close> reports; \<open>Running\<close> only with \<open>WNOHANG\<close>.\<close>

datatype wait_result = Reaped int | Running | No_Child | Wait_Interrupted | Wait_Failed

datatype kill_signal = SigTerm | SigKill

text \<open>The rounds of \<open>terminate_children\<close> before the deadline: the table after them.\<close>

fun reap_rounds :: "int list \<Rightarrow> wait_result list \<Rightarrow> int list" where
  "reap_rounds pids [] = pids"
| "reap_rounds pids (r # rs) =
     (case r of
        Reaped pid \<Rightarrow> reap_rounds (mark_child_reaped pids pid) rs
      | Running \<Rightarrow> reap_rounds pids rs
      | No_Child \<Rightarrow> pids
      | Wait_Interrupted \<Rightarrow> reap_rounds pids rs
      | Wait_Failed \<Rightarrow> pids)"

definition terminate_children :: "int list \<Rightarrow> wait_result list \<Rightarrow> (int \<times> kill_signal) list" where
  "terminate_children pids rounds =
     map (\<lambda>p. (p, SigTerm)) (signalled_children pids) @
     map (\<lambda>p. (p, SigKill)) (signalled_children (reap_rounds pids rounds))"

datatype wait_end = All_Done "int list" | Stopped_By_Sigint "int list" | Died string

text \<open>The loop over \<open>waitpid\<close> results, each with the value of \<open>g_sigint_received\<close>. \<open>None\<close> while it waits.\<close>

fun wait_loop :: "int list \<Rightarrow> nat \<Rightarrow> (wait_result \<times> bool) list \<Rightarrow> wait_end option" where
  "wait_loop pids 0 rs = Some (All_Done pids)"
| "wait_loop pids (Suc remaining) [] = None"
| "wait_loop pids (Suc remaining) ((r, sigint) # rs) =
     (case r of
        Reaped pid \<Rightarrow> wait_loop (mark_child_reaped pids pid) remaining rs
      | Wait_Interrupted \<Rightarrow> if sigint then Some (Stopped_By_Sigint pids) else Some (Died ''wait'')
      | No_Child \<Rightarrow> Some (All_Done pids)
      | _ \<Rightarrow> Some (Died ''wait''))"

text \<open>The summary of the parent.\<close>

definition parent_summary :: "program_options_t \<Rightarrow> level_result_t list \<Rightarrow> int \<Rightarrow> string list" where
  "parent_summary opts results high_priority =
     [replicate 50 (CHR ''=''), ''SYSTEM SUMMARY'',
      ''Keywords : '' @ concat (map (\<lambda>i. keyword_list opts ! i @ (if i + 1 < length (keyword_list opts) then '', '' else []))
         [0..<length (keyword_list opts)]),
      ''Log files : '' @ show_nat (length (files opts)),
      ''Total entries : '' @ show_int (foldl (\<lambda>t i. t + total_entries (results ! i)) 0 [0..<MAX_LEVELS]),
      ''Total weighted : '' @ show_f1 (total_weighted results),
      ''High-priority : '' @ show_f1 high_priority @ '' (source filter: '' @ filter_file opts @ '')''] @
     map (\<lambda>i. level_name (int i) @ '' : '' @ show_int (total_entries (results ! i)) @ '' entries, score: '' @
              show_f1 (total_weighted_score (results ! i))) [0..<MAX_LEVELS] @
     [replicate 50 (CHR ''=''), ''Program terminated successfully.'']"

section \<open>Heartbeats\<close>

definition beat :: "int \<Rightarrow> int \<Rightarrow> string" where
  "beat rid lines = ''[R'' @ show_int rid @ ''] '' @ show_int lines @ '' lines processed''"

lemma send_heartbeat_beat: "send_heartbeat fd rid lines = (if fd < 0 \<or> lines = 0 \<or> lines mod 50 \<noteq> 0 then None else Some (beat rid lines @ [newline]))"
  by (simp add: send_heartbeat_def beat_def)

lemma show_int_start: "dropWhile isspace (show_int v @ r) = show_int v @ r"
  using show_int_not_space [of v] by (cases "show_int v") (auto dest: show_int_nonempty [THEN notE])

lemma take_heartbeat_beat:
  assumes "rid < length progress" and "in_int (int rid)" and "in_int lines"
  shows "take_heartbeat progress (beat (int rid) lines) = progress[rid := lines]"
proof -
  have "sscanf heartbeat_format (''[R'' @ show_int (int rid) @ ''] '' @ show_int lines @ '' lines processed'') = [VInt (int rid), VInt lines]"
    using sscanf_show_int [OF assms(2), of "''] '' @ show_int lines @ '' lines processed''"]
      sscanf_show_int [OF assms(3), of "'' lines processed''"] show_int_start [of lines]
    by (simp add: heartbeat_format_def isspace_def isdigit_def del: sscanf.simps(4-6))
  then show ?thesis using assms(1) by (simp add: take_heartbeat_def beat_def)
qed

text \<open>The heartbeats that a reader thread writes: one for every 50th line.\<close>

lemma reader_thread_beats:
  "0 \<le> fd \<Longrightarrow> 0 \<le> l \<Longrightarrow> fst (snd (reader_thread_loop fd rid ls m l)) =
     map (\<lambda>k. beat rid k @ [newline]) (filter (\<lambda>k. k mod 50 = 0) [l + 1..l + int (length ls)])"
proof (induction fd rid ls m l rule: reader_thread_loop.induct)
  case (2 fd rid line ls m l)
  have "[l + 1..l + int (length (line # ls))] = (l + 1) # [l + 1 + 1..l + 1 + int (length ls)]"
    by (subst upto_rec1) (simp_all add: algebra_simps)
  with 2 show ?case by (auto simp: Let_def send_heartbeat_beat split: prod.splits option.splits)
qed simp

lemma beat_line: "beat rid k \<noteq> [] \<and> newline \<notin> set (beat rid k)"
proof -
  have "newline \<notin> set (show_int v)" for v using show_int_not_space [of v] by (auto simp: isspace_def)
  then show ?thesis by (simp add: beat_def)
qed

lemma take_chunk_beats: "take_chunk progress (concat (map (\<lambda>k. beat rid k @ [newline]) ks)) = foldl take_heartbeat progress (map (beat rid) ks)"
  using strtok_lines [of "map (beat rid) ks"] beat_line by (simp add: take_chunk_def o_def list_all_iff)

lemma foldl_beats:
  "rid < length progress \<Longrightarrow> in_int (int rid) \<Longrightarrow> list_all in_int ks \<Longrightarrow>
     foldl take_heartbeat progress (map (beat (int rid)) ks) = (if ks = [] then progress else progress[rid := last ks])"
  by (induction ks arbitrary: progress) (auto simp: take_heartbeat_beat)

lemma last_multiple:
  fixes n :: nat
  defines "ks \<equiv> filter (\<lambda>k. k mod 50 = 0) [1..int n]"
  shows "ks = [] \<longleftrightarrow> n < 50" "50 \<le> n \<Longrightarrow> last ks = int (50 * (n div 50))"
proof -
  define m where "m = int (50 * (n div 50))"
  have m: "0 \<le> m" "m \<le> int n" "int n < m + 50" "m mod 50 = 0" by (auto simp: m_def)
  have "[1..int n] = [1..m] @ [m + 1..int n]" using m(1,2) upto_split2 [of 1 m "int n"] by (cases "m = 0") auto
  moreover have "k mod 50 \<noteq> 0" if "m < k" "k \<le> int n" for k
  proof
    assume "k mod 50 = 0"
    then obtain j q where "k = 50 * j" "m = 50 * q" using m(4) by (auto simp: mod_eq_0_iff_dvd elim!: dvdE)
    with that m(3) have "50 * q < 50 * j \<and> 50 * j < 50 * (q + 1)" by simp
    then have "q < j" "j < q + 1" unfolding mult_less_cancel_left_pos [of "50::int", simplified] by auto
    then show False by simp
  qed
  then have "filter (\<lambda>k. k mod 50 = 0) [m + 1..int n] = []" by (auto simp: filter_empty_conv)
  ultimately have ks: "ks = filter (\<lambda>k. k mod 50 = 0) [1..m]" by (simp add: ks_def)
  show "ks = [] \<longleftrightarrow> n < 50"
  proof (cases "m = 0")
    case False
    then have "m \<in> set ks" using m(1,4) by (simp add: ks)
    moreover have "\<not> n < 50" using False by (simp add: m_def)
    ultimately show ?thesis by (auto)
  qed (use m in \<open>auto simp: ks\<close>)
  assume "50 \<le> n"
  then have "1 \<le> m" using m by linarith
  then have "[1..m] = [1..m - 1] @ [m]" by (rule upto_rec2)
  then show "last ks = int (50 * (n div 50))" using m(4) unfolding m_def [symmetric] by (simp add: ks)
qed

section \<open>Waiting\<close>

lemma mark_child_reaped_nth:
  "distinct pids \<Longrightarrow> i < length pids \<Longrightarrow> mark_child_reaped pids (pids ! i) = pids[i := 0]"
proof (induction pids arbitrary: i)
  case (Cons p ps)
  then show ?case by (cases i) auto
qed simp

lemma set_mark_child_reaped: "distinct (filter (\<lambda>p. p > 0) pids) \<Longrightarrow> pid > 0 \<Longrightarrow>
     signalled_children (mark_child_reaped pids pid) = filter (\<lambda>p. p \<noteq> pid) (signalled_children pids)"
proof (induction pids)
  case (Cons p ps)
  have "filter (\<lambda>q. q \<noteq> p) (filter (\<lambda>q. 0 < q) ps) = filter (\<lambda>q. 0 < q) ps" if "p \<notin> set ps"
    using that by (induction ps) auto
  with Cons show ?case by (auto simp: signalled_children_def split: if_splits)
qed (simp add: signalled_children_def)

text \<open>The loop ends when every child has been reaped, in whatever order.\<close>

lemma wait_loop_reaps:
  "mset order = mset (signalled_children pids) \<Longrightarrow> distinct order \<Longrightarrow>
     \<exists>pids'. wait_loop pids (length order) (map (\<lambda>p. (Reaped p, False)) order) = Some (All_Done pids') \<and> signalled_children pids' = []"
proof (induction order arbitrary: pids)
  case (Cons p order)
  have d: "distinct (filter (\<lambda>p. p > 0) pids)"
    using Cons(2,3) mset_eq_imp_distinct_iff [OF Cons(2)] by (simp add: signalled_children_def)
  have "p \<in># mset (signalled_children pids)" using Cons(2) [symmetric] by simp
  then have pos: "p > 0" by (simp add: signalled_children_def)
  have "mset order = mset (filter (\<lambda>q. q \<noteq> p) (signalled_children pids))"
  proof -
    have "mset (filter (\<lambda>q. q \<noteq> p) (signalled_children pids)) = mset (filter (\<lambda>q. q \<noteq> p) (p # order))"
      unfolding mset_filter Cons(2) ..
    also have "filter (\<lambda>q. q \<noteq> p) (p # order) = order" using Cons(3) by (auto simp: filter_id_conv)
    finally show ?thesis ..
  qed
  then have "mset order = mset (signalled_children (mark_child_reaped pids p))"
    using set_mark_child_reaped [OF d pos] by simp
  with Cons(1) [of "mark_child_reaped pids p"] Cons(3) show ?case by simp
qed (simp add: signalled_children_def)

section \<open>Properties\<close>

text \<open>(C18) The watchdog shows the progress of a reader: when the heartbeats of a reader thread arrive in
  pieces that do not cut a message, however they are grouped, the table holds the number of lines read so
  far, rounded down to a multiple of 50, and the other readers' entries are unchanged.\<close>

theorem watchdog_shows_progress:
  assumes "0 \<le> fd" and "rid < length progress" and "in_int (int rid)" and "in_int (int (length ls))"
    and "concat groups = fst (snd (reader_thread_loop fd (int rid) ls 0 0))"
  shows "foldl take_chunk progress (map concat groups) =
     (if length ls < 50 then progress else progress[rid := int (50 * (length ls div 50))])"
proof -
  define ks where "ks = filter (\<lambda>k. k mod 50 = 0) [1..int (length ls)]"
  have beats: "concat groups = map (\<lambda>k. beat (int rid) k @ [newline]) ks"
    using reader_thread_beats [OF assms(1), of 0 "int rid" ls 0] assms(5) by (simp add: ks_def)
  have "foldl take_chunk progress (map concat groups) = foldl take_heartbeat progress (map (beat (int rid)) ks)"
    using beats
  proof (induction groups arbitrary: ks progress)
    case (Cons g groups)
    define k where "k = length g"
    have "g = take k (map (\<lambda>k. beat (int rid) k @ [newline]) ks)" "concat groups = drop k (map (\<lambda>k. beat (int rid) k @ [newline]) ks)"
      using Cons(2) [symmetric] by (simp_all add: k_def)
    then have g: "g = map (\<lambda>k. beat (int rid) k @ [newline]) (take k ks)"
      and rest: "concat groups = map (\<lambda>k. beat (int rid) k @ [newline]) (drop k ks)" by (simp_all add: take_map drop_map)
    have "foldl take_chunk progress (map concat (g # groups)) = foldl take_chunk (foldl take_heartbeat progress (map (beat (int rid)) (take k ks))) (map concat groups)"
      by (simp add: g take_chunk_beats)
    also have "\<dots> = foldl take_heartbeat progress (map (beat (int rid)) (take k ks @ drop k ks))"
      unfolding Cons(1) [OF rest] map_append foldl_append ..
    finally show ?case by simp
  qed simp
  moreover have "list_all in_int ks" using assms(4) by (auto simp: ks_def list_all_iff in_int_def INT_MIN_def)
  ultimately show ?thesis
    using foldl_beats [OF assms(2,3), of ks] last_multiple [of "length ls"] unfolding ks_def by (simp add: not_less)
qed

theorem watchdog_shows_progress_witness:
  "foldl take_chunk [0, 7] (map concat [fst (snd (reader_thread_loop 3 0 (replicate 120 ''x'') 0 0))]) = [100, 7]"
proof -
  have "in_int (int 0)" "in_int (int (length (replicate 120 ''x'')))" by (simp_all add: c_int_simps)
  from watchdog_shows_progress [of 3 0 "[0, 7]" "replicate 120 ''x''" "[fst (snd (reader_thread_loop 3 0 (replicate 120 ''x'') 0 0))]", OF _ _ this]
  show ?thesis by simp
qed

text \<open>A \<open>read\<close> takes at most 255 bytes and may cut a message inside its number: the first eleven heartbeats
  of reader 0 report 550 lines, but the first \<open>read\<close> leaves the table at 5.\<close>

lemma split_heartbeat_misread:
  "take_chunk [0] (take 255 (concat (map (\<lambda>k. beat 0 (50 * k) @ [newline]) [1..11]))) = [5]"
  by code_simp

text \<open>The parent leaves its waiting loop once its children have been reaped, in any order, and then has no
  child left to signal; after SIGINT it asks every child that is left to terminate and kills those that it
  could not reap before the deadline.\<close>

theorem parent_reaps_all:
  assumes "distinct pids" and "list_all (\<lambda>p. p > 0) pids" and "mset order = mset pids"
  shows "\<exists>pids'. wait_loop pids (length pids) (map (\<lambda>p. (Reaped p, False)) order) = Some (All_Done pids') \<and>
     terminate_children pids' rounds = []"
proof -
  have s: "signalled_children pids = pids" using assms(2) by (simp add: signalled_children_def list_all_iff filter_id_conv)
  have len: "length order = length pids" using assms(3) by (rule mset_eq_length)
  have "distinct order" using mset_eq_imp_distinct_iff [OF assms(3)] assms(1) by simp
  then obtain pids' where p: "wait_loop pids (length order) (map (\<lambda>p. (Reaped p, False)) order) = Some (All_Done pids')"
    "signalled_children pids' = []" using wait_loop_reaps [of order pids] assms(3) s by auto
  have mark: "signalled_children (mark_child_reaped ps q) = []" if "signalled_children ps = []" for ps q
    using that by (induction ps) (auto simp: signalled_children_def split: if_splits)
  have "signalled_children (reap_rounds pids' rounds) = []"
    using p(2) by (induction pids' rounds rule: reap_rounds.induct) (auto simp: mark split: wait_result.splits)
  with p show ?thesis unfolding len by (auto simp: terminate_children_def)
qed

end
