(* ===== verification/Log_Setup.thy ===== *)
theory Log_Setup
  imports Log_Watchdog "HOL-Library.Word"
begin

text \<open>
  Start and end of the parent of the log analyser (\<open>HW4/main.c\<close>, \<open>HW4/shm.c\<close>): the shared regions, the heartbeat
  pipes, the child processes with the pipe ends they inherit, and the whole of \<open>main\<close> around the processes of
  \<open>Log_Pipeline\<close>. The results of the system calls are arguments; a call of \<open>die_errno\<close> or \<open>die_message\<close> ends the
  process with its message.
\<close>

section \<open>Sequences of calls that may end the process\<close>

text \<open>The steps in turn, up to the first one that ends the process with a message.\<close>

fun in_turn :: "('s \<Rightarrow> string option \<times> 's) list \<Rightarrow> 's \<Rightarrow> string option \<times> 's" where
  "in_turn [] s = (None, s)"
| "in_turn (f # fs) s = (case f s of (Some e, s') \<Rightarrow> (Some e, s') | (None, s') \<Rightarrow> in_turn fs s')"

lemma in_turn_append:
  "in_turn (fs @ gs) s = (case in_turn fs s of (Some e, s') \<Rightarrow> (Some e, s') | (None, s') \<Rightarrow> in_turn gs s')"
  by (induction fs arbitrary: s) (auto split: prod.splits option.splits)

section \<open>Shared regions\<close>

datatype region = Region_A | Region_B nat | Region_C | Region_D

text \<open>The results of the three calls that initialise a process-shared mutex or condition variable.\<close>

record attr_calls =
  attr_ok :: bool
  pshared_ok :: bool
  object_ok :: bool

definition init_pshared_mutex :: "attr_calls \<Rightarrow> string option" where
  "init_pshared_mutex a =
     (if \<not> attr_ok a then Some ''pthread_mutexattr_init failed''
      else if \<not> pshared_ok a then Some ''pthread_mutexattr_setpshared failed''
      else if \<not> object_ok a then Some ''pthread_mutex_init failed''
      else None)"

definition init_pshared_cond :: "attr_calls \<Rightarrow> string option" where
  "init_pshared_cond a =
     (if \<not> attr_ok a then Some ''pthread_condattr_init failed''
      else if \<not> pshared_ok a then Some ''pthread_condattr_setpshared failed''
      else if \<not> object_ok a then Some ''pthread_cond_init failed''
      else None)"

text \<open>The results of the system calls of the set-up.\<close>

record setup_calls =
  mmap_ok :: "region \<Rightarrow> bool"
  mutex_calls :: "region \<Rightarrow> attr_calls"
  cond_calls :: "region \<Rightarrow> nat \<Rightarrow> attr_calls"
  sem_ok :: "nat \<Rightarrow> bool"
  pipe_ok :: "nat \<Rightarrow> bool"
  fork_pid :: "nat \<Rightarrow> int"

text \<open>The sizes of the mappings, in \<open>size_t\<close>; \<open>header\<close> and \<open>entry\<close> are the sizes of the structures.\<close>

definition region_size :: "(region \<Rightarrow> nat) \<Rightarrow> nat \<Rightarrow> program_options_t \<Rightarrow> region \<Rightarrow> 64 word" where
  "region_size header entry opts r =
     (case r of
        Region_A \<Rightarrow> of_nat (header r) + of_int (capacity_a opts) * of_nat entry
      | Region_B _ \<Rightarrow> of_nat (header r) + of_int (capacity_b opts) * of_nat entry
      | Region_C \<Rightarrow> of_nat (header r)
      | Region_D \<Rightarrow> of_nat (header r) + of_int (capacity_d opts) * of_nat entry)"

text \<open>The mutex and the condition variables of a region: region C has one of them, the others have two.\<close>

definition sync_error :: "setup_calls \<Rightarrow> region \<Rightarrow> string option" where
  "sync_error calls r =
     fst (in_turn ((\<lambda>_. (init_pshared_mutex (mutex_calls calls r), ())) #
                   map (\<lambda>i _. (init_pshared_cond (cond_calls calls r i), ())) [0..<(if r = Region_C then 1 else 2)]) ())"

text \<open>One mapping with its mutex and condition variables: the mapped regions so far grow by one.\<close>

definition map_region :: "setup_calls \<Rightarrow> string \<Rightarrow> region \<Rightarrow> region list \<Rightarrow> string option \<times> region list" where
  "map_region calls msg r mapped =
     (if \<not> mmap_ok calls r then (Some msg, mapped)
      else (sync_error calls r, mapped @ [r]))"

definition init_level_ready :: "setup_calls \<Rightarrow> nat \<Rightarrow> region list \<Rightarrow> string option \<times> region list" where
  "init_level_ready calls i mapped = (if sem_ok calls i then (None, mapped) else (Some ''hw_sem_init'', mapped))"

definition init_shared_regions :: "setup_calls \<Rightarrow> string option \<times> region list" where
  "init_shared_regions calls =
     in_turn ([map_region calls ''mmap region_a'' Region_A] @
              map (\<lambda>i. map_region calls ''mmap region_b'' (Region_B i)) [0..<MAX_LEVELS] @
              [map_region calls ''mmap region_c'' Region_C] @
              map (init_level_ready calls) [0..<MAX_LEVELS] @
              [map_region calls ''mmap region_d'' Region_D]) []"

text \<open>\<open>destroy_shared_regions\<close> unmaps A, the four B, C and D where they are not \<open>NULL\<close>.\<close>

definition destroy_shared_regions :: "region list \<Rightarrow> region list" where
  "destroy_shared_regions mapped =
     foldl (\<lambda>m r. remove1 r m) mapped ([Region_A] @ map Region_B [0..<MAX_LEVELS] @ [Region_C, Region_D])"

section \<open>Processes and pipes\<close>

datatype pipe_end = Read_End nat | Write_End nat

text \<open>What a child runs, with the arguments that the parent passes to it.\<close>

datatype child_role = Reader_Proc nat string | Dispatcher_Proc | Analyzer_Proc nat | Aggregator_Proc

text \<open>The children in the order of their creation (process id, role, inherited pipe ends) and the ends that the
  parent has open.\<close>

record processes =
  children :: "(int \<times> child_role \<times> pipe_end list) list"
  parent_ends :: "pipe_end list"

definition fork_child :: "setup_calls \<Rightarrow> string \<Rightarrow> child_role \<Rightarrow> processes \<Rightarrow> string option \<times> processes" where
  "fork_child calls msg role s =
     (let pid = fork_pid calls (length (children s)) in
      if pid < 0 then (Some msg, s) else (None, s\<lparr>children := children s @ [(pid, role, parent_ends s)]\<rparr>))"

definition start_reader :: "setup_calls \<Rightarrow> program_options_t \<Rightarrow> nat \<Rightarrow> processes \<Rightarrow> string option \<times> processes" where
  "start_reader calls opts i s =
     (if \<not> pipe_ok calls i then (Some ''pipe'', s)
      else case fork_child calls ''fork reader'' (Reader_Proc i (files opts ! i))
                  (s\<lparr>parent_ends := parent_ends s @ [Read_End i, Write_End i]\<rparr>) of
        (Some e, s') \<Rightarrow> (Some e, s')
      | (None, s') \<Rightarrow> (None, s'\<lparr>parent_ends := remove1 (Write_End i) (parent_ends s')\<rparr>))"

definition start_processes :: "setup_calls \<Rightarrow> program_options_t \<Rightarrow> string option \<times> processes" where
  "start_processes calls opts =
     in_turn (map (start_reader calls opts) [0..<length (files opts)] @
              [fork_child calls ''fork dispatcher'' Dispatcher_Proc] @
              map (\<lambda>i. fork_child calls ''fork analyzer'' (Analyzer_Proc i)) [0..<MAX_LEVELS] @
              [fork_child calls ''fork aggregator'' Aggregator_Proc])
       \<lparr>children = [], parent_ends = []\<rparr>"

section \<open>The parent\<close>

datatype log_exit = Log_Died string | Log_Stopped "(int \<times> kill_signal) list" | Log_Ended "string list"

text \<open>The whole of \<open>main\<close>: how it ends, the regions that are still mapped then, and the processes it has started.
  \<open>results\<close> and \<open>hp\<close> are what region C holds when the children have ended. \<open>None\<close> while it waits.\<close>

definition log_main ::
  "setup_calls \<Rightarrow> (string \<Rightarrow> string option) \<Rightarrow> (char \<times> string) list \<Rightarrow> (wait_result \<times> bool) list \<Rightarrow> wait_result list \<Rightarrow>
   level_result_t list \<Rightarrow> int \<Rightarrow> (log_exit \<times> region list \<times> processes) option" where
  "log_main calls fs args waits rounds results hp =
     (let none = \<lparr>children = [], parent_ends = []\<rparr> in
      case parse_args fs args of
        Inl e \<Rightarrow> Some (Log_Died e, [], none)
      | Inr opts \<Rightarrow>
          (case init_shared_regions calls of
             (Some e, mapped) \<Rightarrow> Some (Log_Died e, mapped, none)
           | (None, mapped) \<Rightarrow>
               (case start_processes calls opts of
                  (Some e, s) \<Rightarrow> Some (Log_Died e, mapped, s)
                | (None, s) \<Rightarrow>
                    (case wait_loop (map fst (children s)) (length (children s)) waits of
                       None \<Rightarrow> None
                     | Some (All_Done _) \<Rightarrow> Some (Log_Ended (parent_summary opts results hp), destroy_shared_regions mapped, s)
                     | Some (Stopped_By_Sigint pids) \<Rightarrow> Some (Log_Stopped (terminate_children pids rounds), destroy_shared_regions mapped, s)
                     | Some (Died e) \<Rightarrow> Some (Log_Died e, mapped, s)))))"

section \<open>Facts on the regions\<close>

lemma init_shared_regions_ok:
  assumes "\<forall>r. mmap_ok calls r \<and> sync_error calls r = None" and "\<forall>i. sem_ok calls i"
  shows "init_shared_regions calls = (None, [Region_A, Region_B 0, Region_B 1, Region_B 2, Region_B 3, Region_C, Region_D])"
  using assms by (simp add: init_shared_regions_def map_region_def init_level_ready_def upt_rec)

lemma destroy_shared_regions_all:
  "destroy_shared_regions [Region_A, Region_B 0, Region_B 1, Region_B 2, Region_B 3, Region_C, Region_D] = []"
  by (simp add: destroy_shared_regions_def upt_rec)

text \<open>The sizes do not wrap around: an \<open>int\<close> capacity times the size of an entry fits in \<open>size_t\<close>.\<close>

lemma capacity_times_entry:
  assumes "0 \<le> c" "in_int c" "h < 2 ^ 20" "e < 2 ^ 20"
  shows "unat (of_nat h + of_int c * of_nat e :: 64 word) = h + nat c * e"
proof -
  have "nat c \<le> 2 ^ 31" using assms(1,2) by (simp add: c_int_simps)
  then have "nat c * e \<le> 2 ^ 31 * 2 ^ 20" using assms(4) by (intro mult_le_mono) simp_all
  then have lt: "h + nat c * e < 2 ^ 64" using assms(3) by simp
  have "(of_nat h + of_int c * of_nat e :: 64 word) = of_nat (h + nat c * e)" using assms(1) by simp
  then show ?thesis using lt by (simp only: unat_of_nat) simp
qed

section \<open>Facts on the processes\<close>

text \<open>The children after the readers have been started.\<close>

definition reader_children :: "setup_calls \<Rightarrow> program_options_t \<Rightarrow> nat \<Rightarrow> (int \<times> child_role \<times> pipe_end list) list" where
  "reader_children calls opts n =
     map (\<lambda>i. (fork_pid calls i, Reader_Proc i (files opts ! i), map Read_End [0..<Suc i] @ [Write_End i])) [0..<n]"

lemma start_readers:
  assumes "\<forall>i. pipe_ok calls i" "\<forall>k<n. 0 < fork_pid calls k"
  shows "in_turn (map (start_reader calls opts) [0..<n]) \<lparr>children = [], parent_ends = []\<rparr> =
     (None, \<lparr>children = reader_children calls opts n, parent_ends = map Read_End [0..<n]\<rparr>)"
  using assms(2)
proof (induction n)
  case (Suc n)
  have "remove1 (Write_End n) (map Read_End [0..<n] @ [Read_End n, Write_End n]) = map Read_End [0..<Suc n]"
    by (subst remove1_append) auto
  moreover have "\<not> fork_pid calls (length (reader_children calls opts n)) < 0" using Suc.prems by (simp add: reader_children_def not_less less_imp_le)
  ultimately have "start_reader calls opts n \<lparr>children = reader_children calls opts n, parent_ends = map Read_End [0..<n]\<rparr> =
      (None, \<lparr>children = reader_children calls opts (Suc n), parent_ends = map Read_End [0..<Suc n]\<rparr>)"
    using assms(1) by (simp add: start_reader_def fork_child_def Let_def reader_children_def)
  moreover have "\<forall>k<n. 0 < fork_pid calls k" using Suc.prems by simp
  ultimately show ?case unfolding upt_Suc_append [OF le0] map_append in_turn_append using Suc.IH by simp
qed (simp add: reader_children_def)

definition other_children :: "setup_calls \<Rightarrow> nat \<Rightarrow> (int \<times> child_role \<times> pipe_end list) list" where
  "other_children calls n =
     map (\<lambda>(k, role). (fork_pid calls (n + k), role, map Read_End [0..<n]))
       [(0, Dispatcher_Proc), (1, Analyzer_Proc 0), (2, Analyzer_Proc 1), (3, Analyzer_Proc 2), (4, Analyzer_Proc 3), (5, Aggregator_Proc)]"

lemma start_processes_ok:
  assumes "\<forall>i. pipe_ok calls i" "\<forall>k. 0 < fork_pid calls k"
  shows "start_processes calls opts =
     (None, \<lparr>children = reader_children calls opts (length (files opts)) @ other_children calls (length (files opts)),
             parent_ends = map Read_End [0..<length (files opts)]\<rparr>)"
proof -
  have pos: "\<not> fork_pid calls k < 0" for k using assms(2) by (simp add: not_less less_imp_le)
  have len: "length (reader_children calls opts n) = n" for n by (simp add: reader_children_def)
  show ?thesis
    unfolding start_processes_def in_turn_append start_readers [OF assms(1) allI [OF impI [OF spec [OF assms(2)]]]] other_children_def
    by (simp add: fork_child_def Let_def pos len upt_rec eval_nat_numeral)
qed

lemma accepted_files: "parse_args fs args = Inr opts \<Longrightarrow> length (files opts) \<le> MAX_FILES"
  using load_lines_bound [of MAX_FILES MAX_PATH_LEN _ "[]"]
  by (fastforce simp: parse_args_def load_file_paths_def split: sum.splits if_splits option.splits)

text \<open>The process ids of the children.\<close>

lemma child_pids:
  "map fst (reader_children calls opts n @ other_children calls n) = map (fork_pid calls) [0..<n + 6]"
proof -
  have "[0..<n + 6] = [0..<n] @ [n, n + 1, n + 2, n + 3, n + 4, n + 5]"
    by (subst upt_add_eq_append) (simp_all add: upt_rec)
  then show ?thesis by (simp add: reader_children_def other_children_def o_def)
qed

lemma write_end_holder:
  assumes "(pid, role, ends) \<in> set (reader_children calls opts n @ other_children calls n)" "i < n"
  shows "Write_End i \<in> set ends \<longleftrightarrow> role = Reader_Proc i (files opts ! i)"
  using assms by (auto simp: reader_children_def other_children_def)

section \<open>Property\<close>

text \<open>(C11) The parent of the log analyser: when the calls of the system succeed, it starts one reader per log file, the
  dispatcher, the four analyzers and the aggregator, which fit in its table; the write end of a heartbeat pipe is
  held by its reader alone, so that the watchdog sees its end when that reader has ended; and once the children
  have been reaped, in whatever order, it prints the summary and has unmapped all shared regions.\<close>

theorem log_parent_correct:
  assumes "parse_args fs args = Inr opts"
    and "\<forall>r. mmap_ok calls r \<and> sync_error calls r = None" and "\<forall>i. sem_ok calls i \<and> pipe_ok calls i"
    and "\<forall>k. 0 < fork_pid calls k" and "inj (fork_pid calls)"
    and "mset order = mset (map (fork_pid calls) [0..<length (files opts) + 6])"
  shows "\<exists>s. log_main calls fs args (map (\<lambda>p. (Reaped p, False)) order) rounds results hp =
             Some (Log_Ended (parent_summary opts results hp), [], s) \<and>
     map (fst \<circ> snd) (children s) = map (\<lambda>i. Reader_Proc i (files opts ! i)) [0..<length (files opts)] @
       [Dispatcher_Proc, Analyzer_Proc 0, Analyzer_Proc 1, Analyzer_Proc 2, Analyzer_Proc 3, Aggregator_Proc] \<and>
     length (children s) \<le> MAX_FILES + 6 \<and>
     (\<forall>i < length (files opts). Write_End i \<notin> set (parent_ends s) \<and>
        (\<forall>(pid, role, ends) \<in> set (children s). Write_End i \<in> set ends \<longleftrightarrow> role = Reader_Proc i (files opts ! i)))"
proof -
  let ?n = "length (files opts)"
  let ?s = "\<lparr>children = reader_children calls opts ?n @ other_children calls ?n, parent_ends = map Read_End [0..<?n]\<rparr>"
  have start: "start_processes calls opts = (None, ?s)" using assms(3,4) by (intro start_processes_ok) auto
  have regions: "init_shared_regions calls = (None, [Region_A, Region_B 0, Region_B 1, Region_B 2, Region_B 3, Region_C, Region_D])"
    using assms(2,3) by (intro init_shared_regions_ok) auto
  have len: "length (children ?s) = ?n + 6" by (simp add: reader_children_def other_children_def)
  have "distinct (map (fork_pid calls) [0..<?n + 6])" using assms(5) by (simp add: distinct_map inj_on_subset [OF _ subset_UNIV])
  moreover have "list_all (\<lambda>p. p > 0) (map (fork_pid calls) [0..<?n + 6])" using assms(4) by (simp add: list_all_iff)
  ultimately obtain pids' where
    "wait_loop (map (fork_pid calls) [0..<?n + 6]) (?n + 6) (map (\<lambda>p. (Reaped p, False)) order) = Some (All_Done pids')"
    using parent_reaps_all [OF _ _ assms(6)] by auto
  then have loop: "wait_loop (map fst (children ?s)) (length (children ?s)) (map (\<lambda>p. (Reaped p, False)) order) = Some (All_Done pids')"
    unfolding len by (simp only: processes.simps child_pids)
  have "log_main calls fs args (map (\<lambda>p. (Reaped p, False)) order) rounds results hp =
      Some (Log_Ended (parent_summary opts results hp), [], ?s)"
    unfolding log_main_def Let_def assms(1) sum.case regions start prod.case option.case loop wait_end.case destroy_shared_regions_all ..
  moreover have "map (fst \<circ> snd) (children ?s) = map (\<lambda>i. Reader_Proc i (files opts ! i)) [0..<?n] @
       [Dispatcher_Proc, Analyzer_Proc 0, Analyzer_Proc 1, Analyzer_Proc 2, Analyzer_Proc 3, Aggregator_Proc]"
    by (simp add: reader_children_def other_children_def)
  moreover have "length (children ?s) \<le> MAX_FILES + 6" using accepted_files [OF assms(1)] unfolding len by simp
  moreover have "Write_End i \<notin> set (parent_ends ?s)" for i by auto
  moreover have "\<forall>(pid, role, ends) \<in> set (children ?s). Write_End i \<in> set ends \<longleftrightarrow> role = Reader_Proc i (files opts ! i)" if "i < ?n" for i
    using write_end_holder that by (auto simp del: set_append)
  ultimately show ?thesis by (intro exI [of _ ?s]) simp
qed

definition willing_calls :: setup_calls where
  "willing_calls = \<lparr>mmap_ok = (\<lambda>_. True), mutex_calls = (\<lambda>_. \<lparr>attr_ok = True, pshared_ok = True, object_ok = True\<rparr>),
     cond_calls = (\<lambda>_ _. \<lparr>attr_ok = True, pshared_ok = True, object_ok = True\<rparr>), sem_ok = (\<lambda>_. True), pipe_ok = (\<lambda>_. True), fork_pid = (\<lambda>k. 100 + int k)\<rparr>"

theorem log_parent_correct_witness:
  "\<exists>opts s. parse_args demo_fs demo_args = Inr opts \<and>
     log_main willing_calls demo_fs demo_args (map (\<lambda>p. (Reaped p, False)) [103, 100, 102, 101, 106, 105, 104]) [] [] 0 =
       Some (Log_Ended (parent_summary opts [] 0), [], s) \<and> length (children s) \<le> MAX_FILES + 6"
proof -
  have "map_sum id (\<lambda>opts. length (files opts)) (parse_args demo_fs demo_args) = Inr 1" by code_simp
  then obtain opts where o: "parse_args demo_fs demo_args = Inr opts" "length (files opts) = 1"
    by (cases "parse_args demo_fs demo_args") auto
  have c: "\<forall>r. mmap_ok willing_calls r \<and> sync_error willing_calls r = None" "\<forall>i. sem_ok willing_calls i \<and> pipe_ok willing_calls i"
    "\<forall>k. 0 < fork_pid willing_calls k" "inj (fork_pid willing_calls)"
    by (simp_all add: willing_calls_def inj_def sync_error_def init_pshared_mutex_def init_pshared_cond_def upt_rec)
  have "mset [103, 100, 102, 101, 106, 105, 104] = mset (map (fork_pid willing_calls) [0..<length (files opts) + 6])"
    unfolding o(2) by (simp add: willing_calls_def upt_rec)
  from log_parent_correct [OF o(1) c this, of "[]" "[]" 0] o(1) show ?thesis by blast
qed

text \<open>A \<open>fork\<close> that fails ends the parent, and the children that it has started are left running.\<close>

lemma failed_fork_leaves_children:
  assumes "\<forall>i. pipe_ok calls i" "\<forall>k<n. 0 < fork_pid calls k" "fork_pid calls n < 0" "n < length (files opts)"
  shows "\<exists>s. start_processes calls opts = (Some ''fork reader'', s) \<and> length (children s) = n"
proof -
  let ?s = "\<lparr>children = reader_children calls opts n, parent_ends = map Read_End [0..<n]\<rparr>"
  have pre: "in_turn (map (start_reader calls opts) [0..<m]) \<lparr>children = [], parent_ends = []\<rparr> =
     (None, \<lparr>children = reader_children calls opts m, parent_ends = map Read_End [0..<m]\<rparr>)" if "m \<le> n" for m
    using that by (intro start_readers assms(1)) (use assms(2) in auto)
  have "[0..<length (files opts)] = [0..<n] @ n # [Suc n..<length (files opts)]"
    using upt_add_eq_append [of 0 n "length (files opts) - n"] assms(4) by (simp add: upt_conv_Cons)
  moreover have "fst (start_reader calls opts n ?s) = Some ''fork reader''" "length (children (snd (start_reader calls opts n ?s))) = n"
    using assms(1,3) by (simp_all add: start_reader_def fork_child_def Let_def reader_children_def)
  ultimately show ?thesis
    by (cases "start_reader calls opts n ?s") (simp add: start_processes_def in_turn_append pre)
qed

end
