(* ===== verification/Log_Sync.thy ===== *)
theory Log_Sync
  imports C_Prelude "HOL-Library.Word"
begin

text \<open>
  The synchronisation primitives that \<open>HW4/common.h\<close> builds from a mutex and a condition variable where the
  system has none: the semaphore \<open>hw_sem_t\<close> and the barrier. A step is one critical section; a thread that waits
  on the condition variable of the barrier sleeps until a broadcast or a spurious wake-up, which may come at any
  time. The fields are \<open>unsigned\<close>, so words of 32 bits.
\<close>

section \<open>The semaphore\<close>

record hw_sem =
  sem_count :: "32 word"

definition hw_sem_init :: "32 word \<Rightarrow> hw_sem" where
  "hw_sem_init v = \<lparr>sem_count = v\<rparr>"

definition hw_sem_post :: "hw_sem \<Rightarrow> hw_sem" where
  "hw_sem_post s = s\<lparr>sem_count := sem_count s + 1\<rparr>"

text \<open>\<open>hw_sem_wait\<close> after it has woken up; \<open>None\<close> when it goes on waiting.\<close>

definition hw_sem_wait :: "hw_sem \<Rightarrow> hw_sem option" where
  "hw_sem_wait s = (if sem_count s = 0 then None else Some (s\<lparr>sem_count := sem_count s - 1\<rparr>))"

text \<open>A history of posts and attempts to wait, with the number of waits that returned.\<close>

fun sem_run :: "bool list \<Rightarrow> hw_sem \<Rightarrow> nat \<times> hw_sem" where
  "sem_run [] s = (0, s)"
| "sem_run (post # es) s =
     (if post then sem_run es (hw_sem_post s)
      else (case hw_sem_wait s of None \<Rightarrow> sem_run es s | Some s' \<Rightarrow> apfst Suc (sem_run es s')))"

section \<open>The barrier\<close>

record barrier =
  b_count :: "32 word"
  trip_count :: "32 word"
  generation :: "32 word"

definition pthread_barrier_init :: "32 word \<Rightarrow> barrier option" where
  "pthread_barrier_init n = (if n = 0 then None else Some \<lparr>b_count = 0, trip_count = n, generation = 0\<rparr>)"

text \<open>\<open>pthread_barrier_wait\<close> up to its loop: \<open>None\<close> when it returns 1 at once, otherwise the generation it waits
  for to pass.\<close>

definition barrier_enter :: "barrier \<Rightarrow> 32 word option \<times> barrier" where
  "barrier_enter b =
     (if b_count b + 1 = trip_count b
      then (None, b\<lparr>generation := generation b + 1, b_count := 0\<rparr>)
      else (Some (generation b), b\<lparr>b_count := b_count b + 1\<rparr>))"

text \<open>Threads that use a barrier again and again. A thread in \<open>pthread_cond_wait\<close> is \<open>Asleep\<close>; one that has been
  woken there has still to test its generation again. The broadcast of the last thread wakes every sleeper.\<close>

datatype bthread = Outside | Asleep "32 word" | Woken "32 word"

fun wake_up :: "bthread \<Rightarrow> bthread" where
  "wake_up Outside = Outside"
| "wake_up (Asleep g) = Woken g"
| "wake_up (Woken g) = Woken g"

definition cond_broadcast :: "bthread list \<Rightarrow> bthread list" where
  "cond_broadcast ts = map wake_up ts"

text \<open>Where each thread is, how often it has entered the barrier and how often it has left it.\<close>

record barrier_sys =
  bar :: barrier
  bpc :: "bthread list"
  entered :: "nat list"
  exited :: "nat list"

definition bump :: "nat \<Rightarrow> nat list \<Rightarrow> nat list" where
  "bump i xs = xs[i := Suc (xs ! i)]"

inductive bstep :: "barrier_sys \<Rightarrow> barrier_sys \<Rightarrow> bool" where
  trip: "i < length (bpc s) \<Longrightarrow> bpc s ! i = Outside \<Longrightarrow> barrier_enter (bar s) = (None, b) \<Longrightarrow>
     bstep s (s\<lparr>bar := b, bpc := cond_broadcast (bpc s), entered := bump i (entered s), exited := bump i (exited s)\<rparr>)"
| enter: "i < length (bpc s) \<Longrightarrow> bpc s ! i = Outside \<Longrightarrow> barrier_enter (bar s) = (Some g, b) \<Longrightarrow>
     bstep s (s\<lparr>bar := b, bpc := (bpc s)[i := Asleep g], entered := bump i (entered s)\<rparr>)"
| leave: "i < length (bpc s) \<Longrightarrow> bpc s ! i = Woken g \<Longrightarrow> g \<noteq> generation (bar s) \<Longrightarrow>
     bstep s (s\<lparr>bpc := (bpc s)[i := Outside], exited := bump i (exited s)\<rparr>)"
| wait_again: "i < length (bpc s) \<Longrightarrow> bpc s ! i = Woken g \<Longrightarrow> g = generation (bar s) \<Longrightarrow>
     bstep s (s\<lparr>bpc := (bpc s)[i := Asleep g]\<rparr>)"
| spurious: "i < length (bpc s) \<Longrightarrow> bpc s ! i = Asleep g \<Longrightarrow> bstep s (s\<lparr>bpc := (bpc s)[i := Woken g]\<rparr>)"

definition barrier_start :: "nat \<Rightarrow> barrier \<Rightarrow> barrier_sys" where
  "barrier_start n b = \<lparr>bar = b, bpc = replicate n Outside, entered = replicate n 0, exited = replicate n 0\<rparr>"

inductive breach :: "barrier_sys \<Rightarrow> barrier_sys \<Rightarrow> bool" for s where
  start: "breach s s"
| step: "breach s t \<Longrightarrow> bstep t u \<Longrightarrow> breach s u"

section \<open>The invariant\<close>

definition present :: "nat \<Rightarrow> barrier_sys \<Rightarrow> nat set" where
  "present G s = {i. i < length (entered s) \<and> entered s ! i = Suc G}"

definition thread_ok :: "nat \<Rightarrow> barrier_sys \<Rightarrow> nat \<Rightarrow> bool" where
  "thread_ok G s i \<longleftrightarrow>
     bpc s ! i = Outside \<and> entered s ! i = G \<and> exited s ! i = G \<or>
     bpc s ! i \<in> {Asleep (of_nat G), Woken (of_nat G)} \<and> entered s ! i = Suc G \<and> exited s ! i = G \<or>
     0 < G \<and> bpc s ! i = Woken (of_nat (G - 1)) \<and> entered s ! i = G \<and> exited s ! i = G - 1"

definition barrier_inv :: "nat \<Rightarrow> nat \<Rightarrow> barrier_sys \<Rightarrow> bool" where
  "barrier_inv n G s \<longleftrightarrow>
     length (bpc s) = n \<and> length (entered s) = n \<and> length (exited s) = n \<and>
     trip_count (bar s) = of_nat n \<and> generation (bar s) = of_nat G \<and>
     b_count (bar s) = of_nat (card (present G s)) \<and> card (present G s) < n \<and>
     (\<forall>i<n. thread_ok G s i)"

lemma finite_present [simp]: "finite (present G s)"
  by (simp add: present_def)

lemma succ_word_neq: "of_nat (Suc G) \<noteq> (of_nat G :: 32 word)"
  by simp

lemma count_full_iff:
  assumes "c < n" and "n < 2 ^ 32"
  shows "(of_nat c + 1 :: 32 word) = of_nat n \<longleftrightarrow> Suc c = n"
proof
  assume "(of_nat c + 1 :: 32 word) = of_nat n"
  then have "unat (of_nat (Suc c) :: 32 word) = unat (of_nat n :: 32 word)" by (simp add: add.commute)
  moreover have "unat (of_nat (Suc c) :: 32 word) = Suc c" "unat (of_nat n :: 32 word) = n"
    using assms by (auto simp: unat_of_nat take_bit_nat_eq_self simp del: of_nat_Suc)
  ultimately show "Suc c = n" by simp
qed auto

lemma thread_okD: "barrier_inv n G s \<Longrightarrow> i < n \<Longrightarrow> thread_ok G s i"
  by (simp add: barrier_inv_def)

text \<open>A thread outside the barrier has not entered the current round.\<close>

lemma enter_present:
  assumes "barrier_inv n G s" and "i < n" and "bpc s ! i = Outside"
  shows "entered s ! i = G" "exited s ! i = G" "{k. k < n \<and> bump i (entered s) ! k = Suc G} = insert i (present G s)" "i \<notin> present G s"
proof -
  show e: "entered s ! i = G" "exited s ! i = G" using thread_okD [OF assms(1,2)] assms(3) by (auto simp: thread_ok_def)
  show "i \<notin> present G s" using e by (simp add: present_def)
  show "{k. k < n \<and> bump i (entered s) ! k = Suc G} = insert i (present G s)"
    using assms(1,2) e(1) by (auto simp: present_def bump_def barrier_inv_def nth_list_update)
qed

lemma trip_inv:
  assumes inv: "barrier_inv n G s" and n: "n < 2 ^ 32" and i: "i < n" "bpc s ! i = Outside"
    and full: "barrier_enter (bar s) = (None, b)"
  shows "barrier_inv n (Suc G) (s\<lparr>bar := b, bpc := cond_broadcast (bpc s), entered := bump i (entered s), exited := bump i (exited s)\<rparr>)"
proof -
  note e = enter_present [OF inv i]
  have len: "length (entered s) = n" "length (exited s) = n" "length (bpc s) = n" using inv by (simp_all add: barrier_inv_def)
  have b: "b_count (bar s) + 1 = trip_count (bar s)" "b = (bar s)\<lparr>generation := generation (bar s) + 1, b_count := 0\<rparr>"
    using full by (auto simp: barrier_enter_def split: if_splits)
  then have "Suc (card (present G s)) = n" using count_full_iff [OF _ n, of "card (present G s)"] inv by (simp add: barrier_inv_def)
  then have "card (insert i (present G s)) = card {..<n}" using e(4) by simp
  moreover have "insert i (present G s) \<subseteq> {..<n}" using i len by (auto simp: present_def)
  ultimately have all: "insert i (present G s) = {..<n}" by (intro card_subset_eq) auto
  have ok: "thread_ok (Suc G) (s\<lparr>bar := b, bpc := cond_broadcast (bpc s), entered := bump i (entered s), exited := bump i (exited s)\<rparr>) j" if "j < n" for j
  proof (cases "j = i")
    case True
    with i len e show ?thesis by (simp add: thread_ok_def bump_def cond_broadcast_def)
  next
    case False
    then have "j \<in> present G s" using all that by auto
    then have "entered s ! j = Suc G" by (simp add: present_def)
    with thread_okD [OF inv that] False len that show ?thesis by (auto simp: thread_ok_def bump_def cond_broadcast_def)
  qed
  have "present (Suc G) (s\<lparr>bar := b, bpc := cond_broadcast (bpc s), entered := bump i (entered s), exited := bump i (exited s)\<rparr>) = {}"
  proof -
    have "bump i (entered s) ! k \<le> Suc G" if "k < n" for k
      using thread_okD [OF inv that] e(1) i len that by (auto simp: thread_ok_def bump_def nth_list_update)
    then show ?thesis using len by (fastforce simp: present_def bump_def)
  qed
  with ok inv b(2) i show ?thesis by (auto simp: barrier_inv_def bump_def cond_broadcast_def)
qed

lemma enter_inv:
  assumes inv: "barrier_inv n G s" and n: "n < 2 ^ 32" and i: "i < n" "bpc s ! i = Outside"
    and enter: "barrier_enter (bar s) = (Some g, b)"
  shows "barrier_inv n G (s\<lparr>bar := b, bpc := (bpc s)[i := Asleep g], entered := bump i (entered s)\<rparr>)"
proof -
  note e = enter_present [OF inv i]
  have len: "length (entered s) = n" "length (exited s) = n" "length (bpc s) = n" using inv by (simp_all add: barrier_inv_def)
  have b: "b_count (bar s) + 1 \<noteq> trip_count (bar s)" "b = (bar s)\<lparr>b_count := b_count (bar s) + 1\<rparr>" "g = generation (bar s)"
    using enter by (auto simp: barrier_enter_def split: if_splits)
  then have "Suc (card (present G s)) \<noteq> n" using count_full_iff [OF _ n, of "card (present G s)"] inv by (simp add: barrier_inv_def)
  moreover have "present G (s\<lparr>bar := b, bpc := (bpc s)[i := Asleep g], entered := bump i (entered s)\<rparr>) = insert i (present G s)"
    using e(3) len by (simp add: present_def bump_def)
  moreover have "thread_ok G (s\<lparr>bar := b, bpc := (bpc s)[i := Asleep g], entered := bump i (entered s)\<rparr>) j" if "j < n" for j
    using thread_okD [OF inv that] e i len b(3) inv by (cases "j = i") (auto simp: thread_ok_def bump_def barrier_inv_def)
  ultimately show ?thesis using inv e(4) b(2) by (simp add: barrier_inv_def bump_def add.commute)
qed

lemma leave_inv:
  assumes inv: "barrier_inv n G s" and i: "i < n" "bpc s ! i = Woken g" "g \<noteq> generation (bar s)"
  shows "barrier_inv n G (s\<lparr>bpc := (bpc s)[i := Outside], exited := bump i (exited s)\<rparr>)"
proof -
  have len: "length (entered s) = n" "length (exited s) = n" "length (bpc s) = n" using inv by (simp_all add: barrier_inv_def)
  have "g \<noteq> of_nat G" using inv i(3) by (simp add: barrier_inv_def)
  then have "0 < G" "entered s ! i = G" "exited s ! i = G - 1" using thread_okD [OF inv i(1)] i(2) by (auto simp: thread_ok_def)
  then have "thread_ok G (s\<lparr>bpc := (bpc s)[i := Outside], exited := bump i (exited s)\<rparr>) j" if "j < n" for j
    using thread_okD [OF inv that] i len by (cases "j = i") (auto simp: thread_ok_def bump_def)
  moreover have "present G (s\<lparr>bpc := (bpc s)[i := Outside], exited := bump i (exited s)\<rparr>) = present G s" by (simp add: present_def)
  ultimately show ?thesis using inv by (simp add: barrier_inv_def bump_def)
qed

lemma wait_inv:
  assumes inv: "barrier_inv n G s" and i: "i < n" and g: "p = Asleep g \<and> bpc s ! i = Woken g \<and> g = generation (bar s) \<or> p = Woken g \<and> bpc s ! i = Asleep g"
  shows "barrier_inv n G (s\<lparr>bpc := (bpc s)[i := p]\<rparr>)"
proof -
  have len: "length (bpc s) = n" and gen: "generation (bar s) = of_nat G" using inv by (simp_all add: barrier_inv_def)
  have "thread_ok G (s\<lparr>bpc := (bpc s)[i := p]\<rparr>) j" if "j < n" for j
  proof (cases "j = i")
    case True
    have "0 < G \<Longrightarrow> of_nat (G - 1) \<noteq> (of_nat G :: 32 word)" using succ_word_neq [of "G - 1"] by simp
    then show ?thesis using thread_okD [OF inv i] g gen True i len by (auto simp: thread_ok_def)
  next
    case False
    then show ?thesis using thread_okD [OF inv that] by (simp add: thread_ok_def)
  qed
  moreover have "present G (s\<lparr>bpc := (bpc s)[i := p]\<rparr>) = present G s" by (simp add: present_def)
  ultimately show ?thesis using inv by (simp add: barrier_inv_def)
qed

lemma bstep_inv: "bstep s t \<Longrightarrow> barrier_inv n G s \<Longrightarrow> n < 2 ^ 32 \<Longrightarrow> \<exists>G'. barrier_inv n G' t"
proof (induction rule: bstep.induct)
  case (trip i s b)
  then have "i < n" by (simp add: barrier_inv_def)
  with trip trip_inv [of n G s i b] show ?case by blast
next
  case (enter i s g b)
  then have "i < n" by (simp add: barrier_inv_def)
  with enter enter_inv [of n G s i g b] show ?case by blast
next
  case (leave i s g)
  then have "i < n" by (simp add: barrier_inv_def)
  with leave leave_inv [of n G s i g] show ?case by blast
next
  case (wait_again i s g)
  then have "i < n" by (simp add: barrier_inv_def)
  with wait_again wait_inv [of n G s i "Asleep g" g] show ?case by blast
next
  case (spurious i s g)
  then have "i < n" by (simp add: barrier_inv_def)
  with spurious wait_inv [of n G s i "Woken g" g] show ?case by blast
qed

lemma barrier_start_inv:
  assumes "pthread_barrier_init (of_nat n) = Some b" and "0 < n"
  shows "barrier_inv n 0 (barrier_start n b)"
proof -
  have "present 0 (barrier_start n b) = {}" by (auto simp: present_def barrier_start_def)
  with assms show ?thesis
    by (auto simp: pthread_barrier_init_def barrier_start_def barrier_inv_def thread_ok_def split: if_splits)
qed

lemma breach_inv:
  assumes "breach (barrier_start n b) s" and "pthread_barrier_init (of_nat n) = Some b" and "0 < n" and "n < 2 ^ 32"
  shows "\<exists>G. barrier_inv n G s"
  using assms(1)
proof (induction rule: breach.induct)
  case start
  show ?case using barrier_start_inv [OF assms(2,3)] by blast
next
  case (step t u)
  then show ?case using bstep_inv assms(4) by blast
qed

section \<open>Properties\<close>

text \<open>(C17) The barrier of \<open>common.h\<close> is correct for every number of threads below \<open>2\<^sup>3\<^sup>2\<close>, every reuse and every
  spurious wake-up, although its fields wrap around: a thread has left the barrier for the \<open>k\<close>-th time only when
  every thread has entered it at least \<open>k\<close> times and no thread is a full round ahead of another; no wake-up is
  lost, a thread that sleeps is one of the current round, whose generation has not changed; and the threads are
  never all asleep. The last two rest on the broadcast of the last thread to arrive.\<close>

theorem barrier_correct:
  assumes "breach (barrier_start n b) s" and "pthread_barrier_init (of_nat n) = Some b" and "0 < n" and "n < 2 ^ 32"
  shows "list_all (\<lambda>i. list_all (\<lambda>j. exited s ! i \<le> entered s ! j \<and> entered s ! i \<le> Suc (entered s ! j)) [0..<n]) [0..<n] \<and>
     length (bpc s) = n \<and>
     list_all (\<lambda>p. case p of Asleep g \<Rightarrow> g = generation (bar s) | _ \<Rightarrow> True) (bpc s) \<and>
     list_ex (\<lambda>p. case p of Asleep g \<Rightarrow> False | _ \<Rightarrow> True) (bpc s)"
proof -
  obtain G where inv: "barrier_inv n G s" using breach_inv [OF assms] by blast
  have len: "length (bpc s) = n" using inv by (simp add: barrier_inv_def)
  have ok: "exited s ! i \<le> G \<and> entered s ! i \<le> Suc G \<and> G \<le> entered s ! i" if "i < n" for i
    using thread_okD [OF inv that] by (auto simp: thread_ok_def)
  have rounds: "exited s ! i \<le> entered s ! j \<and> entered s ! i \<le> Suc (entered s ! j)" if "i < n" "j < n" for i j
    using ok [OF that(1)] ok [OF that(2)] by linarith
  have asleep: "case bpc s ! i of Asleep g \<Rightarrow> g = generation (bar s) \<and> entered s ! i = Suc G | _ \<Rightarrow> True" if "i < n" for i
    using thread_okD [OF inv that] inv by (auto simp: thread_ok_def barrier_inv_def)
  have "\<exists>i<n. i \<notin> present G s"
  proof (rule ccontr)
    assume "\<not> (\<exists>i<n. i \<notin> present G s)"
    then have "{..<n} \<subseteq> present G s" by auto
    then have "n \<le> card (present G s)" using card_mono [of "present G s" "{..<n}"] by simp
    then show False using inv by (simp add: barrier_inv_def)
  qed
  then obtain i where i: "i < n" "entered s ! i \<noteq> Suc G" using inv by (auto simp: barrier_inv_def present_def)
  then have "case bpc s ! i of Asleep g \<Rightarrow> False | _ \<Rightarrow> True" using asleep [OF i(1)] by (auto split: bthread.splits)
  with i(1) have "list_ex (\<lambda>p. case p of Asleep g \<Rightarrow> False | _ \<Rightarrow> True) (bpc s)"
    unfolding list_ex_length len by blast
  moreover have "list_all (\<lambda>p. case p of Asleep g \<Rightarrow> g = generation (bar s) | _ \<Rightarrow> True) (bpc s)"
    unfolding list_all_length len using asleep by (fastforce split: bthread.splits)
  ultimately show ?thesis using rounds len by (auto simp: list_all_iff)
qed

theorem barrier_correct_witness:
  "\<exists>s. breach (barrier_start 2 \<lparr>b_count = 0, trip_count = 2, generation = 0\<rparr>) s \<and> exited s = [1, 0] \<and>
     bpc s = [Outside, Woken 0] \<and> exited s ! 0 \<le> entered s ! 1 \<and>
     list_ex (\<lambda>p. case p of Asleep g \<Rightarrow> False | _ \<Rightarrow> True) (bpc s)"
proof -
  let ?b = "\<lparr>b_count = 0, trip_count = 2, generation = 0\<rparr> :: barrier"
  let ?s = "barrier_start 2 ?b"
  let ?t = "?s\<lparr>bar := ?b\<lparr>b_count := 1\<rparr>, bpc := (bpc ?s)[1 := Asleep 0], entered := bump 1 (entered ?s)\<rparr>"
  let ?u = "?t\<lparr>bar := ?b\<lparr>b_count := 0, generation := 1\<rparr>, bpc := cond_broadcast (bpc ?t), entered := bump 0 (entered ?t), exited := bump 0 (exited ?t)\<rparr>"
  have "bstep ?s ?t" by (rule bstep.enter) (simp_all add: barrier_start_def barrier_enter_def)
  moreover have "bstep ?t ?u" by (rule bstep.trip) (simp_all add: barrier_start_def barrier_enter_def numeral_2_eq_2)
  ultimately have r: "breach ?s ?u" by (blast intro: breach.intros)
  have "pthread_barrier_init (of_nat 2) = Some ?b" by (simp add: pthread_barrier_init_def)
  from barrier_correct [OF r this] have "list_all (\<lambda>i. list_all (\<lambda>j. exited ?u ! i \<le> entered ?u ! j \<and> entered ?u ! i \<le> Suc (entered ?u ! j)) [0..<2]) [0..<2]"
    and ex: "list_ex (\<lambda>p. case p of Asleep g \<Rightarrow> False | _ \<Rightarrow> True) (bpc ?u)"
    by simp_all
  then have "exited ?u ! 0 \<le> entered ?u ! 1" unfolding list_all_iff by (auto simp: numeral_2_eq_2 simp del: upt_Suc)
  moreover have "exited ?u = [1, 0]" "bpc ?u = [Outside, Woken 0]"
    by (simp_all add: barrier_start_def bump_def cond_broadcast_def numeral_2_eq_2)
  ultimately show ?thesis using r ex by blast
qed

text \<open>The semaphore: for every history in which the counter does not wrap around, the number of waits that
  returned is bounded by the initial value and the posts, and the counter is what is left.\<close>

theorem semaphore_counts:
  assumes "unat (sem_count s) + length (filter id es) < 2 ^ 32"
  shows "fst (sem_run es s) + unat (sem_count (snd (sem_run es s))) = unat (sem_count s) + length (filter id es)"
  using assms
proof (induction es arbitrary: s)
  case (Cons post es)
  show ?case
  proof (cases post)
    case True
    have "unat (sem_count s + 1) = Suc (unat (sem_count s))"
      using Cons(2) True by (simp add: unat_word_ariths(1))
    with Cons(1) [of "hw_sem_post s"] Cons(2) True show ?thesis by (simp add: hw_sem_post_def)
  next
    case False
    show ?thesis
    proof (cases "sem_count s = 0")
      case True
      with False Cons show ?thesis by (simp add: hw_sem_wait_def)
    next
      case nz: False
      then have "unat (sem_count s - 1) = unat (sem_count s) - 1" "0 < unat (sem_count s)"
        by (simp_all add: unat_minus_one unat_gt_0)
      with Cons(1) [of "s\<lparr>sem_count := sem_count s - 1\<rparr>"] Cons(2) False nz show ?thesis by (simp add: hw_sem_wait_def)
    qed
  qed
qed simp

end
