(* ===== verification/Hogwarts.thy ===== *)
theory Hogwarts
  imports C_Stdlib
begin

text \<open>
  The Hogwarts inventory server (\<open>HW6/hogwarts.c\<close>, \<open>HW6/magic_common.c\<close>): ingredients, clients,
  the line protocol and one iteration of the select loop. What the server hands to \<open>send\<close> is kept in
  \<open>sent\<close> (socket and bytes), what it logs in \<open>events\<close> (without the time stamp). The results of the
  system calls (\<open>accept\<close>, \<open>recv\<close>, \<open>select\<close>, \<open>time\<close>, \<open>calloc\<close>) are arguments. Arithmetic that
  overflows an \<open>int\<close> is \<open>None\<close>.
\<close>

section \<open>State\<close>

abbreviation MAX_LINE :: nat where "MAX_LINE \<equiv> 512"
abbreviation MAX_INGREDIENTS :: nat where "MAX_INGREDIENTS \<equiv> 128"

record ingredient_t =
  ing_name :: string
  qty :: int

record client_t =
  fd :: int
  username :: string
  role :: string
  line_buf :: string
  discard_long_line :: bool
  last_active :: int
  spellbook :: "int list"

record server =
  ingredients :: "ingredient_t list"
  clients :: "client_t list"
  timeout_seconds :: int
  sent :: "(int \<times> string) list"
  events :: "string list"

section \<open>Common helpers\<close>

text \<open>\<open>send_line\<close>: the bytes that go to \<open>send_all\<close>.\<close>

definition send_line :: "int \<Rightarrow> string \<Rightarrow> server \<Rightarrow> server" where
  "send_line fdn line s = s\<lparr>sent := sent s @ [(fdn, take MAX_LINE line @ [newline])]\<rparr>"

definition log_event :: "string \<Rightarrow> server \<Rightarrow> server" where
  "log_event message s = s\<lparr>events := events s @ [fit 1024 message]\<rparr>"

definition parse_positive_int :: "string \<Rightarrow> int option" where
  "parse_positive_int txt =
     (if txt = [] then None
      else case strtol txt of (v, rest, erange) \<Rightarrow>
        if erange \<or> rest = txt \<or> rest \<noteq> [] \<or> v \<le> 0 \<or> v > INT_MAX then None else Some v)"

definition valid_username :: "string \<Rightarrow> bool" where
  "valid_username s \<longleftrightarrow> \<not> (length s = 0 \<or> length s \<ge> 32) \<and> list_all (\<lambda>c. isalnum c \<or> c = CHR ''_'') s"

definition valid_ingredient_name :: "string \<Rightarrow> bool" where
  "valid_ingredient_name s \<longleftrightarrow>
     \<not> (length s = 0 \<or> length s > 16) \<and> list_all (\<lambda>c. isupper c \<or> isdigit c \<or> c = CHR ''_'') s"

section \<open>Ingredients\<close>

text \<open>The loading loop over the lines of the file.\<close>

fun load_lines :: "string list \<Rightarrow> ingredient_t list \<Rightarrow> ingredient_t list" where
  "load_lines [] ings = ings"
| "load_lines (line # ls) ings =
     (if \<not> length ings < MAX_INGREDIENTS then ings
      else case sscanf [SStr 63, SSpace, SStr 63, SSpace, SStr 63] (c_str line) of
        [VStr name, VStr qty_text] \<Rightarrow>
          (if \<not> valid_ingredient_name name then load_lines ls ings
           else case parse_positive_int qty_text of
             None \<Rightarrow> load_lines ls ings
           | Some q \<Rightarrow> load_lines ls (ings @ [\<lparr>ing_name = take 16 name, qty = q\<rparr>]))
      | _ \<Rightarrow> load_lines ls ings)"

definition load_ingredients :: "string option \<Rightarrow> ingredient_t list option" where
  "load_ingredients file = (case file of None \<Rightarrow> None | Some txt \<Rightarrow> Some (load_lines (fgets_lines 256 txt) []))"

fun find_from :: "ingredient_t list \<Rightarrow> string \<Rightarrow> nat \<Rightarrow> int" where
  "find_from [] name i = - 1"
| "find_from (x # xs) name i = (if ing_name x = name then int i else find_from xs name (Suc i))"

definition find_ingredient :: "string \<Rightarrow> server \<Rightarrow> int" where
  "find_ingredient name s = find_from (ingredients s) name 0"

section \<open>Clients\<close>

definition active_client_count :: "server \<Rightarrow> int" where
  "active_client_count s = int (length (filter (\<lambda>c. fd c \<ge> 0) (clients s)))"

fun free_from :: "client_t list \<Rightarrow> nat \<Rightarrow> int" where
  "free_from [] i = - 1"
| "free_from (c # cs) i = (if fd c < 0 then int i else free_from cs (Suc i))"

definition find_free_slot :: "server \<Rightarrow> int" where
  "find_free_slot s = free_from (clients s) 0"

definition username_exists :: "string \<Rightarrow> server \<Rightarrow> bool" where
  "username_exists name s \<longleftrightarrow>
     list_ex (\<lambda>c. fd c \<ge> 0 \<and> username c \<noteq> [] \<and> username c = name) (clients s)"

definition empty_client :: client_t where
  "empty_client = \<lparr>fd = - 1, username = [], role = [], line_buf = [], discard_long_line = False,
                   last_active = 0, spellbook = []\<rparr>"

definition set_client :: "nat \<Rightarrow> client_t \<Rightarrow> server \<Rightarrow> server" where
  "set_client i c s = s\<lparr>clients := (clients s)[i := c]\<rparr>"

definition reset_client :: "nat \<Rightarrow> server \<Rightarrow> server" where
  "reset_client i s = set_client i empty_client s"

definition shown_name :: "client_t \<Rightarrow> string" where
  "shown_name c = (if username c = [] then ''unknown'' else fit 32 (username c))"

definition disconnect_client :: "nat \<Rightarrow> string \<Rightarrow> server \<Rightarrow> server" where
  "disconnect_client i reason s =
     (let c = clients s ! i in
      if fd c < 0 then s
      else reset_client i (log_event (''CLIENT_DISCONNECTED username='' @ shown_name c @ '' reason='' @ reason) s))"

section \<open>Commands\<close>

text \<open>A comma-separated list printed piece by piece with \<open>snprintf\<close> into a buffer of \<open>sz\<close> bytes:
  the piece that does not fit is cut and ends the loop. Also the number of pieces that fit.\<close>

fun snprintf_list :: "nat \<Rightarrow> bool \<Rightarrow> string list \<Rightarrow> string \<Rightarrow> nat \<Rightarrow> string \<times> nat" where
  "snprintf_list sz first [] out n = (out, n)"
| "snprintf_list sz first (x # xs) out n =
     (let piece = (if first then [] else '','') @ x in
      if length piece \<ge> sz - length out then (out @ take (sz - length out - 1) piece, n)
      else snprintf_list sz False xs (out @ piece) (Suc n))"

definition append_csv_ingredients :: "nat \<Rightarrow> bool \<Rightarrow> (string \<times> int) list \<Rightarrow> string" where
  "append_csv_ingredients out_sz only_nonzero values =
     fst (snprintf_list out_sz True
       (map (\<lambda>(n, q). n @ '':'' @ show_int q) (filter (\<lambda>(n, q). \<not> (only_nonzero \<and> q \<le> 0)) values)) [] 0)"

definition send_unknown :: "client_t \<Rightarrow> string \<Rightarrow> server \<Rightarrow> server" where
  "send_unknown c command s = send_line (fd c) (fit (MAX_LINE + 1) (''ERR UNKNOWN '' @ command)) s"

definition handle_enroll :: "nat \<Rightarrow> string list \<Rightarrow> server \<Rightarrow> server" where
  "handle_enroll i tokens s =
     (let c = clients s ! i in
      if length tokens \<noteq> 3 \<or> (tokens ! 1 \<noteq> ''WIZARD'' \<and> tokens ! 1 \<noteq> ''PROFESSOR'') \<or> \<not> valid_username (tokens ! 2)
      then send_line (fd c) ''ERR UNKNOWN ENROLL'' s
      else if username c \<noteq> [] \<or> username_exists (tokens ! 2) s
      then send_line (fd c) ''ERR ENROLL name_taken'' s
      else let c' = c\<lparr>username := fit 32 (tokens ! 2), role := fit 16 (tokens ! 1)\<rparr>;
               s1 = set_client i c' s;
               s2 = send_line (fd c) (fit (MAX_LINE + 1) (''OK ENROLL '' @ username c')) s1
           in log_event (''ENROLL username='' @ username c' @ '' type='' @ role c' @ '' fd='' @ show_int (fd c)) s2)"

text \<open>The message that logs a change of an ingredient.\<close>

definition change_event :: "string \<Rightarrow> client_t \<Rightarrow> string \<Rightarrow> int \<Rightarrow> int \<Rightarrow> int \<Rightarrow> string" where
  "change_event verb c name q old_qty new_qty =
     verb @ '' wizard='' @ username c @ '' ingredient='' @ name @ '' qty='' @ show_int q @
     '' old_qty='' @ show_int old_qty @ '' new_qty='' @ show_int new_qty"

definition handle_brew :: "nat \<Rightarrow> string list \<Rightarrow> server \<Rightarrow> server option" where
  "handle_brew i tokens s =
     (let c = clients s ! i in
      if role c \<noteq> ''WIZARD'' then Some (send_line (fd c) ''ERR UNAUTHORIZED'' s)
      else case (if length tokens \<noteq> 3 then None else parse_positive_int (tokens ! 2)) of
        None \<Rightarrow> Some (send_unknown c (tokens ! 0) s)
      | Some q \<Rightarrow>
          let idx = find_ingredient (tokens ! 1) s in
          if idx < 0 then Some (send_line (fd c) ''ERR UNKNOWN_INGREDIENT'' s)
          else let x = ingredients s ! nat idx; old_qty = qty x in
               case (int_add old_qty q, int_add (spellbook c ! nat idx) q) of
                 (Some new_qty, Some new_spell) \<Rightarrow>
                   let s1 = s\<lparr>ingredients := (ingredients s)[nat idx := x\<lparr>qty := new_qty\<rparr>]\<rparr>;
                       s2 = set_client i (c\<lparr>spellbook := (spellbook c)[nat idx := new_spell]\<rparr>) s1;
                       s3 = send_line (fd c) (fit (MAX_LINE + 1)
                              (''OK BREW '' @ ing_name x @ '' '' @ show_int q @ '' '' @ show_int new_qty)) s2
                   in Some (log_event (change_event ''BREW'' c (ing_name x) q old_qty new_qty) s3)
               | _ \<Rightarrow> None)"

definition handle_consume :: "nat \<Rightarrow> string list \<Rightarrow> server \<Rightarrow> server" where
  "handle_consume i tokens s =
     (let c = clients s ! i in
      if role c \<noteq> ''WIZARD'' then send_line (fd c) ''ERR UNAUTHORIZED'' s
      else case (if length tokens \<noteq> 3 then None else parse_positive_int (tokens ! 2)) of
        None \<Rightarrow> send_unknown c (tokens ! 0) s
      | Some q \<Rightarrow>
          let idx = find_ingredient (tokens ! 1) s in
          if idx < 0 then send_line (fd c) ''ERR UNKNOWN_INGREDIENT'' s
          else let x = ingredients s ! nat idx; old_qty = qty x in
               if old_qty < q \<or> spellbook c ! nat idx < q then send_line (fd c) ''ERR INSUFFICIENT_INGREDIENTS'' s
               else let new_qty = old_qty - q;
                        s1 = s\<lparr>ingredients := (ingredients s)[nat idx := x\<lparr>qty := new_qty\<rparr>]\<rparr>;
                        s2 = set_client i (c\<lparr>spellbook := (spellbook c)[nat idx := spellbook c ! nat idx - q]\<rparr>) s1;
                        s3 = send_line (fd c) (fit (MAX_LINE + 1)
                               (''OK CONSUME '' @ ing_name x @ '' '' @ show_int q @ '' '' @ show_int new_qty)) s2
                    in log_event (change_event ''CONSUME'' c (ing_name x) q old_qty new_qty) s3)"

definition handle_spellbook :: "nat \<Rightarrow> nat \<Rightarrow> server \<Rightarrow> server" where
  "handle_spellbook i ntokens s =
     (let c = clients s ! i in
      if role c \<noteq> ''WIZARD'' then send_line (fd c) ''ERR UNAUTHORIZED'' s
      else if ntokens \<noteq> 1 then send_unknown c ''SPELLBOOK'' s
      else let csv = append_csv_ingredients (MAX_LINE + 1) True (zip (map ing_name (ingredients s)) (spellbook c)) in
           if csv = [] then send_line (fd c) ''OK SPELLBOOK EMPTY'' s
           else send_line (fd c) (fit (MAX_LINE + 1) (''OK SPELLBOOK '' @ csv)) s)"

definition handle_inspect :: "nat \<Rightarrow> string list \<Rightarrow> server \<Rightarrow> server" where
  "handle_inspect i tokens s =
     (let c = clients s ! i in
      if role c \<noteq> ''PROFESSOR'' then send_line (fd c) ''ERR UNAUTHORIZED'' s
      else if length tokens \<noteq> 2 then send_unknown c (tokens ! 0) s
      else let idx = find_ingredient (tokens ! 1) s in
           if idx < 0 then send_line (fd c) ''ERR UNKNOWN_INGREDIENT'' s
           else let x = ingredients s ! nat idx in
                log_event (''INSPECT professor='' @ username c @ '' ingredient='' @ ing_name x @ '' qty='' @ show_int (qty x))
                  (send_line (fd c) (fit (MAX_LINE + 1) (''OK INSPECT '' @ ing_name x @ '' '' @ show_int (qty x))) s))"

definition handle_scroll :: "nat \<Rightarrow> nat \<Rightarrow> server \<Rightarrow> server" where
  "handle_scroll i ntokens s =
     (let c = clients s ! i in
      if role c \<noteq> ''PROFESSOR'' then send_line (fd c) ''ERR UNAUTHORIZED'' s
      else if ntokens \<noteq> 1 then send_unknown c ''SCROLL'' s
      else let csv = append_csv_ingredients (MAX_LINE + 1) False (map (\<lambda>x. (ing_name x, qty x)) (ingredients s)) in
           log_event (''SCROLL professor='' @ username c @ '' ingredients='' @ show_int (int (length (ingredients s))))
             (send_line (fd c) (fit (MAX_LINE + 1) (''OK SCROLL '' @ csv)) s))"

definition handle_roster :: "nat \<Rightarrow> nat \<Rightarrow> server \<Rightarrow> server" where
  "handle_roster i ntokens s =
     (let c = clients s ! i in
      if role c \<noteq> ''PROFESSOR'' then send_line (fd c) ''ERR UNAUTHORIZED'' s
      else if ntokens \<noteq> 1 then send_unknown c ''ROSTER'' s
      else case snprintf_list (MAX_LINE + 1) True
                  (map username (filter (\<lambda>c. fd c \<ge> 0 \<and> username c \<noteq> []) (clients s))) [] 0 of
        (roster, n) \<Rightarrow>
          log_event (''ROSTER professor='' @ username c @ '' clients='' @ show_int (int n))
            (send_line (fd c) (fit (MAX_LINE + 1) (''OK ROSTER '' @ roster)) s))"

text \<open>\<open>process_command\<close>: the flag says that the client was disconnected.\<close>

definition is_ws :: "char \<Rightarrow> bool" where
  "is_ws c \<longleftrightarrow> c = CHR '' '' \<or> c = tab \<or> c = carriage_return \<or> c = newline"

definition process_command :: "int \<Rightarrow> nat \<Rightarrow> string \<Rightarrow> server \<Rightarrow> (bool \<times> server) option" where
  "process_command now i line s0 =
     (let s = set_client i ((clients s0 ! i)\<lparr>last_active := now\<rparr>) s0;
          c = clients s ! i;
          tokens = take 8 (strtok is_ws (c_str line));
          n = length tokens
      in if n = 0 then Some (False, s)
         else if tokens ! 0 = ''ENROLL'' then Some (False, handle_enroll i tokens s)
         else if username c = [] then Some (False, send_line (fd c) ''ERR NOT_ENROLLED'' s)
         else if tokens ! 0 = ''APPARATE''
              then (if n \<noteq> 1 then Some (False, send_unknown c (tokens ! 0) s)
                    else Some (True, disconnect_client i ''APPARATE'' (send_line (fd c) ''OK APPARATE'' s)))
         else if tokens ! 0 = ''BREW'' then map_option (Pair False) (handle_brew i tokens s)
         else if tokens ! 0 = ''CONSUME'' then Some (False, handle_consume i tokens s)
         else if tokens ! 0 = ''SPELLBOOK'' then Some (False, handle_spellbook i n s)
         else if tokens ! 0 = ''INSPECT'' then Some (False, handle_inspect i tokens s)
         else if tokens ! 0 = ''SCROLL'' then Some (False, handle_scroll i n s)
         else if tokens ! 0 = ''ROSTER'' then Some (False, handle_roster i n s)
         else Some (False, send_unknown c (tokens ! 0) s))"

section \<open>Input\<close>

text \<open>The bytes of one \<open>recv\<close>; the flag says that the client was disconnected, the rest is ignored.\<close>

fun feed_client_data :: "int \<Rightarrow> nat \<Rightarrow> string \<Rightarrow> server \<Rightarrow> (bool \<times> server) option" where
  "feed_client_data now i [] s = Some (False, s)"
| "feed_client_data now i (ch # buf) s =
     (let c = clients s ! i in
      if discard_long_line c
      then (if ch = newline
            then feed_client_data now i buf (set_client i (c\<lparr>discard_long_line := False, line_buf := []\<rparr>) s)
            else feed_client_data now i buf s)
      else if ch = newline
      then (case process_command now i (line_buf c) (set_client i (c\<lparr>line_buf := []\<rparr>) s) of
              None \<Rightarrow> None
            | Some (gone, s') \<Rightarrow> if gone then Some (True, s') else feed_client_data now i buf s')
      else if length (line_buf c) \<ge> MAX_LINE
      then feed_client_data now i buf
             (set_client i (c\<lparr>discard_long_line := True, line_buf := []\<rparr>) (send_line (fd c) ''ERR TOOLONG'' s))
      else feed_client_data now i buf (set_client i (c\<lparr>line_buf := line_buf c @ [ch]\<rparr>) s))"

section \<open>Connections and timeouts\<close>

text \<open>\<open>accept_new_client\<close> with the new socket, the text of the peer address, the time and whether
  \<open>calloc\<close> succeeds.\<close>

definition accept_new_client :: "int \<Rightarrow> string \<Rightarrow> int \<Rightarrow> bool \<Rightarrow> server \<Rightarrow> server" where
  "accept_new_client newfd ip now alloc_ok s =
     (if newfd < 0 then s
      else let slot = find_free_slot s in
        if slot < 0
        then log_event (''REJECTED fd='' @ show_int newfd @ '' ip='' @ ip @ '' reason=HOGWARTS_FULL'')
               (send_line newfd ''ERR HOGWARTS_FULL'' s)
        else let s1 = set_client (nat slot) ((clients s ! nat slot)\<lparr>fd := newfd, last_active := now,
                         spellbook := replicate (length (ingredients s)) 0\<rparr>) s in
          if \<not> alloc_ok then reset_client (nat slot) (send_line newfd ''ERR SERVER'' s)
          else log_event (''CLIENT_CONNECTED fd='' @ show_int newfd @ '' ip='' @ ip) s1)"

definition expire_client :: "int \<Rightarrow> nat \<Rightarrow> server \<Rightarrow> server" where
  "expire_client now i s =
     (let c = clients s ! i; elapsed = now - last_active c in
      if fd c \<ge> 0 \<and> elapsed \<ge> timeout_seconds s
      then disconnect_client i ''timeout''
             (log_event (''TIMEOUT username='' @ shown_name c @ '' fd='' @ show_int (fd c) @ '' elapsed='' @ show_int elapsed @ ''s'')
               (send_line (fd c) ''TIMEOUT DISCONNECT'' s))
      else s)"

definition disconnect_expired_clients :: "int \<Rightarrow> server \<Rightarrow> server" where
  "disconnect_expired_clients now s = fold (expire_client now) [0..<length (clients s)] s"

fun min_remaining :: "int \<Rightarrow> int \<Rightarrow> client_t list \<Rightarrow> bool \<Rightarrow> int \<Rightarrow> bool \<times> int" where
  "min_remaining timeout now [] have_clients m = (have_clients, m)"
| "min_remaining timeout now (c # cs) have_clients m =
     (if fd c \<ge> 0
      then let r = timeout - (now - last_active c); remaining = (if r < 0 then 0 else r)
           in min_remaining timeout now cs True (if \<not> have_clients \<or> remaining < m then remaining else m)
      else min_remaining timeout now cs have_clients m)"

definition compute_select_timeout :: "int \<Rightarrow> server \<Rightarrow> int" where
  "compute_select_timeout now s =
     (case min_remaining (timeout_seconds s) now (clients s) False (timeout_seconds s) of
        (have_clients, m) \<Rightarrow> if have_clients then m else timeout_seconds s)"

definition shutdown_client :: "nat \<Rightarrow> server \<Rightarrow> server" where
  "shutdown_client i s =
     (let c = clients s ! i in
      if fd c \<ge> 0 then reset_client i (send_line (fd c) ''SERVER SHUTDOWN'' s) else s)"

definition shutdown_all_clients :: "server \<Rightarrow> server" where
  "shutdown_all_clients s = fold shutdown_client [0..<length (clients s)] s"

section \<open>The select loop\<close>

text \<open>What the system calls of one iteration return. The clock is read at the top of the loop and once more for
  the timeout of \<open>select\<close>. \<open>recv i\<close> is \<open>None\<close> when the socket of slot \<open>i\<close>
  is not readable.\<close>

datatype recv_result = Data string | Closed | Failed bool

record round =
  expire_time :: int
  select_time :: int
  ready :: bool
  accepted :: "(int \<times> string \<times> bool) option"
  work_time :: int
  recv :: "nat \<Rightarrow> recv_result option"

text \<open>The top of the loop: the state and the seconds that \<open>select\<close> may sleep.\<close>

definition loop_top :: "int \<Rightarrow> int \<Rightarrow> server \<Rightarrow> server \<times> int" where
  "loop_top now later s =
     (let s1 = disconnect_expired_clients now s in (s1, compute_select_timeout later s1))"

definition handle_ready :: "round \<Rightarrow> nat \<Rightarrow> server \<Rightarrow> server option" where
  "handle_ready rd i s =
     (if fd (clients s ! i) \<ge> 0
      then (case recv rd i of
              None \<Rightarrow> Some s
            | Some (Data buf) \<Rightarrow> map_option snd (feed_client_data (work_time rd) i (take 256 buf) s)
            | Some Closed \<Rightarrow> Some (disconnect_client i ''hangup'' s)
            | Some (Failed eintr) \<Rightarrow> Some (if eintr then s else disconnect_client i ''hangup'' s))
      else Some s)"

fun handle_all :: "round \<Rightarrow> nat list \<Rightarrow> server \<Rightarrow> server option" where
  "handle_all rd [] s = Some s"
| "handle_all rd (i # is) s = (case handle_ready rd i s of None \<Rightarrow> None | Some s' \<Rightarrow> handle_all rd is s')"

definition serve_round :: "round \<Rightarrow> server \<Rightarrow> server option" where
  "serve_round rd s =
     (let s1 = fst (loop_top (expire_time rd) (select_time rd) s) in
      if \<not> ready rd then Some s1
      else let s2 = (case accepted rd of None \<Rightarrow> s1 | Some (newfd, ip, ok) \<Rightarrow> accept_new_client newfd ip (work_time rd) ok s1)
           in handle_all rd [0..<length (clients s2)] s2)"

definition init_server :: "ingredient_t list \<Rightarrow> nat \<Rightarrow> int \<Rightarrow> server" where
  "init_server ings max_clients timeout =
     \<lparr>ingredients = ings, clients = replicate max_clients empty_client, timeout_seconds = timeout, sent = [], events = []\<rparr>"

text \<open>\<open>main\<close> from the loop on: the rounds until SIGINT, then the shutdown.\<close>

fun serve :: "round list \<Rightarrow> server \<Rightarrow> server option" where
  "serve [] s = Some s"
| "serve (rd # rds) s = (case serve_round rd s of None \<Rightarrow> None | Some s' \<Rightarrow> serve rds s')"

definition finish_server :: "server \<Rightarrow> server" where
  "finish_server s =
     (let s1 = shutdown_all_clients (log_event ''SHUTDOWN signal=SIGINT'' s)
      in log_event (''CLEANUP_DONE clients='' @ show_int (active_client_count s1)) s1)"

section \<open>Command line\<close>

record server_args =
  arg_port :: int
  ingredient_path :: "string option"
  log_path :: "string option"
  max_clients :: int
  arg_timeout :: int
  have_p :: bool
  have_n :: bool
  have_t :: bool

definition zero_args :: server_args where
  "zero_args = \<lparr>arg_port = 0, ingredient_path = None, log_path = None, max_clients = 0, arg_timeout = 0,
                have_p = False, have_n = False, have_t = False\<rparr>"

text \<open>One option of the \<open>getopt\<close> loop; a rejected number leaves the variable as it was.\<close>

definition server_opt :: "server_args \<Rightarrow> char \<Rightarrow> string \<Rightarrow> server_args option" where
  "server_opt a opt optarg =
     (let v = parse_positive_int optarg in
      if opt = CHR ''p'' then Some (a\<lparr>have_p := v \<noteq> None, arg_port := (case v of None \<Rightarrow> arg_port a | Some x \<Rightarrow> x)\<rparr>)
      else if opt = CHR ''s'' then Some (a\<lparr>ingredient_path := Some optarg\<rparr>)
      else if opt = CHR ''l'' then Some (a\<lparr>log_path := Some optarg\<rparr>)
      else if opt = CHR ''n'' then Some (a\<lparr>have_n := v \<noteq> None, max_clients := (case v of None \<Rightarrow> max_clients a | Some x \<Rightarrow> x)\<rparr>)
      else if opt = CHR ''t'' then Some (a\<lparr>have_t := v \<noteq> None, arg_timeout := (case v of None \<Rightarrow> arg_timeout a | Some x \<Rightarrow> x)\<rparr>)
      else None)"

fun server_opts :: "server_args \<Rightarrow> (char \<times> string) list \<Rightarrow> server_args option" where
  "server_opts a [] = Some a"
| "server_opts a ((opt, optarg) # os) = (case server_opt a opt optarg of None \<Rightarrow> None | Some a' \<Rightarrow> server_opts a' os)"

text \<open>The options that \<open>getopt\<close> returns and the number of arguments left behind \<open>optind\<close>.\<close>

definition server_parse_args :: "(char \<times> string) list \<Rightarrow> nat \<Rightarrow> server_args option" where
  "server_parse_args opts operands =
     (case server_opts zero_args opts of
        None \<Rightarrow> None
      | Some a \<Rightarrow>
          if \<not> have_p a \<or> ingredient_path a = None \<or> log_path a = None \<or> \<not> have_n a \<or> \<not> have_t a \<or>
             arg_port a < 1024 \<or> operands \<noteq> 0 then None
          else Some a)"

text \<open>The port that \<open>create_listener\<close> binds: the cast to \<open>uint16_t\<close> keeps 16 bits.\<close>

definition listener_port :: "int \<Rightarrow> int" where
  "listener_port port = port mod 65536"

section \<open>Sending\<close>

text \<open>\<open>send_all\<close> with the results of the \<open>send\<close> calls: \<open>Some n\<close> bytes taken, or \<open>None\<close> with \<open>EINTR\<close>,
  \<open>Some 0\<close> for any other failure. The result: whether everything was sent, and the bytes taken.\<close>

fun send_all :: "string \<Rightarrow> nat option list \<Rightarrow> (bool \<times> string) option" where
  "send_all [] rs = Some (True, [])"
| "send_all buf [] = None"
| "send_all buf (None # rs) = send_all buf rs"
| "send_all buf (Some n # rs) =
     (if n = 0 then Some (False, [])
      else map_option (\<lambda>(ok, out). (ok, take n buf @ out)) (send_all (drop n buf) rs))"

end
