(* ===== verification/Hogwarts_Proofs.thy ===== *)
theory Hogwarts_Proofs
  imports Hogwarts
begin

text \<open>
  What the Hogwarts server guarantees: an invariant of all reachable states (unique names, stock that
  never falls below what was loaded plus what the connected wizards hold), the framing of the byte
  stream into lines, the separation of roles and clients, the timeouts and the shutdown, and the
  integer overflow of \<open>BREW\<close>.
\<close>

named_theorems server_simps \<open>how the operations change the inventory and the clients\<close>

section \<open>The invariant\<close>

text \<open>What a connected client holds of ingredient \<open>k\<close>.\<close>

definition held :: "nat \<Rightarrow> client_t \<Rightarrow> int" where
  "held k c = (if fd c < 0 then 0 else spellbook c ! k)"

definition client_ok :: "nat \<Rightarrow> client_t \<Rightarrow> bool" where
  "client_ok n c \<longleftrightarrow>
     (if fd c < 0 then c = empty_client
      else length (spellbook c) = n \<and> list_all (\<lambda>q. 0 \<le> q) (spellbook c) \<and>
           length (line_buf c) \<le> MAX_LINE \<and>
           (if username c = [] then role c = [] else valid_username (username c) \<and> role c \<in> {''WIZARD'', ''PROFESSOR''}) \<and>
           (role c \<noteq> ''WIZARD'' \<longrightarrow> (\<forall>k<n. spellbook c ! k = 0)))"

definition names_unique :: "client_t list \<Rightarrow> bool" where
  "names_unique cs \<longleftrightarrow>
     (\<forall>i<length cs. \<forall>j<length cs. i \<noteq> j \<and> username (cs ! i) \<noteq> [] \<longrightarrow> username (cs ! i) \<noteq> username (cs ! j))"

definition stock_ok :: "ingredient_t list \<Rightarrow> ingredient_t list \<Rightarrow> client_t list \<Rightarrow> bool" where
  "stock_ok ings0 ings cs \<longleftrightarrow>
     map ing_name ings = map ing_name ings0 \<and>
     (\<forall>k<length ings0. qty (ings0 ! k) + sum_list (map (held k) cs) \<le> qty (ings ! k) \<and> qty (ings ! k) \<le> INT_MAX)"

definition srv_inv :: "ingredient_t list \<Rightarrow> server \<Rightarrow> bool" where
  "srv_inv ings0 s \<longleftrightarrow>
     list_all (client_ok (length ings0)) (clients s) \<and> names_unique (clients s) \<and>
     stock_ok ings0 (ingredients s) (clients s)"

section \<open>Frame facts\<close>

lemma c_str_id: "CHR 0x00 \<notin> set t \<Longrightarrow> c_str t = t"
  unfolding c_str_def takeWhile_eq_all_conv by blast

lemma fst_loop_top [simp]: "fst (loop_top now later s) = disconnect_expired_clients now s"
  by (simp add: loop_top_def Let_def)

lemma send_line_frame [server_simps, simp]:
  "ingredients (send_line f l s) = ingredients s" "clients (send_line f l s) = clients s"
  "timeout_seconds (send_line f l s) = timeout_seconds s"
  by (simp_all add: send_line_def)

lemma log_event_frame [server_simps, simp]:
  "ingredients (log_event m s) = ingredients s" "clients (log_event m s) = clients s"
  "timeout_seconds (log_event m s) = timeout_seconds s"
  by (simp_all add: log_event_def)

lemma set_client_frame [server_simps, simp]:
  "ingredients (set_client i c s) = ingredients s" "clients (set_client i c s) = (clients s)[i := c]"
  "timeout_seconds (set_client i c s) = timeout_seconds s"
  by (simp_all add: set_client_def)

lemma reset_client_frame [server_simps, simp]:
  "ingredients (reset_client i s) = ingredients s" "clients (reset_client i s) = (clients s)[i := empty_client]"
  "timeout_seconds (reset_client i s) = timeout_seconds s"
  by (simp_all add: reset_client_def)

lemma send_unknown_frame [server_simps, simp]:
  "ingredients (send_unknown c t s) = ingredients s" "clients (send_unknown c t s) = clients s"
  "timeout_seconds (send_unknown c t s) = timeout_seconds s"
  by (simp_all add: send_unknown_def)

lemma srv_inv_frame [simp]:
  "srv_inv ings0 (send_line f l s) = srv_inv ings0 s" "srv_inv ings0 (log_event m s) = srv_inv ings0 s"
  "srv_inv ings0 (send_unknown c t s) = srv_inv ings0 s"
  by (simp_all add: srv_inv_def)

lemma handle_read_only [server_simps, simp]:
  "ingredients (handle_spellbook i n s) = ingredients s" "clients (handle_spellbook i n s) = clients s"
  "ingredients (handle_inspect i ts s) = ingredients s" "clients (handle_inspect i ts s) = clients s"
  "ingredients (handle_scroll i n s) = ingredients s" "clients (handle_scroll i n s) = clients s"
  "ingredients (handle_roster i n s) = ingredients s" "clients (handle_roster i n s) = clients s"
  by (auto simp: handle_spellbook_def handle_inspect_def handle_scroll_def handle_roster_def Let_def split: prod.splits)

section \<open>Searches\<close>

lemma find_from_cases:
  "find_from xs name i = - 1 \<or> (\<exists>k<length xs. find_from xs name i = int (i + k) \<and> ing_name (xs ! k) = name)"
proof (induction xs arbitrary: i)
  case (Cons x xs)
  show ?case
  proof (cases "ing_name x = name")
    case False
    with Cons [of "Suc i"] show ?thesis by force
  qed auto
qed simp

lemma find_ingredient_found:
  assumes "\<not> find_ingredient name s < 0"
  shows "nat (find_ingredient name s) < length (ingredients s)"
    and "ing_name (ingredients s ! nat (find_ingredient name s)) = name"
  using find_from_cases [of "ingredients s" name 0] assms by (auto simp: find_ingredient_def)

lemma free_from_cases:
  "free_from cs i = - 1 \<and> list_all (\<lambda>c. 0 \<le> fd c) cs \<or>
   (\<exists>k<length cs. free_from cs i = int (i + k) \<and> fd (cs ! k) < 0)"
proof (induction cs arbitrary: i)
  case (Cons c cs)
  show ?case
  proof (cases "fd c < 0")
    case False
    with Cons [of "Suc i"] show ?thesis by force
  qed auto
qed simp

lemma find_free_slot_found:
  assumes "\<not> find_free_slot s < 0"
  shows "nat (find_free_slot s) < length (clients s)" and "fd (clients s ! nat (find_free_slot s)) < 0"
  using free_from_cases [of "clients s" 0] assms by (auto simp: find_free_slot_def)

lemma parse_positive_int_Some: "parse_positive_int t = Some q \<Longrightarrow> 0 < q \<and> q \<le> INT_MAX"
  by (auto simp: parse_positive_int_def split: if_splits prod.splits)

section \<open>Preservation\<close>

lemma client_ok_empty [simp]: "client_ok n empty_client" "fd empty_client = - 1" "username empty_client = []"
  by (simp_all add: client_ok_def empty_client_def)

lemma srv_invD:
  assumes "srv_inv ings0 s"
  shows "i < length (clients s) \<Longrightarrow> client_ok (length ings0) (clients s ! i)"
    and "length (ingredients s) = length ings0" and "names_unique (clients s)"
    and "stock_ok ings0 (ingredients s) (clients s)"
proof -
  show "length (ingredients s) = length ings0"
    using assms map_eq_imp_length_eq by (auto simp: srv_inv_def stock_ok_def)
qed (use assms in \<open>auto simp: srv_inv_def list_all_length\<close>)

lemma names_unique_update:
  assumes "names_unique cs"
    and "username c' = [] \<or> username c' = username (cs ! i) \<or> (\<forall>j<length cs. username (cs ! j) \<noteq> username c')"
  shows "names_unique (cs[i := c'])"
proof -
  have eq: "username (cs[i := c'] ! j) = (if j = i then username c' else username (cs ! j))" if "j < length cs" for j
    using that by (simp add: nth_list_update)
  show ?thesis
    unfolding names_unique_def length_list_update
  proof (intro allI impI, elim conjE)
    fix j l assume "j < length cs" "l < length cs" "j \<noteq> l" "username (cs[i := c'] ! j) \<noteq> []"
    then show "username (cs[i := c'] ! j) \<noteq> username (cs[i := c'] ! l)"
      using assms unfolding names_unique_def by (simp add: eq split: if_splits) metis+
  qed
qed

lemma stock_ok_update:
  assumes "stock_ok ings0 ings cs" "i < length cs" "\<forall>k<length ings0. held k c' \<le> held k (cs ! i)"
  shows "stock_ok ings0 ings (cs[i := c'])"
  using assms by (force simp: stock_ok_def sum_list_map_update)

lemma srv_inv_update:
  assumes "srv_inv ings0 s" "i < length (clients s)" "client_ok (length ings0) c'"
    and "username c' = [] \<or> username c' = username (clients s ! i) \<or> (\<forall>j<length (clients s). username (clients s ! j) \<noteq> username c')"
    and "\<forall>k<length ings0. held k c' \<le> held k (clients s ! i)"
  shows "srv_inv ings0 (set_client i c' s)"
  using assms by (simp add: srv_inv_def names_unique_update stock_ok_update list_all_update)

lemma srv_inv_reset:
  assumes "srv_inv ings0 s" "i < length (clients s)"
  shows "srv_inv ings0 (reset_client i s)"
proof -
  have "0 \<le> held k (clients s ! i)" if "k < length ings0" for k
    using srv_invD(1) [OF assms] that by (auto simp: held_def client_ok_def list_all_length)
  then show ?thesis using assms unfolding reset_client_def
    by (intro srv_inv_update) (auto simp: held_def)
qed

lemma disconnect_client_inv:
  "srv_inv ings0 s \<Longrightarrow> i < length (clients s) \<Longrightarrow> srv_inv ings0 (disconnect_client i r s)"
  by (simp add: disconnect_client_def Let_def srv_inv_reset)

lemma length_disconnect_client [server_simps, simp]: "length (clients (disconnect_client i r s)) = length (clients s)"
  by (simp add: disconnect_client_def Let_def)

text \<open>A change that touches neither name, role nor book of a client.\<close>

lemma srv_inv_session:
  assumes inv: "srv_inv ings0 s" and i: "i < length (clients s)"
    and same: "fd c' = fd (clients s ! i)" "username c' = username (clients s ! i)" "role c' = role (clients s ! i)"
      "spellbook c' = spellbook (clients s ! i)"
    and live: "0 \<le> fd (clients s ! i)" and len: "length (line_buf c') \<le> MAX_LINE"
  shows "srv_inv ings0 (set_client i c' s)"
proof (rule srv_inv_update [OF inv i])
  show "client_ok (length ings0) c'"
    using srv_invD(1) [OF inv i] same live len by (auto simp: client_ok_def)
qed (use same in \<open>auto simp: held_def\<close>)

lemma handle_enroll_inv:
  assumes inv: "srv_inv ings0 s" and i: "i < length (clients s)" and live: "0 \<le> fd (clients s ! i)"
  shows "srv_inv ings0 (handle_enroll i ts s)"
proof (cases "length ts \<noteq> 3 \<or> (ts ! 1 \<noteq> ''WIZARD'' \<and> ts ! 1 \<noteq> ''PROFESSOR'') \<or> \<not> valid_username (ts ! 2) \<or>
              username (clients s ! i) \<noteq> [] \<or> username_exists (ts ! 2) s")
  case True
  with inv show ?thesis by (auto simp: handle_enroll_def Let_def)
next
  case False
  let ?c = "clients s ! i"
  let ?c' = "?c\<lparr>username := fit 32 (ts ! 2), role := fit 16 (ts ! 1)\<rparr>"
  from False have ty: "ts ! 1 = ''WIZARD'' \<or> ts ! 1 = ''PROFESSOR''" and nm: "valid_username (ts ! 2)"
    and ne: "\<not> username_exists (ts ! 2) s" and un: "username ?c = []" by auto
  have fits: "fit 32 (ts ! 2) = ts ! 2" "fit 16 (ts ! 1) = ts ! 1" "ts ! 2 \<noteq> []"
    using nm ty by (auto simp: valid_username_def fit_def)
  have ok: "client_ok (length ings0) ?c" by (rule srv_invD(1) [OF inv i])
  then have zero: "\<forall>k<length ings0. spellbook ?c ! k = 0" using un live by (simp add: client_ok_def)
  have fresh: "username (clients s ! j) \<noteq> ts ! 2" if j: "j < length (clients s)" for j
  proof
    assume eq: "username (clients s ! j) = ts ! 2"
    with fits srv_invD(1) [OF inv j] have "0 \<le> fd (clients s ! j)"
      by (cases "fd (clients s ! j) < 0") (auto simp: client_ok_def empty_client_def)
    with eq fits j ne show False by (auto simp: username_exists_def list_ex_iff)
  qed
  have "srv_inv ings0 (set_client i ?c' s)"
  proof (rule srv_inv_update [OF inv i])
    show "client_ok (length ings0) ?c'"
      using ok live ty nm fits zero by (auto simp: client_ok_def)
  qed (use fresh fits in \<open>auto simp: held_def\<close>)
  with False show ?thesis by (auto simp: handle_enroll_def Let_def)
qed

text \<open>\<open>BREW\<close> and \<open>CONSUME\<close> move the same amount in the stock and in the book of the wizard.\<close>

lemma srv_inv_move:
  assumes inv: "srv_inv ings0 s" and i: "i < length (clients s)" and live: "0 \<le> fd (clients s ! i)"
    and k: "k < length (ingredients s)" and w: "role (clients s ! i) = ''WIZARD''"
    and b: "0 \<le> spellbook (clients s ! i) ! k + d" and m: "qty (ingredients s ! k) + d \<le> INT_MAX"
  shows "srv_inv ings0 (set_client i ((clients s ! i)\<lparr>spellbook := (spellbook (clients s ! i))[k := spellbook (clients s ! i) ! k + d]\<rparr>)
           (s\<lparr>ingredients := (ingredients s)[k := (ingredients s ! k)\<lparr>qty := qty (ingredients s ! k) + d\<rparr>]\<rparr>))"
    (is "srv_inv ings0 (set_client i ?c' ?s1)")
proof -
  let ?c = "clients s ! i"
  note len = srv_invD(2) [OF inv]
  have ok: "client_ok (length ings0) ?c" by (rule srv_invD(1) [OF inv i])
  have "client_ok (length ings0) ?c'"
    using ok w live b by (auto simp: client_ok_def list_all_update split: if_splits)
  moreover have "names_unique ((clients s)[i := ?c'])"
    using srv_invD(3) [OF inv] by (rule names_unique_update) simp
  moreover have "stock_ok ings0 (ingredients ?s1) ((clients s)[i := ?c'])"
  proof -
    have h: "held l ?c' = held l ?c + (if l = k then d else 0)" if "l < length ings0" for l
      using that ok live by (auto simp: held_def client_ok_def)
    have sl: "sum_list (map (held l) ((clients s)[i := ?c'])) = sum_list (map (held l) (clients s)) + (if l = k then d else 0)"
      if "l < length ings0" for l
      using h [OF that] i by (simp add: sum_list_map_update)
    have nm: "map ing_name (ingredients ?s1) = map ing_name (ingredients s)"
      using k by (simp add: map_update) (metis length_map list_update_id nth_map)
    show ?thesis
      using srv_invD(4) [OF inv] sl k len m nm unfolding stock_ok_def by (auto simp: nth_list_update)
  qed
  ultimately show ?thesis
    using inv i by (simp add: srv_inv_def list_all_update)
qed

lemma handle_brew_inv:
  assumes inv: "srv_inv ings0 s" and i: "i < length (clients s)" and live: "0 \<le> fd (clients s ! i)"
    and r: "handle_brew i ts s = Some s'"
  shows "srv_inv ings0 s'"
proof (cases "role (clients s ! i) \<noteq> ''WIZARD'' \<or> length ts \<noteq> 3 \<or> parse_positive_int (ts ! 2) = None \<or> find_ingredient (ts ! 1) s < 0")
  case True
  with r inv show ?thesis by (auto simp: handle_brew_def Let_def split: if_splits option.splits)
next
  case False
  then obtain q where q: "parse_positive_int (ts ! 2) = Some q" by auto
  let ?k = "nat (find_ingredient (ts ! 1) s)"
  have k: "?k < length (ingredients s)" using find_ingredient_found(1) False by blast
  have "0 \<le> spellbook (clients s ! i) ! ?k"
    using srv_invD(1) [OF inv i] live k srv_invD(2) [OF inv] by (simp add: client_ok_def list_all_length)
  then have "0 \<le> spellbook (clients s ! i) ! ?k + q" using parse_positive_int_Some [OF q] by simp
  with r False q srv_inv_move [OF inv i live k _ this] show ?thesis
    by (auto simp: handle_brew_def Let_def int_arith_Some in_int_def split: if_splits option.splits)
qed

lemma handle_consume_inv:
  assumes inv: "srv_inv ings0 s" and i: "i < length (clients s)" and live: "0 \<le> fd (clients s ! i)"
  shows "srv_inv ings0 (handle_consume i ts s)"
proof (cases "role (clients s ! i) \<noteq> ''WIZARD'' \<or> length ts \<noteq> 3 \<or> parse_positive_int (ts ! 2) = None \<or> find_ingredient (ts ! 1) s < 0")
  case True
  with inv show ?thesis by (auto simp: handle_consume_def Let_def split: if_splits option.splits)
next
  case False
  then obtain q where q: "parse_positive_int (ts ! 2) = Some q" by auto
  let ?k = "nat (find_ingredient (ts ! 1) s)"
  have k: "?k < length (ingredients s)" using find_ingredient_found(1) False by blast
  have "qty (ingredients s ! ?k) \<le> INT_MAX" using srv_invD(2,4) [OF inv] k by (simp add: stock_ok_def)
  then have m: "qty (ingredients s ! ?k) + - q \<le> INT_MAX" using parse_positive_int_Some [OF q] by simp
  show ?thesis
  proof (cases "spellbook (clients s ! i) ! ?k < q")
    case True
    with False q inv show ?thesis by (auto simp: handle_consume_def Let_def)
  next
    case enough: False
    with srv_inv_move [OF inv i live k _ _ m] False q inv show ?thesis
      by (auto simp: handle_consume_def Let_def)
  qed
qed

text \<open>A command changes at most name, role and book of its own client.\<close>

definition own_change :: "nat \<Rightarrow> server \<Rightarrow> server \<Rightarrow> bool" where
  "own_change i s s' \<longleftrightarrow> timeout_seconds s' = timeout_seconds s \<and>
     (\<exists>u r b. clients s' = (clients s)[i := (clients s ! i)\<lparr>username := u, role := r, spellbook := b\<rparr>])"

lemma own_change_same: "clients s' = clients s \<Longrightarrow> timeout_seconds s' = timeout_seconds s \<Longrightarrow> own_change i s s'"
  unfolding own_change_def
  by (intro conjI exI [of _ "username (clients s ! i)"] exI [of _ "role (clients s ! i)"] exI [of _ "spellbook (clients s ! i)"]) simp_all

lemma own_changeI:
  "clients s' = (clients s)[i := (clients s ! i)\<lparr>username := u, role := r, spellbook := b\<rparr>] \<Longrightarrow>
   timeout_seconds s' = timeout_seconds s \<Longrightarrow> own_change i s s'"
  by (auto simp: own_change_def)

lemma handle_timeout_frame [simp]:
  "timeout_seconds (handle_spellbook i n s) = timeout_seconds s" "timeout_seconds (handle_inspect i ts s) = timeout_seconds s"
  "timeout_seconds (handle_scroll i n s) = timeout_seconds s" "timeout_seconds (handle_roster i n s) = timeout_seconds s"
  by (auto simp: handle_spellbook_def handle_inspect_def handle_scroll_def handle_roster_def Let_def split: prod.splits)

lemma own_change_disj:
  assumes "clients s' = clients s \<or> (\<exists>u r b. clients s' = (clients s)[i := (clients s ! i)\<lparr>username := u, role := r, spellbook := b\<rparr>])"
    and "timeout_seconds s' = timeout_seconds s"
  shows "own_change i s s'"
  using assms by (auto intro: own_change_same own_changeI)

lemma book_change:
  "c\<lparr>spellbook := b\<rparr> = c\<lparr>username := username c, role := role c, spellbook := b\<rparr>"
  "c\<lparr>username := u, role := r\<rparr> = c\<lparr>username := u, role := r, spellbook := spellbook c\<rparr>" for c :: client_t
  by simp_all

lemma own_change_enroll: "own_change i s (handle_enroll i ts s)"
proof (rule own_change_disj)
  show "clients (handle_enroll i ts s) = clients s \<or> (\<exists>u r b. clients (handle_enroll i ts s) =
      (clients s)[i := (clients s ! i)\<lparr>username := u, role := r, spellbook := b\<rparr>])"
    unfolding handle_enroll_def Let_def by (simp split: if_split) (metis book_change(2))
qed (simp add: handle_enroll_def Let_def)

lemma own_change_brew:
  assumes "handle_brew i ts s = Some s'"
  shows "own_change i s s'"
proof (rule own_change_disj)
  show "clients s' = clients s \<or> (\<exists>u r b. clients s' = (clients s)[i := (clients s ! i)\<lparr>username := u, role := r, spellbook := b\<rparr>])"
    using assms unfolding handle_brew_def Let_def
    by (auto split: if_splits option.splits) (metis book_change(1))
qed (use assms in \<open>auto simp: handle_brew_def Let_def split: if_splits option.splits\<close>)

lemma own_change_consume: "own_change i s (handle_consume i ts s)"
proof (rule own_change_disj)
  show "clients (handle_consume i ts s) = clients s \<or> (\<exists>u r b. clients (handle_consume i ts s) =
      (clients s)[i := (clients s ! i)\<lparr>username := u, role := r, spellbook := b\<rparr>])"
    unfolding handle_consume_def Let_def
    by (simp split: if_split option.split) (metis book_change(1))
qed (simp add: handle_consume_def Let_def split: option.split)

lemmas own_change_handlers = own_change_enroll own_change_brew own_change_consume own_change_same

text \<open>The state in which \<open>process_command\<close> calls a handler, and its two outcomes.\<close>

abbreviation touched :: "int \<Rightarrow> nat \<Rightarrow> server \<Rightarrow> server" where
  "touched now i s \<equiv> set_client i ((clients s ! i)\<lparr>last_active := now\<rparr>) s"

lemma process_command_stays:
  assumes "process_command now i line s = Some (False, s')"
  shows "own_change i (touched now i s) s'"
  using assms unfolding process_command_def Let_def
  by (auto split: if_splits intro: own_change_handlers)

lemma process_command_leaves:
  assumes "process_command now i line s = Some (True, s')"
  shows "\<exists>f l. s' = disconnect_client i ''APPARATE'' (send_line f l (touched now i s))"
  using assms unfolding process_command_def Let_def
  by (auto split: if_splits)

lemma own_changeD:
  assumes "own_change i s s'"
  shows "length (clients s') = length (clients s)" "timeout_seconds s' = timeout_seconds s"
    "j \<noteq> i \<Longrightarrow> clients s' ! j = clients s ! j"
    "i < length (clients s) \<Longrightarrow> fd (clients s' ! i) = fd (clients s ! i) \<and> line_buf (clients s' ! i) = line_buf (clients s ! i) \<and>
       discard_long_line (clients s' ! i) = discard_long_line (clients s ! i) \<and> last_active (clients s' ! i) = last_active (clients s ! i)"
  using assms by (auto simp: own_change_def)

lemma touched_inv:
  assumes "srv_inv ings0 s" "i < length (clients s)" "0 \<le> fd (clients s ! i)"
  shows "srv_inv ings0 (touched now i s)"
proof -
  have "length (line_buf (clients s ! i)) \<le> MAX_LINE"
    using srv_invD(1) [OF assms(1,2)] assms(3) by (simp add: client_ok_def)
  with assms show ?thesis by (intro srv_inv_session) simp_all
qed

lemma process_command_inv:
  assumes inv: "srv_inv ings0 s" and i: "i < length (clients s)" and live: "0 \<le> fd (clients s ! i)"
    and r: "process_command now i line s = Some (gone, s')"
  shows "srv_inv ings0 s'"
proof -
  let ?s = "touched now i s"
  have t: "srv_inv ings0 ?s" "i < length (clients ?s)" "0 \<le> fd (clients ?s ! i)"
    using touched_inv [OF inv i live] i live by simp_all
  have ro: "srv_inv ings0 s1" if "ingredients s1 = ingredients ?s" "clients s1 = clients ?s" for s1
    using t(1) that by (simp add: srv_inv_def)
  show ?thesis
  proof (cases gone)
    case True
    then obtain f l where "s' = disconnect_client i ''APPARATE'' (send_line f l ?s)"
      using process_command_leaves [of now i line s s'] r by auto
    with t show ?thesis by (simp add: disconnect_client_inv)
  next
    case False
    have "s' \<in> {?s, handle_enroll i ts ?s, handle_consume i ts ?s} \<or> handle_brew i ts ?s = Some s' \<or>
          ingredients s' = ingredients ?s \<and> clients s' = clients ?s"
      if "ts = take 8 (strtok is_ws (c_str line))" for ts
      using r False unfolding process_command_def Let_def that [symmetric] by (auto split: if_splits)
    then show ?thesis
      using t handle_enroll_inv [OF t] handle_consume_inv [OF t] handle_brew_inv [OF t] ro by blast
  qed
qed

lemma length_process_command:
  "process_command now i line s = Some (gone, s') \<Longrightarrow> length (clients s') = length (clients s) \<and> timeout_seconds s' = timeout_seconds s"
  using process_command_stays [of now i line s s'] process_command_leaves [of now i line s s']
    own_changeD(1,2) [of i "touched now i s" s']
  by (cases gone) (auto simp: disconnect_client_def Let_def)

lemma process_command_live:
  assumes "process_command now i line s = Some (False, s')" "i < length (clients s)"
  shows "fd (clients s' ! i) = fd (clients s ! i)" "line_buf (clients s' ! i) = line_buf (clients s ! i)"
    "discard_long_line (clients s' ! i) = discard_long_line (clients s ! i)" "last_active (clients s' ! i) = now"
  using own_changeD(4) [OF process_command_stays [OF assms(1)]] assms(2) by simp_all

lemma feed_client_data_inv:
  assumes "srv_inv ings0 s" "i < length (clients s)" "0 \<le> fd (clients s ! i)"
    and "feed_client_data now i buf s = Some (gone, s')"
  shows "srv_inv ings0 s' \<and> length (clients s') = length (clients s)"
  using assms
proof (induction buf arbitrary: s)
  case (Cons ch buf)
  let ?c = "clients s ! i"
  have ok: "client_ok (length ings0) ?c" by (rule srv_invD(1) [OF Cons.prems(1,2)])
  have upd: "srv_inv ings0 (set_client i c' s)"
    if "fd c' = fd ?c" "username c' = username ?c" "role c' = role ?c" "spellbook c' = spellbook ?c" "length (line_buf c') \<le> MAX_LINE" for c'
    using srv_inv_session [OF Cons.prems(1,2)] that Cons.prems(3) by blast
  have upd': "srv_inv ings0 (set_client i c' (send_line f l s))"
    if "fd c' = fd ?c" "username c' = username ?c" "role c' = role ?c" "spellbook c' = spellbook ?c" "length (line_buf c') \<le> MAX_LINE" for c' f l
    using upd [OF that] by (simp add: srv_inv_def)
  consider "discard_long_line ?c" | "\<not> discard_long_line ?c" "ch = newline"
    | "\<not> discard_long_line ?c" "ch \<noteq> newline" by blast
  then show ?case
  proof cases
    case 1
    with Cons.prems upd Cons.IH [of "set_client i (?c\<lparr>discard_long_line := False, line_buf := []\<rparr>) s"] Cons.IH [of s]
    show ?thesis by (auto split: if_splits)
  next
    case 2
    let ?s1 = "set_client i (?c\<lparr>line_buf := []\<rparr>) s"
    have s1: "srv_inv ings0 ?s1" "i < length (clients ?s1)" "0 \<le> fd (clients ?s1 ! i)"
      using upd Cons.prems by simp_all
    from 2 Cons.prems(4) obtain g s2 where p: "process_command now i (line_buf ?c) ?s1 = Some (g, s2)"
      and rest: "if g then s' = s2 else feed_client_data now i buf s2 = Some (gone, s')"
      by (auto simp: Let_def split: option.splits if_splits)
    note s2 = process_command_inv [OF s1 p] length_process_command [OF p]
    show ?thesis
    proof (cases g)
      case True
      with rest s2 show ?thesis by simp
    next
      case False
      with p have "0 \<le> fd (clients s2 ! i)" using process_command_live(1) s1 by simp
      with False rest s2 s1 Cons.IH [of s2] show ?thesis by simp
    qed
  next
    case 3
    with Cons.prems upd upd' Cons.IH [of "set_client i (?c\<lparr>line_buf := line_buf ?c @ [ch]\<rparr>) s"]
      Cons.IH [of "set_client i (?c\<lparr>discard_long_line := True, line_buf := []\<rparr>) (send_line (fd ?c) ''ERR TOOLONG'' s)"]
    show ?thesis by (auto simp: Let_def split: if_splits)
  qed
qed simp

lemma accept_new_client_inv:
  assumes inv: "srv_inv ings0 s"
  shows "srv_inv ings0 (accept_new_client newfd ip now ok s)"
proof (cases "newfd < 0 \<or> find_free_slot s < 0")
  case True
  with inv show ?thesis by (auto simp: accept_new_client_def Let_def)
next
  case False
  let ?i = "nat (find_free_slot s)"
  have i: "?i < length (clients s)" and free: "fd (clients s ! ?i) < 0" using find_free_slot_found False by blast+
  have e: "clients s ! ?i = empty_client" using srv_invD(1) [OF inv i] free by (simp add: client_ok_def)
  let ?c = "empty_client\<lparr>fd := newfd, last_active := now, spellbook := replicate (length (ingredients s)) 0\<rparr>"
  have "srv_inv ings0 (set_client ?i ?c s)"
  proof (rule srv_inv_update [OF inv i])
    show "client_ok (length ings0) ?c"
      using False srv_invD(2) [OF inv] by (simp add: client_ok_def empty_client_def list_all_length)
    show "\<forall>k<length ings0. held k ?c \<le> held k (clients s ! ?i)"
      using srv_invD(2) [OF inv] by (simp add: held_def e)
  qed simp
  then show ?thesis using False inv i by (auto simp: accept_new_client_def Let_def e srv_inv_reset)
qed

lemma length_accept_new_client [simp]: "length (clients (accept_new_client f ip now ok s)) = length (clients s)"
  by (simp add: accept_new_client_def Let_def)

section \<open>Loops over the slots\<close>

text \<open>A loop that rewrites slot after slot with \<open>g\<close>.\<close>

lemma fold_slots:
  assumes step: "\<And>i s. P s \<Longrightarrow> i < length (clients s) \<Longrightarrow> clients (f i s) = (clients s)[i := g (clients s ! i)] \<and> P (f i s)"
    and "P s" "n \<le> length (clients s)"
  shows "clients (fold f [0..<n] s) = map g (take n (clients s)) @ drop n (clients s) \<and> P (fold f [0..<n] s)"
  using assms(3)
proof (induction n)
  case 0
  then show ?case using \<open>P s\<close> by simp
next
  case (Suc n)
  let ?t = "fold f [0..<n] s"
  from Suc have cl: "clients ?t = map g (take n (clients s)) @ drop n (clients s)" and p: "P ?t" by auto
  then have n: "n < length (clients ?t)" and c: "clients ?t ! n = clients s ! n" using Suc.prems by (auto simp: nth_append)
  have "clients (f n ?t) = (clients ?t)[n := g (clients s ! n)]" using step [OF p n] c by simp
  also have "\<dots> = map g (take (Suc n) (clients s)) @ drop (Suc n) (clients s)"
    using Suc.prems by (simp add: cl list_update_append take_Suc_conv_app_nth Cons_nth_drop_Suc [symmetric])
  finally show ?case using step [OF p n] by simp
qed

definition expired :: "int \<Rightarrow> int \<Rightarrow> client_t \<Rightarrow> bool" where
  "expired timeout now c \<longleftrightarrow> 0 \<le> fd c \<and> timeout \<le> now - last_active c"

lemma expire_client_slot:
  assumes "i < length (clients s)"
  shows "clients (expire_client now i s) = (clients s)[i := if expired (timeout_seconds s) now (clients s ! i) then empty_client else clients s ! i]"
    and "timeout_seconds (expire_client now i s) = timeout_seconds s" and "ingredients (expire_client now i s) = ingredients s"
  using assms by (auto simp: expire_client_def disconnect_client_def Let_def expired_def)

lemma disconnect_expired_slots:
  "clients (disconnect_expired_clients now s) =
     map (\<lambda>c. if expired (timeout_seconds s) now c then empty_client else c) (clients s)"
  "ingredients (disconnect_expired_clients now s) = ingredients s"
  "timeout_seconds (disconnect_expired_clients now s) = timeout_seconds s"
  using fold_slots [where f = "expire_client now" and s = s and n = "length (clients s)"
      and g = "\<lambda>c. if expired (timeout_seconds s) now c then empty_client else c"
      and P = "\<lambda>t. timeout_seconds t = timeout_seconds s \<and> ingredients t = ingredients s"]
  by (auto simp: disconnect_expired_clients_def expire_client_slot)

lemma shutdown_all_slots:
  "list_all (client_ok n) (clients s) \<Longrightarrow> clients (shutdown_all_clients s) = map (\<lambda>_. empty_client) (clients s)"
proof -
  assume ok: "list_all (client_ok n) (clients s)"
  have "clients (shutdown_all_clients s) = map (\<lambda>c. if 0 \<le> fd c then empty_client else c) (clients s)"
    using fold_slots [where f = shutdown_client and s = s and n = "length (clients s)" and P = "\<lambda>_. True"
        and g = "\<lambda>c. if 0 \<le> fd c then empty_client else c"]
    by (auto simp: shutdown_all_clients_def shutdown_client_def Let_def)
  moreover have "(if 0 \<le> fd c then empty_client else c) = empty_client" if "c \<in> set (clients s)" for c
    using ok that by (auto simp: list_all_iff client_ok_def)
  ultimately show ?thesis by (auto intro: map_cong)
qed

lemma expire_clients_inv:
  assumes "srv_inv ings0 s" "n \<le> length (clients s)"
  shows "srv_inv ings0 (fold (expire_client now) [0..<n] s) \<and> length (clients (fold (expire_client now) [0..<n] s)) = length (clients s)"
  using assms(2)
proof (induction n)
  case (Suc n)
  then show ?case
    by (auto simp: expire_client_def Let_def disconnect_client_inv)
qed (simp add: assms)

lemma disconnect_expired_inv: "srv_inv ings0 s \<Longrightarrow> srv_inv ings0 (disconnect_expired_clients now s)"
  unfolding disconnect_expired_clients_def by (simp add: expire_clients_inv)

lemma handle_all_inv:
  "handle_all rd is s = Some s' \<Longrightarrow> srv_inv ings0 s \<Longrightarrow> \<forall>i\<in>set is. i < length (clients s) \<Longrightarrow> srv_inv ings0 s'"
proof (induction "is" arbitrary: s)
  case (Cons i "is")
  from Cons.prems(1) obtain s1 where h: "handle_ready rd i s = Some s1" and r: "handle_all rd is s1 = Some s'"
    by (auto split: option.splits)
  have i: "i < length (clients s)" using Cons.prems(3) by simp
  have "srv_inv ings0 s1 \<and> length (clients s1) = length (clients s)"
    using h Cons.prems(2) i feed_client_data_inv [OF Cons.prems(2) i]
    by (auto simp: handle_ready_def disconnect_client_inv split: if_splits option.splits recv_result.splits)
  with r Cons show ?case by auto
qed simp

lemma serve_round_inv: "srv_inv ings0 s \<Longrightarrow> serve_round rd s = Some s' \<Longrightarrow> srv_inv ings0 s'"
  unfolding serve_round_def Let_def
  by (auto simp: disconnect_expired_inv accept_new_client_inv elim!: handle_all_inv split: if_splits option.splits)

lemma serve_inv: "serve rds s = Some s' \<Longrightarrow> srv_inv ings0 s \<Longrightarrow> srv_inv ings0 s'"
  by (induction rds arbitrary: s) (auto split: option.splits dest: serve_round_inv)

lemma init_server_inv: "list_all (\<lambda>x. qty x \<le> INT_MAX) ings \<Longrightarrow> srv_inv ings (init_server ings n t)"
proof -
  have "sum_list (map (held k) (replicate n empty_client)) = 0" for k by (induction n) (auto simp: held_def)
  then show "list_all (\<lambda>x. qty x \<le> INT_MAX) ings \<Longrightarrow> srv_inv ings (init_server ings n t)"
    by (auto simp: srv_inv_def init_server_def list_all_length names_unique_def stock_ok_def)
qed

lemma load_lines_qty: "list_all (\<lambda>x. 0 < qty x \<and> qty x \<le> INT_MAX) acc \<Longrightarrow> list_all (\<lambda>x. 0 < qty x \<and> qty x \<le> INT_MAX) (load_lines ls acc)"
proof (induction ls arbitrary: acc)
  case (Cons l ls)
  show ?case
    using Cons.prems by (auto split: list.split scan_val.split option.split intro!: Cons.IH dest: parse_positive_int_Some)
qed simp

lemma load_ingredients_qty: "load_ingredients file = Some ings \<Longrightarrow> list_all (\<lambda>x. 0 < qty x \<and> qty x \<le> INT_MAX) ings"
  by (auto simp: load_ingredients_def load_lines_qty split: option.splits)

section \<open>Framing\<close>

text \<open>The reference: a list of lines, each of which is a command or too long.\<close>

fun run_lines :: "int \<Rightarrow> nat \<Rightarrow> string list \<Rightarrow> server \<Rightarrow> (bool \<times> server) option" where
  "run_lines now i [] s = Some (False, s)"
| "run_lines now i (l # ls) s =
     (if length l > MAX_LINE then run_lines now i ls (send_line (fd (clients s ! i)) ''ERR TOOLONG'' s)
      else case process_command now i l s of
        None \<Rightarrow> None
      | Some (gone, s') \<Rightarrow> if gone then Some (True, s') else run_lines now i ls s')"

text \<open>The pieces in which successive \<open>recv\<close> calls deliver the stream.\<close>

fun feed_chunks :: "int \<Rightarrow> nat \<Rightarrow> string list \<Rightarrow> server \<Rightarrow> (bool \<times> server) option" where
  "feed_chunks now i [] s = Some (False, s)"
| "feed_chunks now i (b # bs) s =
     (case feed_client_data now i b s of
        None \<Rightarrow> None
      | Some (gone, s') \<Rightarrow> if gone then Some (True, s') else feed_chunks now i bs s')"

definition clean :: "nat \<Rightarrow> server \<Rightarrow> bool" where
  "clean i s \<longleftrightarrow> i < length (clients s) \<and> line_buf (clients s ! i) = [] \<and> \<not> discard_long_line (clients s ! i)"

lemma feed_append:
  "feed_client_data now i (b1 @ b2) s =
     (case feed_client_data now i b1 s of
        None \<Rightarrow> None
      | Some (gone, s') \<Rightarrow> if gone then Some (True, s') else feed_client_data now i b2 s')"
proof (induction b1 arbitrary: s)
  case (Cons ch b1)
  show ?case
    by (cases "process_command now i (line_buf (clients s ! i)) (set_client i ((clients s ! i)\<lparr>line_buf := []\<rparr>) s)")
      (auto simp: Cons Let_def)
qed simp

lemma feed_chunks_concat: "feed_chunks now i bs s = feed_client_data now i (concat bs) s"
  by (induction bs arbitrary: s) (auto simp: feed_append split: option.split)

lemma set_client_twice [simp]: "set_client i c' (set_client i c s) = set_client i c' s"
  by (simp add: set_client_def)

lemma set_client_same [simp]: "set_client i (clients s ! i) s = s"
  by (simp add: set_client_def)

lemma send_line_set_client: "send_line f l (set_client i c s) = set_client i c (send_line f l s)"
  by (simp add: send_line_def set_client_def)

lemma feed_buffers:
  assumes "newline \<notin> set l" "i < length (clients s)" "\<not> discard_long_line (clients s ! i)"
    "length (line_buf (clients s ! i)) + length l \<le> MAX_LINE"
  shows "feed_client_data now i (l @ rest) s =
    feed_client_data now i rest (set_client i ((clients s ! i)\<lparr>line_buf := line_buf (clients s ! i) @ l\<rparr>) s)"
  using assms by (induction l arbitrary: s) (auto simp: Let_def)

lemma feed_discards:
  assumes "newline \<notin> set l" "i < length (clients s)" "discard_long_line (clients s ! i)"
  shows "feed_client_data now i (l @ newline # rest) s =
    feed_client_data now i rest (set_client i ((clients s ! i)\<lparr>discard_long_line := False, line_buf := []\<rparr>) s)"
  using assms by (induction l) (auto simp: Let_def)

lemma clean_reset:
  assumes "clean i s"
  shows "set_client i ((clients s ! i)\<lparr>line_buf := []\<rparr>) s = s"
    and "set_client i ((clients s ! i)\<lparr>discard_long_line := False, line_buf := []\<rparr>) s = s"
proof -
  have "(clients s ! i)\<lparr>line_buf := []\<rparr> = clients s ! i"
    "(clients s ! i)\<lparr>discard_long_line := False, line_buf := []\<rparr> = clients s ! i"
    using assms by (simp_all add: clean_def)
  then show "set_client i ((clients s ! i)\<lparr>line_buf := []\<rparr>) s = s"
    and "set_client i ((clients s ! i)\<lparr>discard_long_line := False, line_buf := []\<rparr>) s = s"
    by (metis set_client_same)+
qed

lemma clean_send_line [simp]: "clean i (send_line f l s) = clean i s"
  by (simp add: clean_def)

lemma feed_short_line:
  assumes "newline \<notin> set l" "clean i s" "length l \<le> MAX_LINE"
  shows "feed_client_data now i (l @ newline # rest) s =
     (case process_command now i l s of
        None \<Rightarrow> None
      | Some (gone, s') \<Rightarrow> if gone then Some (True, s') else feed_client_data now i rest s')"
proof -
  have "feed_client_data now i (l @ newline # rest) s =
      feed_client_data now i (newline # rest) (set_client i ((clients s ! i)\<lparr>line_buf := l\<rparr>) s)"
    using assms by (subst feed_buffers) (simp_all add: clean_def del: feed_client_data.simps)
  then show ?thesis
    using assms(2) clean_reset(1) [OF assms(2)] by (simp add: clean_def Let_def )
qed

lemma feed_long_line:
  assumes l: "newline \<notin> set l" and c: "clean i s" and len: "length l > MAX_LINE"
  shows "feed_client_data now i (l @ newline # rest) s =
     feed_client_data now i rest (send_line (fd (clients s ! i)) ''ERR TOOLONG'' s)"
proof -
  let ?c = "clients s ! i"
  obtain l1 x l2 where sp: "l = l1 @ x # l2" and l1: "length l1 = MAX_LINE"
    using len id_take_nth_drop [OF len] by (metis length_take min.absorb4)
  let ?s1 = "set_client i (?c\<lparr>line_buf := l1\<rparr>) s"
  have "feed_client_data now i (l @ newline # rest) s = feed_client_data now i (x # l2 @ newline # rest) ?s1"
    using l c l1 unfolding sp by (simp add: feed_buffers clean_def del: feed_client_data.simps)
  also have "\<dots> = feed_client_data now i (l2 @ newline # rest)
      (set_client i (?c\<lparr>discard_long_line := True, line_buf := []\<rparr>) (send_line (fd ?c) ''ERR TOOLONG'' s))"
    using l c l1 by (auto simp: sp clean_def send_line_set_client Let_def)
  also have "\<dots> = feed_client_data now i rest (send_line (fd ?c) ''ERR TOOLONG'' s)"
    using l c clean_reset(2) [of i "send_line (fd ?c) ''ERR TOOLONG'' s"]
    by (subst feed_discards) (simp_all add: sp clean_def)
  finally show ?thesis .
qed

lemma clean_process:
  assumes "clean i s" "process_command now i l s = Some (False, s')"
  shows "clean i s'"
  using assms process_command_live [OF assms(2)] length_process_command [OF assms(2)] by (simp add: clean_def)

lemma feed_lines:
  "clean i s \<Longrightarrow> \<forall>l\<in>set ls. newline \<notin> set l \<Longrightarrow>
   feed_client_data now i (concat (map (\<lambda>l. l @ [newline]) ls)) s = run_lines now i ls s"
proof (induction ls arbitrary: s)
  case (Cons l ls)
  show ?case
  proof (cases "length l > MAX_LINE")
    case True
    with Cons feed_long_line [of l i s] show ?thesis by (simp add: clean_def)
  next
    case False
    with Cons feed_short_line [of l i s] show ?thesis
      by (auto split: option.split intro: clean_process)
  qed
qed simp

section \<open>Properties\<close>

lemma serve_started_inv:
  "load_ingredients file = Some ings \<Longrightarrow> serve rds (init_server ings n t) = Some s \<Longrightarrow> srv_inv ings s"
  using load_ingredients_qty [of _ ings] serve_inv init_server_inv [of ings n t] unfolding list_all_iff by blast

lemma held_le_sum:
  assumes "\<forall>c\<in>set cs. 0 \<le> held k c" "c \<in> set cs"
  shows "held k c \<le> sum_list (map (held k) cs)"
  using assms by (intro member_le_sum_list) auto

text \<open>(C22) Names are unique: whatever the clients send and however the rounds of the select loop
  go, no two connected clients share an enrolled name, an enrolled name is a valid one, and its role is
  wizard or professor.\<close>

theorem usernames_unique:
  assumes "load_ingredients file = Some ings" "serve rds (init_server ings n t) = Some s"
    and "i < length (clients s)" "0 \<le> fd (clients s ! i)" "username (clients s ! i) \<noteq> []"
  shows "valid_username (username (clients s ! i)) \<and> role (clients s ! i) \<in> {''WIZARD'', ''PROFESSOR''} \<and>
    (\<forall>j<length (clients s). j \<noteq> i \<longrightarrow> username (clients s ! j) \<noteq> username (clients s ! i))"
proof -
  note inv = serve_started_inv [OF assms(1,2)]
  have "valid_username (username (clients s ! i)) \<and> role (clients s ! i) \<in> {''WIZARD'', ''PROFESSOR''}"
    using srv_invD(1) [OF inv assms(3)] assms(4,5) by (simp add: client_ok_def)
  moreover have "username (clients s ! j) \<noteq> username (clients s ! i)" if "j < length (clients s)" "j \<noteq> i" for j
    using srv_invD(3) [OF inv] assms(3,5) that unfolding names_unique_def by metis
  ultimately show ?thesis by blast
qed

text \<open>(C21) The stock: in every state of a run the quantity of an ingredient is at least what was
  loaded plus what all connected wizards hold of it, no book is negative and no quantity above
  \<open>INT_MAX\<close>. So \<open>CONSUME\<close> takes back only what was brewed, and a wizard whose book covers a request is
  never refused for lack of stock.\<close>

theorem stock_covers_books:
  assumes "load_ingredients file = Some ings" "serve rds (init_server ings n t) = Some s" "k < length ings"
  shows "ing_name (ingredients s ! k) = ing_name (ings ! k) \<and>
    qty (ings ! k) + (\<Sum>c\<leftarrow>filter (\<lambda>c. 0 \<le> fd c) (clients s). spellbook c ! k) \<le> qty (ingredients s ! k) \<and>
    qty (ingredients s ! k) \<le> INT_MAX \<and>
    list_all (\<lambda>c. 0 \<le> fd c \<longrightarrow> 0 \<le> spellbook c ! k \<and> spellbook c ! k \<le> qty (ingredients s ! k)) (clients s)"
proof -
  note inv = serve_started_inv [OF assms(1,2)]
  have st: "qty (ings ! k) + sum_list (map (held k) (clients s)) \<le> qty (ingredients s ! k)" "qty (ingredients s ! k) \<le> INT_MAX"
    and nm: "map ing_name (ingredients s) = map ing_name ings"
    using srv_invD(4) [OF inv] assms(3) by (auto simp: stock_ok_def)
  have sum: "sum_list (map (held k) cs) = (\<Sum>c\<leftarrow>filter (\<lambda>c. 0 \<le> fd c) cs. spellbook c ! k)" for cs
    by (induction cs) (auto simp: held_def)
  have pos: "\<forall>c\<in>set (clients s). 0 \<le> held k c"
  proof
    fix c assume "c \<in> set (clients s)"
    with inv have "client_ok (length ings) c" by (simp add: srv_inv_def list_all_iff)
    with assms(3) show "0 \<le> held k c" by (auto simp: client_ok_def held_def list_all_length)
  qed
  have "0 < qty (ings ! k)" using load_ingredients_qty [OF assms(1)] assms(3) by (simp add: list_all_length)
  then have le: "held k c \<le> qty (ingredients s ! k)" if "c \<in> set (clients s)" for c
    using held_le_sum [OF pos that] st(1) by linarith
  have "list_all (\<lambda>c. 0 \<le> fd c \<longrightarrow> 0 \<le> spellbook c ! k \<and> spellbook c ! k \<le> qty (ingredients s ! k)) (clients s)"
    using pos le unfolding list_all_iff held_def by (metis linorder_not_le)
  moreover have "ing_name (ingredients s ! k) = ing_name (ings ! k)"
    using nm assms(3) srv_invD(2) [OF inv] by (metis nth_map)
  ultimately show ?thesis using st by (simp add: sum)
qed

text \<open>(C23) Framing: however TCP cuts the stream of a client into pieces, the server behaves as if it
  received the lines one by one: each line of at most 512 bytes is one command, each longer line is
  answered once with \<open>ERR TOOLONG\<close> and otherwise ignored, and nothing after \<open>APPARATE\<close> is read.\<close>

theorem stream_is_lines:
  assumes "clean i s" "\<forall>l\<in>set ls. newline \<notin> set l" "concat chunks = concat (map (\<lambda>l. l @ [newline]) ls)"
  shows "feed_chunks now i chunks s = run_lines now i ls s"
  using assms by (simp add: feed_chunks_concat feed_lines)

text \<open>(C24) Isolation of clients and roles: a command changes no other client, and only a
  \<open>BREW\<close> or \<open>CONSUME\<close> of an enrolled wizard changes the stock.\<close>

theorem commands_are_confined:
  assumes "process_command now i line s = Some (gone, s')" "i < length (clients s)"
  shows "(\<forall>j. j \<noteq> i \<longrightarrow> clients s' ! j = clients s ! j) \<and>
    (ingredients s' \<noteq> ingredients s \<longrightarrow>
       role (clients s ! i) = ''WIZARD'' \<and> username (clients s ! i) \<noteq> [] \<and>
       (\<exists>name q. take 8 (strtok is_ws (c_str line)) \<in> {[''BREW'', name, q], [''CONSUME'', name, q]} \<and>
          find_ingredient name s \<ge> 0 \<and> parse_positive_int q \<noteq> None))"
proof -
  have "clients s' ! j = clients s ! j" if "j \<noteq> i" for j
  proof (cases gone)
    case True
    with process_command_leaves [of now i line s s'] assms that show ?thesis
      by (auto simp: disconnect_client_def Let_def)
  next
    case False
    with own_changeD(3) [OF process_command_stays, of now i line s s' j] assms that show ?thesis by simp
  qed
  moreover have "role (clients s ! i) = ''WIZARD'' \<and> username (clients s ! i) \<noteq> [] \<and>
       (\<exists>name q. take 8 (strtok is_ws (c_str line)) \<in> {[''BREW'', name, q], [''CONSUME'', name, q]} \<and>
          find_ingredient name s \<ge> 0 \<and> parse_positive_int q \<noteq> None)"
    if ch: "ingredients s' \<noteq> ingredients s"
  proof -
    define ts where "ts = take 8 (strtok is_ws (c_str line))"
    let ?s = "touched now i s"
    have "username (clients ?s ! i) \<noteq> [] \<and> ((ts ! 0 = ''BREW'' \<and> handle_brew i ts ?s = Some s') \<or> (ts ! 0 = ''CONSUME'' \<and> s' = handle_consume i ts ?s))"
      using assms(1) ch unfolding process_command_def Let_def ts_def [symmetric]
      by (auto simp: handle_enroll_def disconnect_client_def Let_def split: if_splits)
    moreover have "role (clients ?s ! i) = ''WIZARD'' \<and> length ts = 3 \<and> parse_positive_int (ts ! 2) \<noteq> None \<and> \<not> find_ingredient (ts ! 1) ?s < 0"
      using calculation ch by (auto simp: handle_brew_def handle_consume_def Let_def split: if_splits option.splits)
    moreover have "find_ingredient (ts ! 1) ?s = find_ingredient (ts ! 1) s" by (simp add: find_ingredient_def)
    moreover have "length ts = 3 \<Longrightarrow> ts = [ts ! 0, ts ! 1, ts ! 2]"
      by (auto simp: numeral_3_eq_3 length_Suc_conv)
    moreover have "username (clients ?s ! i) = username (clients s ! i)" "role (clients ?s ! i) = role (clients s ! i)"
      using assms(2) by simp_all
    ultimately show ?thesis unfolding ts_def [symmetric]
      by (metis (no_types, lifting) insertCI linorder_not_less)
  qed
  ultimately show ?thesis by blast
qed

lemma min_remaining_spec:
  assumes "rs = map (\<lambda>c. max 0 (T - (now - last_active c))) (filter (\<lambda>c. 0 \<le> fd c) cs)"
  shows "min_remaining T now cs h m = (h \<or> rs \<noteq> [], if rs = [] then m else if h then min m (Min (set rs)) else Min (set rs))"
  using assms
proof (induction cs arbitrary: h m rs)
  case (Cons c cs)
  show ?case
  proof (cases "0 \<le> fd c")
    case True
    define rs' where "rs' = map (\<lambda>c. max 0 (T - (now - last_active c))) (filter (\<lambda>c. 0 \<le> fd c) cs)"
    define r where "r = max 0 (T - (now - last_active c))"
    have rs: "rs = r # rs'" using Cons.prems True by (simp add: rs'_def r_def)
    have "min_remaining T now (c # cs) h m = min_remaining T now cs True (if h then min m r else r)"
      using True by (simp add: Let_def r_def max_def min_def not_le)
    also have "\<dots> = (True, if rs' = [] then (if h then min m r else r) else min (if h then min m r else r) (Min (set rs')))"
      using Cons.IH [OF rs'_def, of True] by simp
    finally show ?thesis by (cases "rs' = []") (simp_all add: rs min.assoc)
  next
    case False
    with Cons show ?thesis by simp
  qed
qed simp

text \<open>(C25) Timeouts: after the check at the top of the loop, the slots of exactly the clients that
  were idle for the timeout or longer are free and every other slot is untouched. The time that \<open>select\<close> may then
  sleep is computed from a second reading of the clock: it is the least time any connected client has left, zero
  for one whose time has just run out, or the whole timeout when nobody is connected; so it never exceeds what a
  connected client has left, is never negative, and is zero only when a connected client has expired between the
  two readings.\<close>

theorem idle_clients_expire:
  assumes "0 < timeout_seconds s" and "loop_top now later s = (s', tv)"
  shows "clients s' = map (\<lambda>c. if 0 \<le> fd c \<and> timeout_seconds s \<le> now - last_active c then empty_client else c) (clients s) \<and>
     ingredients s' = ingredients s \<and>
     (let left = map (\<lambda>c. max 0 (timeout_seconds s - (later - last_active c))) (filter (\<lambda>c. 0 \<le> fd c) (clients s'))
      in tv = (if left = [] then timeout_seconds s else Min (set left))) \<and>
     0 \<le> tv \<and>
     (tv = 0 \<longleftrightarrow> list_ex (\<lambda>c. 0 \<le> fd c \<and> timeout_seconds s \<le> later - last_active c) (clients s')) \<and>
     (later = now \<longrightarrow> 0 < tv)"
proof -
  let ?live = "filter (\<lambda>c. 0 \<le> fd c) (clients s')"
  define left where "left = map (\<lambda>c. max 0 (timeout_seconds s - (later - last_active c))) ?live"
  have s': "s' = disconnect_expired_clients now s" and tv: "tv = compute_select_timeout later s'"
    using assms(2) by (auto simp: loop_top_def Let_def)
  note slots = disconnect_expired_slots [of now s, folded s']
  have t: "tv = (if left = [] then timeout_seconds s else Min (set left))"
    unfolding tv compute_select_timeout_def slots(3)
    by (subst min_remaining_spec [where rs = left]) (simp_all add: left_def)
  have nonneg: "0 \<le> tv" unfolding t
  proof (cases "left = []")
    case False
    then have "Min (set left) \<in> set left" by simp
    then show "0 \<le> (if left = [] then timeout_seconds s else Min (set left))" using False by (auto simp: left_def)
  qed (use assms(1) in simp)
  have zero: "tv = 0 \<longleftrightarrow> 0 \<in> set left"
  proof (cases "left = []")
    case False
    then have "tv = Min (set left)" "Min (set left) \<in> set left" by (simp_all add: t)
    moreover have "Min (set left) = 0" if "0 \<in> set left"
    proof -
      have "0 \<le> Min (set left)" using nonneg False by (simp only: t if_False)
      then show ?thesis using Min_le [OF finite_set that] by (rule order_antisym [rotated])
    qed
    ultimately show ?thesis by auto
  qed (use assms(1) t in simp)
  also have "\<dots> \<longleftrightarrow> list_ex (\<lambda>c. 0 \<le> fd c \<and> timeout_seconds s \<le> later - last_active c) (clients s')"
  proof -
    have "0 \<in> set left \<longleftrightarrow> (\<exists>c\<in>set (clients s'). 0 \<le> fd c \<and> max 0 (timeout_seconds s - (later - last_active c)) = 0)"
      by (force simp: left_def)
    moreover have "max 0 x = 0 \<longleftrightarrow> x \<le> 0" for x :: int by auto
    ultimately show ?thesis by (simp add: list_ex_iff)
  qed
  finally have z: "tv = 0 \<longleftrightarrow> list_ex (\<lambda>c. 0 \<le> fd c \<and> timeout_seconds s \<le> later - last_active c) (clients s')" .
  have "tv \<noteq> 0" if "later = now"
    unfolding z that slots(1) by (auto simp: list_ex_iff expired_def)
  with t nonneg z slots show ?thesis by (simp add: Let_def expired_def left_def order_less_le)
qed

text \<open>Shutdown: after SIGINT every client of a running server is disconnected, the log ends with
  \<open>CLEANUP_DONE clients=0\<close> and the stock is what it was.\<close>

theorem shutdown_disconnects_all:
  assumes "load_ingredients file = Some ings" "serve rds (init_server ings n t) = Some s"
  shows "active_client_count (finish_server s) = 0 \<and>
    clients (finish_server s) = replicate (length (clients s)) empty_client \<and>
    last (events (finish_server s)) = ''CLEANUP_DONE clients=0''"
proof -
  let ?s = "log_event ''SHUTDOWN signal=SIGINT'' s"
  have "list_all (client_ok (length ings)) (clients ?s)"
    using serve_started_inv [OF assms] by (simp add: srv_inv_def)
  then have c: "clients (shutdown_all_clients ?s) = replicate (length (clients s)) empty_client"
    using shutdown_all_slots [of "length ings" ?s] by (simp add: map_replicate_const)
  have "show_int 0 = ''0''" by code_simp
  then show ?thesis
    by (simp add: finish_server_def Let_def c active_client_count_def)
      (simp add: log_event_def fit_def)
qed

section \<open>Witnesses and counterexamples\<close>

definition one_round :: "string \<Rightarrow> round" where
  "one_round bytes = \<lparr>expire_time = 0, select_time = 0, ready = True, accepted = Some (5, ''127.0.0.1'', True), work_time = 0,
                      recv = (\<lambda>i. if i = 0 then Some (Data bytes) else None)\<rparr>"

definition wizard_script :: string where
  "wizard_script = ''ENROLL WIZARD Ron'' @ [newline] @ ''BREW MINT 3'' @ [newline]"

lemma one_round_eval:
  "load_ingredients (Some (''MINT 7'' @ [newline])) = Some [\<lparr>ing_name = ''MINT'', qty = 7\<rparr>]"
  "map_option (\<lambda>s. (ingredients s, clients s)) (serve [one_round wizard_script] (init_server [\<lparr>ing_name = ''MINT'', qty = 7\<rparr>] 1 60)) =
     Some ([\<lparr>ing_name = ''MINT'', qty = 10\<rparr>],
       [\<lparr>fd = 5, username = ''Ron'', role = ''WIZARD'', line_buf = [], discard_long_line = False, last_active = 0, spellbook = [3]\<rparr>])"
  by code_simp+

lemma one_round_state:
  obtains s where "serve [one_round wizard_script] (init_server [\<lparr>ing_name = ''MINT'', qty = 7\<rparr>] 1 60) = Some s"
    "ingredients s = [\<lparr>ing_name = ''MINT'', qty = 10\<rparr>]"
    "clients s = [\<lparr>fd = 5, username = ''Ron'', role = ''WIZARD'', line_buf = [], discard_long_line = False, last_active = 0, spellbook = [3]\<rparr>]"
  using one_round_eval(2) by (auto simp: map_option_case split: option.splits)

theorem usernames_unique_witness:
  "\<exists>s. serve [one_round wizard_script] (init_server [\<lparr>ing_name = ''MINT'', qty = 7\<rparr>] 1 60) = Some s \<and> valid_username (username (clients s ! 0))"
proof -
  obtain s where s: "serve [one_round wizard_script] (init_server [\<lparr>ing_name = ''MINT'', qty = 7\<rparr>] 1 60) = Some s"
    "clients s = [\<lparr>fd = 5, username = ''Ron'', role = ''WIZARD'', line_buf = [], discard_long_line = False, last_active = 0, spellbook = [3]\<rparr>]"
    by (rule one_round_state)
  with usernames_unique [OF one_round_eval(1) s(1), of 0] show ?thesis by simp
qed

theorem stock_covers_books_witness:
  "\<exists>s. serve [one_round wizard_script] (init_server [\<lparr>ing_name = ''MINT'', qty = 7\<rparr>] 1 60) = Some s \<and>
       qty (ingredients s ! 0) = 10 \<and> 7 + 3 \<le> qty (ingredients s ! 0)"
proof -
  obtain s where s: "serve [one_round wizard_script] (init_server [\<lparr>ing_name = ''MINT'', qty = 7\<rparr>] 1 60) = Some s"
    "ingredients s = [\<lparr>ing_name = ''MINT'', qty = 10\<rparr>]"
    "clients s = [\<lparr>fd = 5, username = ''Ron'', role = ''WIZARD'', line_buf = [], discard_long_line = False, last_active = 0, spellbook = [3]\<rparr>]"
    by (rule one_round_state)
  with stock_covers_books [OF one_round_eval(1) s(1), of 0] show ?thesis by simp
qed

theorem stream_is_lines_witness:
  "let s = accept_new_client 5 ''127.0.0.1'' 0 True (init_server [\<lparr>ing_name = ''MINT'', qty = 7\<rparr>] 1 60)
   in feed_chunks 0 0 [''ENR'', ''OLL WIZARD Ron'' @ [newline] @ ''SPELL'', ''BOOK'' @ [newline]] s =
      run_lines 0 0 [''ENROLL WIZARD Ron'', ''SPELLBOOK''] s"
proof -
  have "clean 0 (accept_new_client 5 ''127.0.0.1'' 0 True (init_server [\<lparr>ing_name = ''MINT'', qty = 7\<rparr>] 1 60))"
    by code_simp
  then show ?thesis unfolding Let_def by (rule stream_is_lines) simp_all
qed

text \<open>Ron brews while a second client is connected: the stock changes, the other slot does not.\<close>

definition duel :: "server option" where
  "duel = serve [one_round wizard_script, (one_round [])\<lparr>accepted := Some (6, ''127.0.0.1'', True), recv := (\<lambda>_. None)\<rparr>]
            (init_server [\<lparr>ing_name = ''MINT'', qty = 7\<rparr>] 2 60)"

theorem commands_are_confined_witness:
  "\<exists>s s'. duel = Some s \<and> process_command 1 0 ''BREW MINT 5'' s = Some (False, s') \<and> map qty (ingredients s) = [10] \<and>
     map qty (ingredients s') = [15] \<and> clients s' ! 1 = clients s ! 1 \<and> fd (clients s ! 1) = 6 \<and>
     role (clients s ! 0) = ''WIZARD''"
proof -
  have "case duel of None \<Rightarrow> False | Some s \<Rightarrow> map fd (clients s) = [5, 6] \<and> map qty (ingredients s) = [10] \<and>
      map_option (\<lambda>(gone, s'). (gone, map qty (ingredients s'))) (process_command 1 0 ''BREW MINT 5'' s) = Some (False, [15])"
    by code_simp
  then obtain s s' where s: "duel = Some s" "map fd (clients s) = [5, 6]" "map qty (ingredients s) = [10]"
      "process_command 1 0 ''BREW MINT 5'' s = Some (False, s')" "map qty (ingredients s') = [15]"
    by (auto split: option.splits)
  have len: "length (clients s) = 2" using arg_cong [OF s(2), of length] by simp
  have "fd (clients s ! 1) = 6" using arg_cong [OF s(2), of "\<lambda>xs. xs ! 1"] len by simp
  moreover have "ingredients s' \<noteq> ingredients s" using s(3,5) by auto
  ultimately show ?thesis using commands_are_confined [OF s(4)] s len by auto
qed

text \<open>Two connected clients, one idle since 0 and one since 40, with a timeout of 60 seconds: at 70 the first
  is gone; the second has 30 seconds left, or none when the clock has gone on to 100 in between.\<close>

definition two_clients :: server where
  "two_clients = accept_new_client 6 ''127.0.0.1'' 40 True (accept_new_client 5 ''127.0.0.1'' 0 True (init_server [] 2 60))"

theorem idle_clients_expire_witness:
  "map fd (clients (fst (loop_top 70 70 two_clients))) = [- 1, 6] \<and> snd (loop_top 70 70 two_clients) = 30 \<and>
   snd (loop_top 70 100 two_clients) = 0 \<and>
   list_ex (\<lambda>c. 0 \<le> fd c \<and> 60 \<le> 100 - last_active c) (clients (fst (loop_top 70 100 two_clients)))"
proof -
  have "map fd (clients (fst (loop_top 70 70 two_clients))) = [- 1, 6]" "snd (loop_top 70 70 two_clients) = 30"
    "snd (loop_top 70 100 two_clients) = 0" "timeout_seconds two_clients = 60"
    by code_simp+
  moreover from this(3,4) idle_clients_expire [of two_clients 70 100, OF _ prod.collapse [symmetric]]
  have "list_ex (\<lambda>c. 0 \<le> fd c \<and> 60 \<le> 100 - last_active c) (clients (fst (loop_top 70 100 two_clients)))"
    by (simp del: fst_loop_top)
  ultimately show ?thesis by blast
qed

theorem shutdown_disconnects_all_witness:
  "\<exists>s. serve [one_round wizard_script] (init_server [\<lparr>ing_name = ''MINT'', qty = 7\<rparr>] 1 60) = Some s \<and>
       active_client_count s = 1 \<and> active_client_count (finish_server s) = 0"
proof -
  obtain s where s: "serve [one_round wizard_script] (init_server [\<lparr>ing_name = ''MINT'', qty = 7\<rparr>] 1 60) = Some s"
    "clients s = [\<lparr>fd = 5, username = ''Ron'', role = ''WIZARD'', line_buf = [], discard_long_line = False, last_active = 0, spellbook = [3]\<rparr>]"
    by (rule one_round_state)
  then have "active_client_count s = 1" by (simp add: active_client_count_def)
  with s shutdown_disconnects_all [OF one_round_eval(1) s(1)] show ?thesis by simp
qed

lemma load_lines_names:
  "list_all (\<lambda>x. valid_ingredient_name (ing_name x)) acc \<Longrightarrow>
     list_all (\<lambda>x. valid_ingredient_name (ing_name x)) (load_lines ls acc)"
proof (induction ls arbitrary: acc)
  case (Cons l ls)
  have "take 16 n = n" if "valid_ingredient_name n" for n using that by (simp add: valid_ingredient_name_def)
  then show ?case using Cons.prems by (auto split: list.split scan_val.split option.split intro!: Cons.IH)
qed simp

lemma load_ingredients_names:
  "load_ingredients file = Some ings \<Longrightarrow> list_all (\<lambda>x. valid_ingredient_name (ing_name x)) ings"
  by (auto simp: load_ingredients_def load_lines_names split: option.splits)

text \<open>A name that the loader accepts and a printed number come back as tokens of a command.\<close>

lemma valid_ingredient_chars:
  "valid_ingredient_name name \<Longrightarrow> name \<noteq> [] \<and> (\<forall>c\<in>set name. \<not> is_ws c \<and> c \<noteq> CHR 0x00)"
  by (auto simp: valid_ingredient_name_def list_all_iff is_ws_def isupper_def isdigit_def)

lemma show_int_chars: "\<forall>c\<in>set (show_int v). \<not> is_ws c \<and> c \<noteq> CHR 0x00"
proof
  fix c assume c: "c \<in> set (show_int v)"
  then have "isdigit c \<or> c = CHR ''-''" using show_nat_digits by (auto simp: show_int_def split: if_splits)
  then have "c \<noteq> CHR 0x00" by (auto simp: isdigit_def)
  moreover have "\<not> isspace c" using c show_int_not_space by blast
  ultimately show "\<not> is_ws c \<and> c \<noteq> CHR 0x00" by (auto simp: is_ws_def isspace_def)
qed

lemma brew_tokens:
  assumes "valid_ingredient_name name"
  shows "take 8 (strtok is_ws (c_str (''BREW '' @ name @ '' '' @ show_int q))) = [''BREW'', name, show_int q]"
proof -
  note n = valid_ingredient_chars [OF assms]
  have "c_str (''BREW '' @ name @ '' '' @ show_int q) = ''BREW'' @ CHR '' '' # name @ CHR '' '' # show_int q"
    using n show_int_chars [of q] by (subst c_str_id) auto
  moreover have "strtok is_ws (''BREW'' @ CHR '' '' # r) = ''BREW'' # strtok is_ws r" for r
    by (subst strtok_token) (simp_all add: is_ws_def strtok_sep)
  moreover have "strtok is_ws (name @ CHR '' '' # r) = name # strtok is_ws r" for r
    using n by (subst strtok_token) (auto simp: is_ws_def strtok_sep)
  moreover have "strtok is_ws (show_int q) = [show_int q]"
    using strtok_token [of "show_int q" is_ws "[]"] show_int_chars [of q] by simp
  ultimately show ?thesis by simp
qed

lemma parse_positive_show_int: "0 < q \<Longrightarrow> q \<le> INT_MAX \<Longrightarrow> parse_positive_int (show_int q) = Some q"
  using strtol_show_int [of q "[]"] not_sym [OF show_int_nonempty [of q]] by (simp add: parse_positive_int_def in_long_def LONG_MIN_def LONG_MAX_def INT_MAX_def)

text \<open>A \<open>BREW\<close> of an enrolled wizard for a known ingredient: both sums are computed, or none.\<close>

lemma process_brew:
  assumes "i < length (clients s)" and "username (clients s ! i) \<noteq> []" and "role (clients s ! i) = ''WIZARD''"
    and "valid_ingredient_name name" and "find_ingredient name s = int k" and "0 < q" and "q \<le> INT_MAX"
  shows "process_command now i (''BREW '' @ name @ '' '' @ show_int q) s =
     map_option (Pair False) (handle_brew i [''BREW'', name, show_int q] (touched now i s))"
  using assms brew_tokens [OF assms(4), of q] by (simp add: process_command_def Let_def)

lemma handle_brew_sums:
  assumes "i < length (clients s)" and "role (clients s ! i) = ''WIZARD''" and "parse_positive_int num = Some q"
    and "find_ingredient name s = int k"
  shows "handle_brew i [verb, name, num] s = None \<longleftrightarrow> \<not> (in_int (qty (ingredients s ! k) + q) \<and> in_int (spellbook (clients s ! i) ! k + q))"
    "handle_brew i [verb, name, num] s = Some s' \<Longrightarrow>
       ingredients s' = (ingredients s)[k := (ingredients s ! k)\<lparr>qty := qty (ingredients s ! k) + q\<rparr>] \<and>
       spellbook (clients s' ! i) = (spellbook (clients s ! i))[k := spellbook (clients s ! i) ! k + q]"
  using assms by (auto simp: handle_brew_def Let_def int_add_def split: if_splits)

lemma held_le_stock:
  assumes "srv_inv ings0 s" and "k < length ings0" and "0 \<le> qty (ings0 ! k)" and "i < length (clients s)" and "0 \<le> fd (clients s ! i)"
  shows "0 \<le> spellbook (clients s ! i) ! k" "spellbook (clients s ! i) ! k \<le> qty (ingredients s ! k)"
proof -
  have ok: "client_ok (length ings0) c" if "c \<in> set (clients s)" for c
    using that assms(1) by (simp add: srv_inv_def list_all_iff)
  have pos: "\<forall>c\<in>set (clients s). 0 \<le> held k c"
  proof
    fix c assume "c \<in> set (clients s)"
    then show "0 \<le> held k c" using ok [of c] assms(2) by (auto simp: client_ok_def held_def list_all_length)
  qed
  have c: "held k (clients s ! i) = spellbook (clients s ! i) ! k" using assms(5) by (simp add: held_def)
  show "0 \<le> spellbook (clients s ! i) ! k" using pos nth_mem [OF assms(4)] unfolding c [symmetric] by blast
  show "spellbook (clients s ! i) ! k \<le> qty (ingredients s ! k)"
    using held_le_sum [OF pos, of "clients s ! i"] srv_invD(4) [OF assms(1)] assms(2-4) c by (fastforce simp: stock_ok_def)
qed

text \<open>(C26) \<open>BREW\<close> adds its quantity to the stock and to the spellbook of the wizard with no upper limit: in every
  state that a server reaches, the \<open>BREW\<close> of an enrolled wizard for a known ingredient makes the addition to
  the stock overflow, which is undefined in C, exactly when stock and quantity together exceed \<open>INT_MAX\<close>, and
  otherwise both sums are exact. Since the stock is positive, the largest accepted quantity always overflows.\<close>

theorem brew_overflows:
  assumes "load_ingredients file = Some ings" "serve rds (init_server ings n t) = Some s"
    and "i < length (clients s)" "0 \<le> fd (clients s ! i)" "username (clients s ! i) \<noteq> []" "role (clients s ! i) = ''WIZARD''"
    and "find_ingredient name s = int k" "0 < q" "q \<le> INT_MAX"
  shows "(case process_command now i (''BREW '' @ name @ '' '' @ show_int q) s of
        None \<Rightarrow> INT_MAX < qty (ingredients s ! k) + q
      | Some (gone, s') \<Rightarrow> \<not> gone \<and> qty (ingredients s ! k) + q \<le> INT_MAX \<and>
          ingredients s' = (ingredients s)[k := (ingredients s ! k)\<lparr>qty := qty (ingredients s ! k) + q\<rparr>] \<and>
          spellbook (clients s' ! i) = (spellbook (clients s ! i))[k := spellbook (clients s ! i) ! k + q]) \<and>
     process_command now i (''BREW '' @ name @ '' '' @ show_int INT_MAX) s = None"
proof -
  note inv = serve_started_inv [OF assms(1,2)]
  have k: "k < length ings" "ing_name (ingredients s ! k) = name"
    using find_from_cases [of "ingredients s" name 0] assms(7) srv_invD(2) [OF inv] by (auto simp: find_ingredient_def)
  have "map ing_name (ingredients s) = map ing_name ings" using srv_invD(4) [OF inv] by (simp add: stock_ok_def)
  then have "ing_name (ings ! k) = name" using k srv_invD(2) [OF inv] by (metis nth_map)
  then have valid: "valid_ingredient_name name"
    using load_ingredients_names [OF assms(1)] k(1) by (auto simp: list_all_length)
  have q0: "0 < qty (ings ! k)" using load_ingredients_qty [OF assms(1)] k(1) by (simp add: list_all_length)
  note held = held_le_stock [OF inv k(1) less_imp_le [OF q0] assms(3,4)]
  have stock: "0 < qty (ingredients s ! k)"
  proof -
    have "qty (ings ! k) + sum_list (map (held k) (clients s)) \<le> qty (ingredients s ! k)"
      using srv_invD(4) [OF inv] k(1) by (simp add: stock_ok_def)
    moreover have "0 \<le> sum_list (map (held k) (clients s))"
    proof (rule sum_list_nonneg)
      fix x assume "x \<in> set (map (held k) (clients s))"
      then show "0 \<le> x" using inv k(1) by (auto simp: srv_inv_def list_all_iff client_ok_def held_def list_all_length split: if_splits)
    qed
    ultimately show ?thesis using q0 by linarith
  qed
  have sums: "in_int (qty (ingredients s ! k) + p) \<and> in_int (spellbook (clients s ! i) ! k + p) \<longleftrightarrow>
      \<not> INT_MAX < qty (ingredients s ! k) + p" if "0 < p" "p \<le> INT_MAX" for p
    using held stock that unfolding in_int_def INT_MIN_def by linarith
  have brew: "handle_brew i [''BREW'', name, show_int p] (touched now i s) = None \<longleftrightarrow> INT_MAX < qty (ingredients s ! k) + p"
    "handle_brew i [''BREW'', name, show_int p] (touched now i s) = Some s' \<Longrightarrow>
       ingredients s' = (ingredients s)[k := (ingredients s ! k)\<lparr>qty := qty (ingredients s ! k) + p\<rparr>] \<and>
       spellbook (clients s' ! i) = (spellbook (clients s ! i))[k := spellbook (clients s ! i) ! k + p]"
    if p: "0 < p" "p \<le> INT_MAX" for p s'
  proof -
    let ?s = "touched now i s"
    have pre: "i < length (clients ?s)" "role (clients ?s ! i) = ''WIZARD''" "find_ingredient name ?s = int k"
      and same: "ingredients ?s = ingredients s" "spellbook (clients ?s ! i) = spellbook (clients s ! i)"
      using assms(3,6,7) by (simp_all add: find_ingredient_def)
    note b = handle_brew_sums [OF pre(1,2) parse_positive_show_int [OF p] pre(3), of "''BREW''", unfolded same]
    show "handle_brew i [''BREW'', name, show_int p] ?s = None \<longleftrightarrow> INT_MAX < qty (ingredients s ! k) + p"
      unfolding b(1) sums [OF p] by simp
    show "ingredients s' = (ingredients s)[k := (ingredients s ! k)\<lparr>qty := qty (ingredients s ! k) + p\<rparr>] \<and>
        spellbook (clients s' ! i) = (spellbook (clients s ! i))[k := spellbook (clients s ! i) ! k + p]"
      if "handle_brew i [''BREW'', name, show_int p] ?s = Some s'"
      by (rule b(2) [OF that])
  qed
  have eq: "process_command now i (''BREW '' @ name @ '' '' @ show_int p) s =
      map_option (Pair False) (handle_brew i [''BREW'', name, show_int p] (touched now i s))" if "0 < p" "p \<le> INT_MAX" for p
    using process_brew [OF assms(3,5,6) valid assms(7) that] .
  have "0 < INT_MAX" by (simp add: INT_MAX_def)
  then have "process_command now i (''BREW '' @ name @ '' '' @ show_int INT_MAX) s = None"
    using eq [of INT_MAX] brew(1) [of INT_MAX] stock by simp
  moreover have "case process_command now i (''BREW '' @ name @ '' '' @ show_int q) s of
        None \<Rightarrow> INT_MAX < qty (ingredients s ! k) + q
      | Some (gone, s') \<Rightarrow> \<not> gone \<and> qty (ingredients s ! k) + q \<le> INT_MAX \<and>
          ingredients s' = (ingredients s)[k := (ingredients s ! k)\<lparr>qty := qty (ingredients s ! k) + q\<rparr>] \<and>
          spellbook (clients s' ! i) = (spellbook (clients s ! i))[k := spellbook (clients s ! i) ! k + q]"
  proof (cases "handle_brew i [''BREW'', name, show_int q] (touched now i s)")
    case None
    with brew(1) [OF assms(8,9)] eq [OF assms(8,9)] show ?thesis by simp
  next
    case (Some s')
    with brew(1) [OF assms(8,9)] brew(2) [OF assms(8,9) Some] eq [OF assms(8,9)] show ?thesis by simp
  qed
  ultimately show ?thesis by blast
qed

theorem brew_overflows_witness:
  "\<exists>s. serve [one_round wizard_script] (init_server [\<lparr>ing_name = ''MINT'', qty = 7\<rparr>] 1 60) = Some s \<and>
     process_command 1 0 (''BREW MINT '' @ show_int INT_MAX) s = None \<and>
     (\<exists>s'. process_command 1 0 ''BREW MINT 5'' s = Some (False, s') \<and> qty (ingredients s' ! 0) = 15)"
proof -
  obtain s where s: "serve [one_round wizard_script] (init_server [\<lparr>ing_name = ''MINT'', qty = 7\<rparr>] 1 60) = Some s"
    "ingredients s = [\<lparr>ing_name = ''MINT'', qty = 10\<rparr>]"
    "clients s = [\<lparr>fd = 5, username = ''Ron'', role = ''WIZARD'', line_buf = [], discard_long_line = False, last_active = 0, spellbook = [3]\<rparr>]"
    by (rule one_round_state)
  have digits: "show_int 5 = ''5''" by code_simp
  from s have "find_ingredient ''MINT'' s = int 0" by (simp add: find_ingredient_def)
  with brew_overflows [OF one_round_eval(1) s(1), of 0 "''MINT''" 0 5 1] s(2,3) digits
  have "process_command 1 0 (''BREW MINT '' @ show_int INT_MAX) s = None"
    "case process_command 1 0 ''BREW MINT 5'' s of None \<Rightarrow> False
      | Some (gone, s') \<Rightarrow> \<not> gone \<and> ingredients s' = [\<lparr>ing_name = ''MINT'', qty = 15\<rparr>]" by (auto simp: INT_MAX_def split: option.splits)
  then show ?thesis using s(1) by (auto split: option.splits)
qed

text \<open>The port check is on the number before its cast: the command line accepts a port above
  65535, and the server then listens on another port, here the privileged port 80.\<close>

theorem accepted_port_truncated:
  "map_option (\<lambda>a. listener_port (arg_port a))
     (server_parse_args [(CHR ''p'', ''65616''), (CHR ''s'', ''i.txt''), (CHR ''l'', ''log''), (CHR ''n'', ''4''), (CHR ''t'', ''60'')] 0) = Some 80"
  by code_simp

lemma send_all_complete: "send_all buf rs = Some (True, out) \<Longrightarrow> out = buf"
  by (induction buf rs arbitrary: out rule: send_all.induct) (auto split: if_splits)

end
