(* ===== verification/Hogwarts_Client.thy ===== *)
theory Hogwarts_Client
  imports Hogwarts_Proofs
begin

text \<open>
  The wizard and professor client (\<open>HW6/client_common.c\<close>): the reply lines it prints, one iteration of
  its select loop, and its composition with the server. What it prints is kept in \<open>printed\<close>, the bytes
  of its successful \<open>send_line\<close> calls in \<open>to_server\<close>; results of the system calls are arguments.
\<close>

section \<open>Model\<close>

record client =
  socket_line :: string
  stdin_closed :: bool
  apparate_sent :: bool
  to_server :: string
  printed :: "string list"

definition print_event :: "string \<Rightarrow> string \<Rightarrow> string \<Rightarrow> string" where
  "print_event rl name message = ''['' @ rl @ '' '' @ name @ ''] '' @ message"

definition say :: "string \<Rightarrow> string \<Rightarrow> string \<Rightarrow> client \<Rightarrow> client" where
  "say rl name message c = c\<lparr>printed := printed c @ [print_event rl name message]\<rparr>"

text \<open>The C string of a received line: a carriage return at its end is cut.\<close>

definition received :: "string \<Rightarrow> string" where
  "received buf = c_str (if buf \<noteq> [] \<and> last buf = carriage_return then butlast buf else buf)"

text \<open>The reason to leave that a reply announces.\<close>

definition farewell :: "string \<Rightarrow> string option" where
  "farewell line =
     (if line = ''TIMEOUT DISCONNECT'' then Some ''DISCONNECTED reason=timeout''
      else if line = ''SERVER SHUTDOWN'' then Some ''DISCONNECTED reason=shutdown''
      else if line = ''OK APPARATE'' then Some ''DISCONNECTED reason=APPARATE''
      else None)"

fun consume_socket_lines :: "string \<Rightarrow> string \<Rightarrow> string \<Rightarrow> client \<Rightarrow> bool \<times> client" where
  "consume_socket_lines rl name [] c = (False, c)"
| "consume_socket_lines rl name (ch # data) c =
     (if ch = newline
      then let line = received (socket_line c); c1 = say rl name (''RECEIVED '' @ line) c in
           (case farewell line of
              Some reason \<Rightarrow> (True, say rl name reason c1)
            | None \<Rightarrow> consume_socket_lines rl name data (c1\<lparr>socket_line := []\<rparr>))
      else if length (socket_line c) < MAX_LINE
      then consume_socket_lines rl name data (c\<lparr>socket_line := socket_line c @ [ch]\<rparr>)
      else consume_socket_lines rl name data (c\<lparr>socket_line := []\<rparr>))"

definition client_send :: "bool \<Rightarrow> string \<Rightarrow> client \<Rightarrow> client" where
  "client_send ok line c = (if ok then c\<lparr>to_server := to_server c @ take MAX_LINE line @ [newline]\<rparr> else c)"

text \<open>\<open>send_apparate_and_wait\<close>, with the outcome of \<open>send\<close> and the data of the last \<open>recv\<close>, if any.\<close>

definition send_apparate_and_wait :: "string \<Rightarrow> string \<Rightarrow> bool \<Rightarrow> string option \<Rightarrow> client \<Rightarrow> client" where
  "send_apparate_and_wait rl name send_ok data c =
     (let c1 = (if send_ok then say rl name ''SENT APPARATE'' (client_send True ''APPARATE'' c) else c);
          over = say rl name ''DISCONNECTED reason=APPARATE''
      in case data of
           None \<Rightarrow> over c1
         | Some bytes \<Rightarrow>
             (case consume_socket_lines rl name (take 256 bytes) (c1\<lparr>socket_line := []\<rparr>) of
                (gone, c2) \<Rightarrow> if gone then c2 else over c2))"

text \<open>What the system calls of one iteration return: \<open>sock\<close> is \<open>None\<close> when the socket is not readable;
  \<open>input\<close> likewise for the standard input, where \<open>Some None\<close> is its end.\<close>

record client_io =
  exit_requested :: bool
  select_error :: "bool option"
  sock :: "recv_result option"
  input :: "string option option"
  send_ok :: bool
  last_data :: "string option"

definition chomp :: "string \<Rightarrow> string" where
  "chomp line = (if line \<noteq> [] \<and> last line = newline then butlast line else line)"

text \<open>The part of an iteration that reads the standard input; the result is the state and, when the
  client returns, whether with success.\<close>

definition read_stdin :: "string \<Rightarrow> string \<Rightarrow> client_io \<Rightarrow> client \<Rightarrow> client \<times> bool option" where
  "read_stdin rl name io c =
     (case input io of
        None \<Rightarrow> (c, None)
      | Some None \<Rightarrow>
          (let c1 = c\<lparr>stdin_closed := True\<rparr> in
           if \<not> apparate_sent c1 \<and> send_ok io
           then ((say rl name ''SENT APPARATE'' (client_send True ''APPARATE'' c1))\<lparr>apparate_sent := True\<rparr>, None)
           else (c1, None))
      | Some (Some bytes) \<Rightarrow>
          (let line = chomp (c_str (take (MAX_LINE + 3) bytes)) in
           if line = [] then (c, None)
           else if \<not> send_ok io then (c, Some False)
           else let c1 = say rl name (''SENT '' @ line) (client_send True line c) in
                if line = ''APPARATE'' then (c1\<lparr>apparate_sent := True, stdin_closed := True\<rparr>, None) else (c1, None)))"

definition client_iteration :: "string \<Rightarrow> string \<Rightarrow> client_io \<Rightarrow> client \<Rightarrow> client \<times> bool option" where
  "client_iteration rl name io c =
     (if exit_requested io
      then ((if \<not> apparate_sent c then send_apparate_and_wait rl name (send_ok io) (last_data io) c
             else say rl name ''DISCONNECTED reason=APPARATE'' c), Some True)
      else case select_error io of
        Some eintr \<Rightarrow> if eintr then (c, None) else (c, Some False)
      | None \<Rightarrow>
          (case sock io of
             Some (Failed eintr) \<Rightarrow> if eintr then (c, None) else (c, Some False)
           | Some Closed \<Rightarrow> (say rl name ''DISCONNECTED reason=shutdown'' c, Some True)
           | Some (Data bytes) \<Rightarrow>
               (case consume_socket_lines rl name (take 256 bytes) c of
                  (gone, c1) \<Rightarrow> if gone then (c1, Some True)
                                else if stdin_closed c1 then (c1, None) else read_stdin rl name io c1)
           | None \<Rightarrow> if stdin_closed c then (c, None) else read_stdin rl name io c))"

text \<open>The start of \<open>run_magic_client\<close>: the arguments (address, port, name), whether the connection and
  the first \<open>send\<close> succeed.\<close>

definition start_client :: "string \<Rightarrow> string list \<Rightarrow> bool \<Rightarrow> bool \<Rightarrow> client option" where
  "start_client rl args connected ok =
     (case args of
        [ip, port_text, name] \<Rightarrow>
          (case parse_positive_int port_text of
             None \<Rightarrow> None
           | Some port \<Rightarrow>
               if port < 1024 \<or> \<not> valid_username name \<or> \<not> connected then None
               else let c0 = \<lparr>socket_line = [], stdin_closed = False, apparate_sent = False, to_server = [], printed = []\<rparr>;
                        c1 = say rl name (''CONNECTED server='' @ ip @ '':'' @ show_int port) c0;
                        enroll = fit (MAX_LINE + 1) (''ENROLL '' @ rl @ '' '' @ name)
                    in if \<not> ok then None
                       else Some (say rl name (''SENT '' @ enroll) (client_send True enroll c1)))
      | _ \<Rightarrow> None)"

section \<open>Reading replies\<close>

lemma say_frame [simp]:
  "socket_line (say rl n m c) = socket_line c" "to_server (say rl n m c) = to_server c"
  "printed (say rl n m c) = printed c @ [print_event rl n m]"
  by (simp_all add: say_def)

text \<open>A line as the server sends it: at most 512 bytes, no newline or NUL inside, no carriage return
  at its end, and not one of the three farewells.\<close>

definition plain_reply :: "string \<Rightarrow> bool" where
  "plain_reply l \<longleftrightarrow> length l \<le> MAX_LINE \<and> newline \<notin> set l \<and> CHR 0x00 \<notin> set l \<and>
     (l = [] \<or> last l \<noteq> carriage_return) \<and> farewell l = None"

lemma received_plain: "plain_reply l \<Longrightarrow> received l = l"
  by (auto simp: received_def plain_reply_def c_str_def takeWhile_eq_all_conv)

lemma consume_buffers:
  assumes "newline \<notin> set l" "length (socket_line c) + length l \<le> MAX_LINE"
  shows "consume_socket_lines rl n (l @ data) c = consume_socket_lines rl n data (c\<lparr>socket_line := socket_line c @ l\<rparr>)"
  using assms by (induction l arbitrary: c) auto

lemma consume_append:
  "consume_socket_lines rl n (d1 @ d2) c =
     (case consume_socket_lines rl n d1 c of (gone, c') \<Rightarrow> if gone then (True, c') else consume_socket_lines rl n d2 c')"
  by (induction d1 arbitrary: c) (auto simp: Let_def split: option.split)

fun consume_chunks :: "string \<Rightarrow> string \<Rightarrow> string list \<Rightarrow> client \<Rightarrow> bool \<times> client" where
  "consume_chunks rl n [] c = (False, c)"
| "consume_chunks rl n (d # ds) c =
     (case consume_socket_lines rl n d c of (gone, c') \<Rightarrow> if gone then (True, c') else consume_chunks rl n ds c')"

lemma consume_chunks_concat: "consume_chunks rl n ds c = consume_socket_lines rl n (concat ds) c"
  by (induction ds arbitrary: c) (auto simp: consume_append split: prod.split)

lemma consume_plain_line:
  assumes "plain_reply l" "socket_line c = []"
  shows "consume_socket_lines rl n (l @ newline # data) c =
     consume_socket_lines rl n data (c\<lparr>printed := printed c @ [print_event rl n (''RECEIVED '' @ l)]\<rparr>)"
proof -
  have "consume_socket_lines rl n (l @ newline # data) c = consume_socket_lines rl n (newline # data) (c\<lparr>socket_line := l\<rparr>)"
    using assms consume_buffers [of l c rl n "newline # data"] by (simp add: plain_reply_def)
  moreover have "received l = l" "farewell l = None"
    using assms(1) by (simp_all add: received_plain plain_reply_def)
  ultimately show ?thesis using assms(2)
    by (cases c) (simp add: Let_def say_def)
qed

lemma consume_plain_lines:
  "\<forall>l\<in>set ls. plain_reply l \<Longrightarrow> socket_line c = [] \<Longrightarrow>
   consume_socket_lines rl n (concat (map (\<lambda>l. l @ [newline]) ls)) c =
     (False, c\<lparr>printed := printed c @ map (\<lambda>l. print_event rl n (''RECEIVED '' @ l)) ls\<rparr>)"
  by (induction ls arbitrary: c) (simp_all add: consume_plain_line)

section \<open>Properties\<close>

text \<open>The protocol reads back what it writes: when the bytes of a series of \<open>send_line\<close> calls of
  the server reach the client in pieces of any size, the client prints exactly those lines, in order,
  once each, and stays connected.\<close>

theorem replies_read_back:
  assumes "\<forall>l\<in>set ls. plain_reply l" "socket_line c = []"
    and "concat chunks = concat (map snd (drop (length (sent s)) (sent (fold (send_line f) ls s))))"
  shows "consume_chunks rl n chunks c = (False, c\<lparr>printed := printed c @ map (\<lambda>l. print_event rl n (''RECEIVED '' @ l)) ls\<rparr>)"
proof -
  have "sent (fold (send_line f) ls t) = sent t @ map (\<lambda>l. (f, l @ [newline])) ls" for t
    using assms(1) by (induction ls arbitrary: t) (auto simp: send_line_def plain_reply_def)
  then have "concat chunks = concat (map (\<lambda>l. l @ [newline]) ls)" using assms(3) by (simp add: comp_def)
  then show ?thesis
    using consume_plain_lines [OF assms(1,2)] by (simp add: consume_chunks_concat)
qed

lemma valid_username_chars:
  assumes "valid_username n"
  shows "n \<noteq> []" "length n < 32" "\<forall>c\<in>set n. \<not> is_ws c \<and> c \<noteq> newline \<and> c \<noteq> CHR 0x00 \<and> c \<noteq> carriage_return"
proof -
  have "\<not> is_ws c \<and> c \<noteq> newline \<and> c \<noteq> CHR 0x00 \<and> c \<noteq> carriage_return" if "isalnum c \<or> c = CHR ''_''" for c
    using that by (auto simp: is_ws_def c_char_simps)
  then show "\<forall>c\<in>set n. \<not> is_ws c \<and> c \<noteq> newline \<and> c \<noteq> CHR 0x00 \<and> c \<noteq> carriage_return"
    using assms by (auto simp: valid_username_def list_all_iff)
qed (use assms in \<open>auto simp: valid_username_def\<close>)

lemma client_hello:
  assumes "start_client rl args True True = Some c" "rl = ''WIZARD'' \<or> rl = ''PROFESSOR''"
  shows "\<exists>name. valid_username name \<and> name = args ! 2 \<and> to_server c = (''ENROLL '' @ rl @ '' '' @ name) @ [newline] \<and> socket_line c = []"
proof -
  have "fit (MAX_LINE + 1) (''ENROLL '' @ rl @ '' '' @ name) = ''ENROLL '' @ rl @ '' '' @ name" if "length name < 32" for name
    using that assms(2) by (auto simp: fit_def)
  moreover have "take MAX_LINE (''ENROLL '' @ rl @ '' '' @ name) = ''ENROLL '' @ rl @ '' '' @ name" if "length name < 32" for name
    using that assms(2) by auto
  ultimately show ?thesis
    using assms(1) by (auto simp: start_client_def client_send_def say_def Let_def valid_username_chars(2)
        split: list.splits option.splits if_splits)
qed

lemma enroll_tokens:
  assumes "rl = ''WIZARD'' \<or> rl = ''PROFESSOR''" "valid_username name"
  shows "take 8 (strtok is_ws (c_str (''ENROLL '' @ rl @ '' '' @ name))) = [''ENROLL'', rl, name]"
proof -
  note ch = valid_username_chars [OF assms(2)]
  have "CHR 0x00 \<notin> set name" using ch(3) by blast
  have "c_str (''ENROLL '' @ rl @ '' '' @ name) = ''ENROLL'' @ CHR '' '' # rl @ CHR '' '' # name"
    using assms(1) \<open>CHR 0x00 \<notin> set name\<close> by (subst c_str_id) auto
  moreover have "strtok is_ws (''ENROLL'' @ CHR '' '' # r) = ''ENROLL'' # strtok is_ws r" for r
    by (subst strtok_token) (simp_all add: is_ws_def strtok_sep)
  moreover have "strtok is_ws (rl @ CHR '' '' # r) = rl # strtok is_ws r" for r
    using assms(1) by (subst strtok_token) (auto simp: is_ws_def strtok_sep)
  moreover have "strtok is_ws name = [name]"
    using strtok_token [of name is_ws "[]"] ch by simp
  ultimately show ?thesis by simp
qed

text \<open>Client and server together: the bytes a started client sends first enrol it under its name
  and role, if the name is free, and the reply makes it print \<open>RECEIVED OK ENROLL name\<close>.\<close>

theorem client_enrolls:
  assumes "start_client rl args True True = Some c" "rl = ''WIZARD'' \<or> rl = ''PROFESSOR''"
    and "clean i s" "username (clients s ! i) = []" "\<not> username_exists (args ! 2) s"
  shows "\<exists>s'. feed_client_data now i (to_server c) s = Some (False, s') \<and>
    username (clients s' ! i) = args ! 2 \<and> role (clients s' ! i) = rl \<and>
    (\<exists>reply. sent s' = sent s @ [(fd (clients s ! i), reply)] \<and>
       consume_socket_lines rl (args ! 2) reply c =
         (False, c\<lparr>printed := printed c @ [print_event rl (args ! 2) (''RECEIVED OK ENROLL '' @ (args ! 2))]\<rparr>))"
proof -
  define name where "name = args ! 2"
  let ?line = "''ENROLL '' @ rl @ '' '' @ name"
  from client_hello [OF assms(1,2)] have hello: "valid_username name" "to_server c = ?line @ [newline]" "socket_line c = []"
    by (auto simp: name_def)
  note ch = valid_username_chars [OF hello(1)]
  have i: "i < length (clients s)" using assms(3) by (simp add: clean_def)
  have clean_name: "newline \<notin> set name" "CHR 0x00 \<notin> set name" "last name \<noteq> carriage_return"
    using ch(3) last_in_set [OF ch(1)] by blast+
  then have "newline \<notin> set ?line" "length ?line \<le> MAX_LINE" using ch(2) assms(2) by auto
  then have f: "feed_client_data now i (to_server c) s = process_command now i ?line s"
    if "process_command now i ?line s = Some (False, t)" for t
    using feed_short_line [of ?line i s now "[]"] assms(3) that by (simp add: hello(2))
  let ?s1 = "touched now i s"
  have "\<not> username_exists name ?s1"
    using assms(5) i by (auto simp: username_exists_def list_ex_length nth_list_update name_def)
  then have en: "process_command now i ?line s = Some (False, handle_enroll i [''ENROLL'', rl, name] ?s1)"
    using enroll_tokens [OF assms(2) hello(1)] unfolding process_command_def by (simp add: Let_def)
  have fits: "fit 32 name = name" "fit 16 rl = rl" "fit (MAX_LINE + 1) (''OK ENROLL '' @ name) = ''OK ENROLL '' @ name"
    using ch(2) assms(2) by (auto simp: fit_def)
  have "username (clients (handle_enroll i [''ENROLL'', rl, name] ?s1) ! i) = name \<and>
        role (clients (handle_enroll i [''ENROLL'', rl, name] ?s1) ! i) = rl \<and>
        sent (handle_enroll i [''ENROLL'', rl, name] ?s1) = sent s @ [(fd (clients s ! i), (''OK ENROLL '' @ name) @ [newline])]"
    using assms(2,4) hello(1) i ch(2) fits \<open>\<not> username_exists name ?s1\<close>
    by (auto simp: handle_enroll_def Let_def send_line_def log_event_def set_client_def)
  moreover have "plain_reply (''OK ENROLL '' @ name)"
    using ch(1,2) clean_name by (simp add: plain_reply_def farewell_def)
  ultimately show ?thesis
    using f [OF en] en consume_plain_lines [of "[''OK ENROLL '' @ name]" c rl name] hello(3)
    by (auto simp: name_def)
qed

theorem replies_read_back_witness:
  "consume_chunks ''WIZARD'' ''Ron'' [''OK SP'', ''ELLBOOK EMPTY'' @ [newline]] \<lparr>socket_line = [], stdin_closed = False, apparate_sent = False, to_server = [], printed = []\<rparr> =
     (False, \<lparr>socket_line = [], stdin_closed = False, apparate_sent = False, to_server = [], printed = [print_event ''WIZARD'' ''Ron'' ''RECEIVED OK SPELLBOOK EMPTY'']\<rparr>)"
  using replies_read_back [of "[''OK SPELLBOOK EMPTY'']" "\<lparr>socket_line = [], stdin_closed = False, apparate_sent = False, to_server = [], printed = []\<rparr>"
      "[''OK SP'', ''ELLBOOK EMPTY'' @ [newline]]" "init_server [] 1 60" 5 "''WIZARD''" "''Ron''"]
  by (simp add: plain_reply_def farewell_def send_line_def init_server_def)

theorem client_enrolls_witness:
  "\<exists>c s'. start_client ''WIZARD'' [''127.0.0.1'', ''5000'', ''Ron''] True True = Some c \<and>
     feed_client_data 0 0 (to_server c) (accept_new_client 5 ''127.0.0.1'' 0 True (init_server [] 1 60)) = Some (False, s') \<and>
     username (clients s' ! 0) = ''Ron''"
proof -
  let ?s = "accept_new_client 5 ''127.0.0.1'' 0 True (init_server [] 1 60)"
  have "start_client ''WIZARD'' [''127.0.0.1'', ''5000'', ''Ron''] True True \<noteq> None" by code_simp
  then obtain c where c: "start_client ''WIZARD'' [''127.0.0.1'', ''5000'', ''Ron''] True True = Some c" by blast
  have "clean 0 ?s" "username (clients ?s ! 0) = []" "\<not> username_exists ([''127.0.0.1'', ''5000'', ''Ron''] ! 2) ?s"
    by code_simp+
  with client_enrolls [OF c, of 0 ?s 0] c show ?thesis by auto
qed

end
