(* ===== verification/Hogwarts_Main.thy ===== *)
theory Hogwarts_Main
  imports Hogwarts_Client
begin

text \<open>
  Start and end of the inventory server (\<open>create_listener\<close> and \<open>main\<close> of \<open>HW6/hogwarts.c\<close>): which calls are made
  in which order, and which resources the process holds afterwards. The results of the calls are arguments.
\<close>

section \<open>Model\<close>

text \<open>What \<open>main\<close> opens or allocates and has to release.\<close>

datatype resource = Log_File | Client_Table | Socket int

record start_calls =
  log_opens :: bool
  calloc_ok :: bool
  socket_fd :: int
  setsockopt_ok :: bool
  bind_ok :: "int \<Rightarrow> bool"
  listen_ok :: bool
  sigaction_ok :: bool

text \<open>\<open>create_listener\<close>: the descriptor or -1, and the resources it leaves open. The port is cast to 16 bits for
  \<open>bind\<close>.\<close>

definition create_listener :: "int \<Rightarrow> start_calls \<Rightarrow> int \<times> resource list" where
  "create_listener port calls =
     (if socket_fd calls < 0 then (- 1, [])
      else let opened = [Socket (socket_fd calls)] in
        if \<not> setsockopt_ok calls then (- 1, remove1 (Socket (socket_fd calls)) opened)
        else if \<not> bind_ok calls (listener_port port) then (- 1, remove1 (Socket (socket_fd calls)) opened)
        else if \<not> listen_ok calls then (- 1, remove1 (Socket (socket_fd calls)) opened)
        else (socket_fd calls, opened))"

definition started_event :: "server_args \<Rightarrow> ingredient_t list \<Rightarrow> string" where
  "started_event a ings =
     ''SERVER_STARTED port='' @ show_int (arg_port a) @ '' max_clients='' @ show_int (max_clients a) @
     '' timeout='' @ show_int (arg_timeout a) @ '' ingredients='' @ show_nat (length ings)"

text \<open>\<open>main\<close> up to its loop: the server, if it started, and the open resources.\<close>

definition server_start ::
  "(char \<times> string) list \<Rightarrow> nat \<Rightarrow> (string \<Rightarrow> string option) \<Rightarrow> start_calls \<Rightarrow> server option \<times> resource list" where
  "server_start opts operands files calls =
     (case server_parse_args opts operands of
        None \<Rightarrow> (None, [])
      | Some a \<Rightarrow>
          (case load_ingredients (files (the (ingredient_path a))) of
             None \<Rightarrow> (None, [])
           | Some ings \<Rightarrow>
               if \<not> log_opens calls then (None, [])
               else let r1 = [Log_File] in
                 if \<not> calloc_ok calls then (None, remove1 Log_File r1)
                 else let r2 = Client_Table # r1 in
                   (case create_listener (arg_port a) calls of (listen_fd, socks) \<Rightarrow>
                      if listen_fd < 0 then (None, remove1 Client_Table (remove1 Log_File (socks @ r2)))
                      else if \<not> sigaction_ok calls
                      then (None, remove1 Client_Table (remove1 Log_File (remove1 (Socket listen_fd) (socks @ r2))))
                      else (Some (log_event (started_event a ings) (init_server ings (nat (max_clients a)) (arg_timeout a))),
                            socks @ r2))))"

text \<open>The whole \<open>main\<close>: the exit code, the server at its end and the resources that are still open. \<open>None\<close> when a
  command overflows an \<open>int\<close>.\<close>

definition server_main ::
  "(char \<times> string) list \<Rightarrow> nat \<Rightarrow> (string \<Rightarrow> string option) \<Rightarrow> start_calls \<Rightarrow> round list \<Rightarrow> (int \<times> server option \<times> resource list) option" where
  "server_main opts operands files calls rounds =
     (case server_start opts operands files calls of
        (None, res) \<Rightarrow> Some (1, None, res)
      | (Some s, res) \<Rightarrow>
          (case serve rounds s of
             None \<Rightarrow> None
           | Some s' \<Rightarrow> Some (0, Some (finish_server s'), remove1 Client_Table (remove1 Log_File (remove1 (Socket (socket_fd calls)) res)))))"

section \<open>The clients\<close>

record client_calls =
  handler_ok :: bool
  client_fd :: int
  inet_ok :: "string \<Rightarrow> bool"
  connect_ok :: "string \<Rightarrow> int \<Rightarrow> bool"

text \<open>\<open>connect_to_server\<close>: the descriptor or -1, and the resources it leaves open.\<close>

definition connect_to_server :: "client_calls \<Rightarrow> string \<Rightarrow> int \<Rightarrow> int \<times> resource list" where
  "connect_to_server calls ip port =
     (if client_fd calls < 0 then (- 1, [])
      else let opened = [Socket (client_fd calls)] in
        if \<not> inet_ok calls ip then (- 1, remove1 (Socket (client_fd calls)) opened)
        else if \<not> connect_ok calls ip (listener_port port) then (- 1, remove1 (Socket (client_fd calls)) opened)
        else (client_fd calls, opened))"

text \<open>The arguments that \<open>run_magic_client\<close> accepts: address, port and name.\<close>

definition client_address :: "string list \<Rightarrow> (string \<times> int \<times> string) option" where
  "client_address args =
     (case args of
        [ip, port_text, name] \<Rightarrow>
          (case parse_positive_int port_text of
             None \<Rightarrow> None
           | Some port \<Rightarrow> if port < 1024 \<or> \<not> valid_username name then None else Some (ip, port, name))
      | _ \<Rightarrow> None)"

text \<open>The loop, with what the calls of each iteration return: whether it returns with success. \<open>None\<close> while it goes on.\<close>

fun client_loop :: "string \<Rightarrow> string \<Rightarrow> client_io list \<Rightarrow> client \<Rightarrow> (bool \<times> client) option" where
  "client_loop rl name [] c = None"
| "client_loop rl name (io # ios) c =
     (case client_iteration rl name io c of
        (c', Some ok) \<Rightarrow> Some (ok, c')
      | (c', None) \<Rightarrow> client_loop rl name ios c')"

text \<open>\<open>run_magic_client\<close>: the exit code, the client at its end, if it got so far, and the open resources.\<close>

definition run_magic_client ::
  "string \<Rightarrow> string list \<Rightarrow> client_calls \<Rightarrow> bool \<Rightarrow> client_io list \<Rightarrow> (int \<times> client option \<times> resource list) option" where
  "run_magic_client rl args calls enroll_ok ios =
     (case client_address args of
        None \<Rightarrow> Some (1, None, [])
      | Some (ip, port, name) \<Rightarrow>
          if \<not> handler_ok calls then Some (1, None, [])
          else (case connect_to_server calls ip port of (sfd, opened) \<Rightarrow>
            if sfd < 0 then Some (1, None, opened)
            else (case start_client rl args True enroll_ok of
              None \<Rightarrow> Some (1, None, remove1 (Socket sfd) opened)
            | Some c \<Rightarrow>
                (case client_loop rl name ios c of
                   None \<Rightarrow> None
                 | Some (ok, c') \<Rightarrow> Some (if ok then 0 else 1, Some c', remove1 (Socket sfd) opened)))))"

section \<open>Facts\<close>

lemma create_listener_open:
  "create_listener port calls = (f, socks) \<Longrightarrow> f < 0 \<and> socks = [] \<or> 0 \<le> f \<and> f = socket_fd calls \<and> socks = [Socket f]"
  by (auto simp: create_listener_def Let_def split: if_splits)

lemma server_start_open:
  assumes "server_start opts operands files calls = (r, res)"
  shows "r = None \<and> res = [] \<or> (\<exists>a ings. server_parse_args opts operands = Some a \<and>
           load_ingredients (files (the (ingredient_path a))) = Some ings \<and>
           r = Some (log_event (started_event a ings) (init_server ings (nat (max_clients a)) (arg_timeout a))) \<and>
           res = [Socket (socket_fd calls), Client_Table, Log_File])"
  using assms by (auto simp: server_start_def Let_def split: option.splits if_splits prod.splits dest!: create_listener_open)

text \<open>Whatever the calls return, the process holds nothing when \<open>main\<close> returns, and it returns 0 exactly when the
  server had started.\<close>

theorem server_main_releases_all:
  assumes "server_main opts operands files calls rounds = Some (ec, r, res)"
  shows "res = [] \<and> (ec = 0 \<longleftrightarrow> r \<noteq> None) \<and> (ec = 0 \<longleftrightarrow> fst (server_start opts operands files calls) \<noteq> None)"
proof -
  obtain r0 res0 where s: "server_start opts operands files calls = (r0, res0)" by (cases "server_start opts operands files calls")
  from server_start_open [OF s] assms show ?thesis
    by (auto simp: server_main_def s split: option.splits)
qed

section \<open>Facts on the clients\<close>

lemma connect_to_server_open:
  "connect_to_server calls ip port = (f, opened) \<Longrightarrow> f < 0 \<and> opened = [] \<or> 0 \<le> f \<and> opened = [Socket f]"
  by (auto simp: connect_to_server_def Let_def split: if_splits)

text \<open>The lines that say why a client leaves.\<close>

definition goodbye_events :: "string list" where
  "goodbye_events = [''DISCONNECTED reason=timeout'', ''DISCONNECTED reason=shutdown'', ''DISCONNECTED reason=APPARATE'']"

definition says_goodbye :: "string \<Rightarrow> string \<Rightarrow> client \<Rightarrow> bool" where
  "says_goodbye rl name c \<longleftrightarrow> printed c \<noteq> [] \<and> last (printed c) \<in> print_event rl name ` set goodbye_events"

lemma goodbye_say: "m \<in> set goodbye_events \<Longrightarrow> says_goodbye rl name (say rl name m c)"
  by (simp add: says_goodbye_def say_def)

lemma farewell_goodbye: "farewell line = Some m \<Longrightarrow> m \<in> set goodbye_events"
  by (auto simp: farewell_def goodbye_events_def split: if_splits)

lemma consume_goodbye: "consume_socket_lines rl name data c = (True, c') \<Longrightarrow> says_goodbye rl name c'"
  by (induction rl name data c rule: consume_socket_lines.induct)
    (auto simp: Let_def intro: goodbye_say farewell_goodbye split: if_splits option.splits)

lemma apparate_goodbye: "says_goodbye rl name (send_apparate_and_wait rl name ok data c)"
proof -
  have m: "''DISCONNECTED reason=APPARATE'' \<in> set goodbye_events" by (simp add: goodbye_events_def)
  show ?thesis
    by (auto simp: send_apparate_and_wait_def Let_def intro: goodbye_say [OF m] consume_goodbye split: option.splits prod.splits)
qed

lemma iteration_goodbye:
  assumes "client_iteration rl name io c = (c', Some True)"
  shows "says_goodbye rl name c'"
proof -
  have m: "''DISCONNECTED reason=APPARATE'' \<in> set goodbye_events" "''DISCONNECTED reason=shutdown'' \<in> set goodbye_events"
    by (simp_all add: goodbye_events_def)
  have no: "read_stdin rl name io d \<noteq> (c', Some True)" for d
    by (auto simp: read_stdin_def Let_def split: option.splits)
  show ?thesis
    using assms unfolding client_iteration_def
    by (auto simp: no split: if_splits option.splits recv_result.splits prod.splits
        intro: goodbye_say [OF m(1)] goodbye_say [OF m(2)] apparate_goodbye consume_goodbye)
qed

lemma client_loop_goodbye: "client_loop rl name ios c = Some (True, c') \<Longrightarrow> says_goodbye rl name c'"
  by (induction ios arbitrary: c) (auto split: prod.splits option.splits intro: iteration_goodbye)

text \<open>A client that has not returned leaves its loop at the next iteration after SIGINT.\<close>

lemma client_loop_sigint: "exit_requested io \<Longrightarrow> client_loop rl name (ios @ [io]) c \<noteq> None"
  by (induction ios arbitrary: c) (auto simp: client_iteration_def split: prod.splits option.splits)

text \<open>A client closes its socket on every path; when it returns 0 its last line says why it left, and after SIGINT
  it returns.\<close>

theorem client_ends_cleanly:
  assumes "run_magic_client rl args calls enroll_ok ios = Some (ec, r, res)"
  shows "res = [] \<and> (ec = 0 \<longrightarrow> (\<exists>c ip port name. r = Some c \<and> client_address args = Some (ip, port, name) \<and> says_goodbye rl name c))"
  using assms
  by (auto simp: run_magic_client_def dest!: connect_to_server_open intro: client_loop_goodbye split: option.splits if_splits prod.splits)

end
