(* ===== verification/Tower_Word.thy ===== *)
theory Tower_Word
  imports C_Stdlib
begin

text \<open>
  One word of the letter tower (\<open>HW3\<close>): the shared word with its sorting area, the placement of a
  letter (\<open>shared_memory.c\<close>) and the pass of a sorter over the area (\<open>sorting.c\<close>). The arrays of length
  \<open>MAX_WORD_LEN\<close> are lists of the length of the word; only that part is ever used.
\<close>

section \<open>Model\<close>

record SharedWord =
  word_id :: int
  sorting_floor :: int
  arrival_floor :: int
  wtext :: string
  claimed :: bool
  admitted :: bool
  completed :: bool
  active_reservation :: bool
  claim_owner :: int
  sorting_area :: string
  sorting_meta :: "int list"
  occupied :: "bool list"
  fixed :: "bool list"
  char_claimed :: "bool list"
  char_delivered :: "bool list"
  char_in_transit :: "bool list"
  char_arrived :: "bool list"

abbreviation wlen :: "SharedWord \<Rightarrow> nat" where "wlen w \<equiv> length (wtext w)"

definition new_word :: "int \<Rightarrow> string \<Rightarrow> int \<Rightarrow> SharedWord" where
  "new_word wid word sf =
     \<lparr>word_id = wid, sorting_floor = sf, arrival_floor = 0, wtext = word,
      claimed = False, admitted = False, completed = False, active_reservation = False, claim_owner = 0,
      sorting_area = replicate (length word) (CHR 0x00), sorting_meta = replicate (length word) (- 1),
      occupied = replicate (length word) False, fixed = replicate (length word) False,
      char_claimed = replicate (length word) False, char_delivered = replicate (length word) False,
      char_in_transit = replicate (length word) False, char_arrived = replicate (length word) False\<rparr>"

text \<open>The search of \<open>place_char_in_sorting_area\<close> for a slot that is neither fixed nor occupied.\<close>

fun free_slot :: "SharedWord \<Rightarrow> nat list \<Rightarrow> nat option" where
  "free_slot w [] = None"
| "free_slot w (i # is) = (if \<not> fixed w ! i \<and> \<not> occupied w ! i then Some i else free_slot w is)"

definition place_char_in_sorting_area :: "nat \<Rightarrow> SharedWord \<Rightarrow> SharedWord option" where
  "place_char_in_sorting_area ci w =
     (case free_slot w [0..<wlen w] of
        None \<Rightarrow> None
      | Some i \<Rightarrow> Some (w\<lparr>sorting_area := (sorting_area w)[i := wtext w ! ci], sorting_meta := (sorting_meta w)[i := int ci],
                         occupied := (occupied w)[i := True], char_arrived := (char_arrived w)[ci := True]\<rparr>))"

text \<open>\<open>deliver_char\<close>: whether the letter found a slot, and the word.\<close>

definition deliver_char :: "nat \<Rightarrow> SharedWord \<Rightarrow> bool \<times> SharedWord" where
  "deliver_char ci w =
     (case place_char_in_sorting_area ci w of
        Some w' \<Rightarrow> (True, w'\<lparr>char_delivered := (char_delivered w')[ci := True], char_in_transit := (char_in_transit w')[ci := False]\<rparr>)
      | None \<Rightarrow> (False, w\<lparr>char_claimed := (char_claimed w)[ci := False], char_in_transit := (char_in_transit w)[ci := False]\<rparr>))"

text \<open>A letter carrier takes letter \<open>ci\<close>.\<close>

definition claimable :: "nat \<Rightarrow> SharedWord \<Rightarrow> bool" where
  "claimable ci w \<longleftrightarrow> ci < wlen w \<and> \<not> char_claimed w ! ci \<and> \<not> char_delivered w ! ci \<and> \<not> char_in_transit w ! ci"

definition claim_char :: "nat \<Rightarrow> SharedWord \<Rightarrow> SharedWord" where
  "claim_char ci w = w\<lparr>char_claimed := (char_claimed w)[ci := True], char_in_transit := (char_in_transit w)[ci := True]\<rparr>"

text \<open>The rules of a sorter for slot \<open>i\<close>; the flag is \<open>progress\<close>.\<close>

definition move_slot :: "nat \<Rightarrow> nat \<Rightarrow> SharedWord \<Rightarrow> SharedWord" where
  "move_slot i tgt w =
     (let m = (sorting_meta w)[tgt := sorting_meta w ! i, i := - 1] in
      w\<lparr>sorting_area := (sorting_area w)[tgt := sorting_area w ! i, i := CHR 0x00], sorting_meta := m,
        occupied := (occupied w)[tgt := True, i := False],
        fixed := (if m ! tgt = int tgt then (fixed w)[tgt := True] else fixed w)\<rparr>)"

definition swap_slot :: "nat \<Rightarrow> nat \<Rightarrow> SharedWord \<Rightarrow> SharedWord" where
  "swap_slot i tgt w =
     (let m = (sorting_meta w)[tgt := sorting_meta w ! i, i := sorting_meta w ! tgt];
          f = (if m ! tgt = int tgt then (fixed w)[tgt := True] else fixed w)
      in w\<lparr>sorting_area := (sorting_area w)[tgt := sorting_area w ! i, i := sorting_area w ! tgt], sorting_meta := m,
           fixed := (if m ! i = int i then f[i := True] else f)\<rparr>)"

definition sort_slot :: "nat \<Rightarrow> bool \<times> SharedWord \<Rightarrow> bool \<times> SharedWord" where
  "sort_slot i pw =
     (case pw of (progress, w) \<Rightarrow>
        if \<not> occupied w ! i \<or> fixed w ! i then (progress, w)
        else let tgt = sorting_meta w ! i in
          if tgt = int i then (True, w\<lparr>fixed := (fixed w)[i := True]\<rparr>)
          else if 0 \<le> tgt \<and> tgt < int (wlen w) \<and> \<not> fixed w ! nat tgt
          then (True, if \<not> occupied w ! nat tgt then move_slot i (nat tgt) w else swap_slot i (nat tgt) w)
          else (progress, w))"

definition sort_word :: "SharedWord \<Rightarrow> bool \<times> SharedWord" where
  "sort_word w = fold sort_slot [0..<wlen w] (False, w)"

definition all_fixed :: "SharedWord \<Rightarrow> bool" where
  "all_fixed w \<longleftrightarrow> list_all (\<lambda>i. fixed w ! i) [0..<wlen w]"

section \<open>The invariant of a word\<close>

definition sizes_ok :: "SharedWord \<Rightarrow> bool" where
  "sizes_ok w \<longleftrightarrow> list_all (\<lambda>k. k = wlen w)
     [length (sorting_area w), length (sorting_meta w), length (occupied w), length (fixed w), length (char_claimed w),
      length (char_delivered w), length (char_in_transit w), length (char_arrived w)]"

definition slots_ok :: "SharedWord \<Rightarrow> bool" where
  "slots_ok w \<longleftrightarrow>
     (\<forall>i<wlen w. fixed w ! i \<longrightarrow> occupied w ! i \<and> sorting_meta w ! i = int i) \<and>
     (\<forall>i<wlen w. occupied w ! i \<longrightarrow>
        (\<exists>ci<wlen w. sorting_meta w ! i = int ci \<and> sorting_area w ! i = wtext w ! ci \<and> char_delivered w ! ci)) \<and>
     (\<forall>i<wlen w. \<forall>j<wlen w. occupied w ! i \<and> occupied w ! j \<and> sorting_meta w ! i = sorting_meta w ! j \<longrightarrow> i = j) \<and>
     (\<forall>ci<wlen w. char_delivered w ! ci \<longrightarrow> (\<exists>i<wlen w. occupied w ! i \<and> sorting_meta w ! i = int ci))"

definition chars_ok :: "SharedWord \<Rightarrow> bool" where
  "chars_ok w \<longleftrightarrow>
     (\<forall>ci<wlen w. char_claimed w ! ci \<longleftrightarrow> char_delivered w ! ci \<or> char_in_transit w ! ci) \<and>
     (\<forall>ci<wlen w. char_in_transit w ! ci \<longrightarrow> \<not> char_delivered w ! ci)"

definition word_ok :: "SharedWord \<Rightarrow> bool" where
  "word_ok w \<longleftrightarrow> sizes_ok w \<and> slots_ok w \<and> chars_ok w \<and> (completed w \<longrightarrow> all_fixed w)"

lemmas word_defs = word_ok_def sizes_ok_def slots_ok_def chars_ok_def

lemma all_fixed_iff: "all_fixed w \<longleftrightarrow> (\<forall>i<wlen w. fixed w ! i)"
  by (auto simp: all_fixed_def list_all_iff)

lemma word_okD:
  assumes "word_ok w"
  shows "i < wlen w \<Longrightarrow> fixed w ! i \<Longrightarrow> occupied w ! i \<and> sorting_meta w ! i = int i"
    and "i < wlen w \<Longrightarrow> occupied w ! i \<Longrightarrow> \<exists>ci<wlen w. sorting_meta w ! i = int ci \<and> sorting_area w ! i = wtext w ! ci \<and> char_delivered w ! ci"
    and "i < wlen w \<Longrightarrow> j < wlen w \<Longrightarrow> occupied w ! i \<Longrightarrow> occupied w ! j \<Longrightarrow> sorting_meta w ! i = sorting_meta w ! j \<Longrightarrow> i = j"
    and "ci < wlen w \<Longrightarrow> char_delivered w ! ci \<Longrightarrow> \<exists>i<wlen w. occupied w ! i \<and> sorting_meta w ! i = int ci"
    and "sizes_ok w" "chars_ok w" "completed w \<Longrightarrow> all_fixed w"
  using assms unfolding word_ok_def slots_ok_def by blast+

lemma word_ok_new [simp]: "0 < length word \<Longrightarrow> word_ok (new_word wid word sf)"
  by (simp add: word_defs new_word_def)

lemma free_slot_Some: "free_slot w is = Some i \<Longrightarrow> i \<in> set is \<and> \<not> fixed w ! i \<and> \<not> occupied w ! i"
  by (induction "is") (auto split: if_splits)

lemma free_slot_None: "free_slot w is = None \<Longrightarrow> \<forall>i\<in>set is. fixed w ! i \<or> occupied w ! i"
  by (induction "is") (auto split: if_splits)

text \<open>A full area holds every letter, so there is room for a letter on its way.\<close>

lemma full_area_holds_all:
  assumes ok: "word_ok w" and full: "\<forall>i<wlen w. occupied w ! i" and ci: "ci < wlen w"
  shows "char_delivered w ! ci"
proof -
  let ?m = "\<lambda>i. nat (sorting_meta w ! i)"
  have meta: "\<exists>ci<wlen w. sorting_meta w ! i = int ci \<and> char_delivered w ! ci" if "i < wlen w" for i
    using word_okD(2) [OF ok that] full that by blast
  have "inj_on ?m {..<wlen w}"
  proof (rule inj_onI)
    fix i j assume "i \<in> {..<wlen w}" "j \<in> {..<wlen w}" "?m i = ?m j"
    with meta [of i] meta [of j] word_okD(3) [OF ok, of i j] full show "i = j" by auto
  qed
  moreover have "?m ` {..<wlen w} \<subseteq> {..<wlen w}"
  proof (rule image_subsetI)
    fix i assume "i \<in> {..<wlen w}"
    with meta [of i] show "?m i \<in> {..<wlen w}" by auto
  qed
  ultimately have "?m ` {..<wlen w} = {..<wlen w}" by (simp add: endo_inj_surj)
  then have "ci \<in> ?m ` {..<wlen w}" using ci by simp
  then obtain i where i: "i < wlen w" "nat (sorting_meta w ! i) = ci" by auto
  with meta [of i] show ?thesis by auto
qed

lemma place_char_room:
  assumes "word_ok w" "ci < wlen w" "\<not> char_delivered w ! ci"
  shows "\<exists>i<wlen w. free_slot w [0..<wlen w] = Some i \<and> \<not> fixed w ! i \<and> \<not> occupied w ! i"
proof (cases "free_slot w [0..<wlen w]")
  case None
  from free_slot_None [OF this] have "\<forall>i<wlen w. occupied w ! i"
    using word_okD(1) [OF assms(1)] by (metis atLeast_upt lessThan_iff)
  with full_area_holds_all assms show ?thesis by blast
next
  case (Some i)
  with free_slot_Some [OF Some] show ?thesis by auto
qed

lemma deliver_char_ok:
  assumes ok: "word_ok w" and ci: "ci < wlen w" and tr: "char_in_transit w ! ci"
  obtains w' where "deliver_char ci w = (True, w')" "word_ok w'"
    "wtext w' = wtext w" "char_delivered w' = (char_delivered w)[ci := True]" "char_in_transit w' = (char_in_transit w)[ci := False]"
    "completed w' = completed w" "fixed w' = fixed w"
proof -
  have nd: "\<not> char_delivered w ! ci" using word_okD(6) [OF ok] ci tr by (simp add: chars_ok_def)
  then obtain i where i: "i < wlen w" "free_slot w [0..<wlen w] = Some i" "\<not> fixed w ! i" "\<not> occupied w ! i"
    using place_char_room ok ci by blast
  define w' where "w' = w\<lparr>sorting_area := (sorting_area w)[i := wtext w ! ci], sorting_meta := (sorting_meta w)[i := int ci],
      occupied := (occupied w)[i := True], char_arrived := (char_arrived w)[ci := True],
      char_delivered := (char_delivered w)[ci := True], char_in_transit := (char_in_transit w)[ci := False]\<rparr>"
  have d: "deliver_char ci w = (True, w')"
    by (simp add: deliver_char_def place_char_in_sorting_area_def i(2) w'_def)
  have sz: "sizes_ok w" by (rule word_okD(5) [OF ok])
  have other: "sorting_meta w ! j \<noteq> int ci" if "j < wlen w" "occupied w ! j" for j
    using word_okD(2) [OF ok that] nd by auto
  have "slots_ok w'"
    unfolding slots_ok_def
  proof (intro conjI allI impI; (elim conjE)?)
    fix j assume j: "j < wlen w'" "fixed w' ! j"
    then have "j \<noteq> i" "j < wlen w" "fixed w ! j" using i by (auto simp: w'_def)
    with word_okD(1) [OF ok, of j] sz show "occupied w' ! j" "sorting_meta w' ! j = int j"
      by (simp_all add: w'_def sizes_ok_def)
  next
    fix j assume j: "j < wlen w'" "occupied w' ! j"
    show "\<exists>ci<wlen w'. sorting_meta w' ! j = int ci \<and> sorting_area w' ! j = wtext w' ! ci \<and> char_delivered w' ! ci"
    proof (cases "j = i")
      case True
      with ci i sz show ?thesis by (auto simp: w'_def sizes_ok_def)
    next
      case False
      with j word_okD(2) [OF ok, of j] ci sz show ?thesis
        by (auto simp: w'_def sizes_ok_def nth_list_update)
    qed
  next
    fix j l assume "j < wlen w'" "l < wlen w'" "occupied w' ! j" "occupied w' ! l" "sorting_meta w' ! j = sorting_meta w' ! l"
    with i sz other [of j] other [of l] word_okD(3) [OF ok, of j l] show "j = l"
      by (cases "j = i"; cases "l = i") (simp_all add: w'_def sizes_ok_def)
  next
    fix c assume c: "c < wlen w'" "char_delivered w' ! c"
    show "\<exists>j<wlen w'. occupied w' ! j \<and> sorting_meta w' ! j = int c"
    proof (cases "c = ci")
      case True
      with i sz show ?thesis by (intro exI [of _ i]) (simp add: w'_def sizes_ok_def)
    next
      case False
      with c obtain j where "j < wlen w" "occupied w ! j" "sorting_meta w ! j = int c"
        using word_okD(4) [OF ok, of c] by (auto simp: w'_def)
      moreover from this i have "j \<noteq> i" by auto
      ultimately show ?thesis by (intro exI [of _ j]) (simp add: w'_def)
    qed
  qed
  moreover have "sizes_ok w'" using sz by (simp add: w'_def sizes_ok_def)
  moreover have "chars_ok w'" using word_okD(6) [OF ok] sz ci tr by (auto simp: chars_ok_def w'_def sizes_ok_def nth_list_update)
  moreover have "completed w' \<Longrightarrow> all_fixed w'" using word_okD(7) [OF ok] by (simp add: w'_def all_fixed_iff)
  ultimately have "word_ok w'" by (simp add: word_ok_def)
  with d show thesis by (rule that) (simp_all add: w'_def)
qed

lemma claim_char_ok:
  assumes "word_ok w" "claimable ci w"
  shows "word_ok (claim_char ci w)"
  using assms by (auto simp: word_ok_def claim_char_def claimable_def sizes_ok_def slots_ok_def chars_ok_def all_fixed_iff nth_list_update)

section \<open>A pass of a sorter\<close>

text \<open>Moving and swapping permute the slots.\<close>

definition transp :: "nat \<Rightarrow> nat \<Rightarrow> nat \<Rightarrow> nat" where
  "transp i t j = (if j = i then t else if j = t then i else j)"

lemma transp_transp [simp]: "transp i t (transp i t j) = j"
  by (simp add: transp_def)

lemma transp_less: "i < n \<Longrightarrow> t < n \<Longrightarrow> j < n \<Longrightarrow> transp i t j < n"
  by (simp add: transp_def)

lemma permuted_ok:
  assumes ok: "word_ok w" and it: "i < wlen w" "t < wlen w" and sz: "sizes_ok w'"
    and same: "wtext w' = wtext w" "char_delivered w' = char_delivered w" "char_claimed w' = char_claimed w"
      "char_in_transit w' = char_in_transit w"
    and nc: "\<not> completed w'"
    and perm: "\<And>j. j < wlen w \<Longrightarrow> occupied w' ! j = occupied w ! transp i t j"
      "\<And>j. j < wlen w \<Longrightarrow> occupied w' ! j \<Longrightarrow> sorting_meta w' ! j = sorting_meta w ! transp i t j \<and> sorting_area w' ! j = sorting_area w ! transp i t j"
    and fx: "\<And>j. j < wlen w \<Longrightarrow> fixed w' ! j \<Longrightarrow> occupied w' ! j \<and> sorting_meta w' ! j = int j"
  shows "word_ok w'"
proof -
  note lt = transp_less [OF it]
  have "slots_ok w'"
    unfolding slots_ok_def same
  proof (intro conjI allI impI; (elim conjE)?)
    fix j assume "j < wlen w" "fixed w' ! j"
    then show "occupied w' ! j" "sorting_meta w' ! j = int j" using fx by blast+
  next
    fix j assume j: "j < wlen w" "occupied w' ! j"
    with word_okD(2) [OF ok lt [OF j(1)]] perm [OF j(1)]
    show "\<exists>ci<wlen w. sorting_meta w' ! j = int ci \<and> sorting_area w' ! j = wtext w ! ci \<and> char_delivered w ! ci" by simp
  next
    fix j l assume "j < wlen w" "l < wlen w" "occupied w' ! j" "occupied w' ! l" "sorting_meta w' ! j = sorting_meta w' ! l"
    with word_okD(3) [OF ok lt lt, of j l] perm have "transp i t j = transp i t l" by simp
    then show "j = l" by (metis transp_transp)
  next
    fix c assume "c < wlen w" "char_delivered w ! c"
    then obtain j where j: "j < wlen w" "occupied w ! j" "sorting_meta w ! j = int c" using word_okD(4) [OF ok] by blast
    with perm [OF lt [OF j(1)]] show "\<exists>j<wlen w. occupied w' ! j \<and> sorting_meta w' ! j = int c"
      by (intro exI [of _ "transp i t j"]) (simp add: lt)
  qed
  then show ?thesis
    using sz nc word_okD(6) [OF ok] by (simp add: word_ok_def chars_ok_def same)
qed

text \<open>What one rule of the sorter keeps, and that fixed slots stay fixed.\<close>

definition sorts_to :: "SharedWord \<Rightarrow> SharedWord \<Rightarrow> bool" where
  "sorts_to w w' \<longleftrightarrow> word_ok w' \<and> wtext w' = wtext w \<and> char_delivered w' = char_delivered w \<and> char_claimed w' = char_claimed w \<and>
     char_in_transit w' = char_in_transit w \<and> completed w' = completed w \<and> admitted w' = admitted w \<and> claimed w' = claimed w \<and>
     sorting_floor w' = sorting_floor w \<and> arrival_floor w' = arrival_floor w \<and> active_reservation w' = active_reservation w \<and>
     word_id w' = word_id w \<and> (\<forall>i<wlen w. fixed w ! i \<longrightarrow> fixed w' ! i)"

lemma update_True_mono: "fs ! k \<Longrightarrow> fs[i := True] ! k"
  by (metis linorder_not_less list_update_beyond nth_list_update_eq nth_list_update_neq)

lemma sorts_to_refl: "word_ok w \<Longrightarrow> sorts_to w w"
  by (simp add: sorts_to_def)

lemma sorts_to_trans: "sorts_to w w' \<Longrightarrow> sorts_to w' w'' \<Longrightarrow> sorts_to w w''"
  by (simp add: sorts_to_def)

lemma move_slot_sorts:
  assumes ok: "word_ok w" "\<not> completed w" and i: "i < wlen w" "occupied w ! i" "\<not> fixed w ! i"
    and t: "sorting_meta w ! i = int t" "t < wlen w" "t \<noteq> i" "\<not> fixed w ! t" "\<not> occupied w ! t"
  shows "sorts_to w (move_slot i t w)" "fixed (move_slot i t w) ! t"
proof -
  have sz: "sizes_ok w" by (rule word_okD(5) [OF ok(1)])
  have fx: "fixed w ! j \<Longrightarrow> j < wlen w \<Longrightarrow> occupied w ! j \<and> sorting_meta w ! j = int j" for j
    using word_okD(1) [OF ok(1)] by blast
  have "word_ok (move_slot i t w)"
    by (rule permuted_ok [OF ok(1) i(1) t(2)])
      (use sz i t fx ok(2) in \<open>auto simp: move_slot_def sizes_ok_def Let_def transp_def nth_list_update split: if_splits\<close>)
  then show "sorts_to w (move_slot i t w)"
    by (simp add: sorts_to_def move_slot_def Let_def update_True_mono)
  show "fixed (move_slot i t w) ! t" using sz i t by (simp add: move_slot_def Let_def sizes_ok_def)
qed

lemma swap_slot_sorts:
  assumes ok: "word_ok w" "\<not> completed w" and i: "i < wlen w" "occupied w ! i" "\<not> fixed w ! i"
    and t: "sorting_meta w ! i = int t" "t < wlen w" "t \<noteq> i" "\<not> fixed w ! t" "occupied w ! t"
  shows "sorts_to w (swap_slot i t w)" "fixed (swap_slot i t w) ! t"
proof -
  have sz: "sizes_ok w" by (rule word_okD(5) [OF ok(1)])
  have fx: "fixed w ! j \<Longrightarrow> j < wlen w \<Longrightarrow> occupied w ! j \<and> sorting_meta w ! j = int j" for j
    using word_okD(1) [OF ok(1)] by blast
  have "word_ok (swap_slot i t w)"
    by (rule permuted_ok [OF ok(1) i(1) t(2)])
      (use sz i t fx ok(2) in \<open>auto simp: swap_slot_def sizes_ok_def Let_def transp_def nth_list_update split: if_splits\<close>)
  then show "sorts_to w (swap_slot i t w)"
    by (simp add: sorts_to_def swap_slot_def Let_def update_True_mono)
  show "fixed (swap_slot i t w) ! t" using sz i t by (simp add: swap_slot_def Let_def sizes_ok_def nth_list_update)
qed

lemma fix_slot_sorts:
  assumes "word_ok w" "\<not> completed w" "i < wlen w" "occupied w ! i" "sorting_meta w ! i = int i"
  shows "sorts_to w (w\<lparr>fixed := (fixed w)[i := True]\<rparr>)"
proof -
  let ?w = "w\<lparr>fixed := (fixed w)[i := True]\<rparr>"
  have sz: "sizes_ok w" by (rule word_okD(5) [OF assms(1)])
  have "word_ok ?w"
    by (rule permuted_ok [OF assms(1,3,3)])
      (use sz assms word_okD(1) [OF assms(1)] in \<open>auto simp: sizes_ok_def transp_def nth_list_update split: if_splits\<close>)
  then show ?thesis by (simp add: sorts_to_def update_True_mono)
qed

text \<open>One rule: it keeps the invariant, and on an occupied open slot whose target is open it fixes a slot.\<close>

lemma sort_slot_sorts:
  assumes ok: "word_ok w" "\<not> completed w" and i: "i < wlen w"
  shows "sorts_to w (snd (sort_slot i (p, w)))"
    and "occupied w ! i \<Longrightarrow> \<not> fixed w ! i \<Longrightarrow> \<exists>t<wlen w. \<not> fixed w ! t \<and> fixed (snd (sort_slot i (p, w))) ! t"
proof -
  note sz = word_okD(5) [OF ok(1)]
  have "sorts_to w (snd (sort_slot i (p, w))) \<and>
    (occupied w ! i \<and> \<not> fixed w ! i \<longrightarrow> (\<exists>t<wlen w. \<not> fixed w ! t \<and> fixed (snd (sort_slot i (p, w))) ! t))"
  proof (cases "occupied w ! i \<and> \<not> fixed w ! i")
    case False
    then show ?thesis using sorts_to_refl [OF ok(1)] by (auto simp: sort_slot_def)
  next
    case open_slot: True
    then obtain t where t: "t < wlen w" "sorting_meta w ! i = int t" using word_okD(2) [OF ok(1) i] by blast
    have nf: "\<not> fixed w ! t" if "t \<noteq> i"
      using word_okD(1) [OF ok(1) t(1)] word_okD(3) [OF ok(1) i t(1)] t(2) open_slot that by auto
    show ?thesis
    proof (cases "t = i")
      case True
      with open_slot t i sz fix_slot_sorts [OF ok i] show ?thesis
        by (auto simp: sort_slot_def sizes_ok_def intro!: exI [of _ i])
    next
      case False
      with move_slot_sorts [OF ok i _ _ t(2,1)] swap_slot_sorts [OF ok i _ _ t(2,1)] nf open_slot t show ?thesis
        by (cases "occupied w ! t") (auto simp: sort_slot_def)
    qed
  qed
  then show "sorts_to w (snd (sort_slot i (p, w)))"
    and "occupied w ! i \<Longrightarrow> \<not> fixed w ! i \<Longrightarrow> \<exists>t<wlen w. \<not> fixed w ! t \<and> fixed (snd (sort_slot i (p, w))) ! t"
    by blast+
qed

lemma fold_sort_sorts:
  "word_ok w \<Longrightarrow> \<not> completed w \<Longrightarrow> \<forall>i\<in>set is. i < wlen w \<Longrightarrow> sorts_to w (snd (fold sort_slot is (p, w)))"
proof (induction "is" arbitrary: p w)
  case Nil
  then show ?case by (simp add: sorts_to_refl)
next
  case (Cons i "is")
  obtain p1 w1 where s: "sort_slot i (p, w) = (p1, w1)" by (cases "sort_slot i (p, w)")
  with sort_slot_sorts(1) [of w i p] Cons.prems have t: "sorts_to w w1" by simp
  then have "word_ok w1" "\<not> completed w1" "wlen w1 = wlen w" using Cons.prems by (auto simp: sorts_to_def)
  with Cons t s show ?case by (auto intro: sorts_to_trans)
qed

definition sort_pass :: "SharedWord \<Rightarrow> SharedWord" where
  "sort_pass w = snd (sort_word w)"

lemma sort_pass_sorts: "word_ok w \<Longrightarrow> \<not> completed w \<Longrightarrow> sorts_to w (sort_pass w)"
  by (simp add: sort_pass_def sort_word_def fold_sort_sorts)

lemma all_delivered_full:
  assumes ok: "word_ok w" and all: "\<forall>ci<wlen w. char_delivered w ! ci" and i: "i < wlen w"
  shows "occupied w ! i"
proof -
  have "\<forall>ci\<in>{..<wlen w}. \<exists>i. i < wlen w \<and> occupied w ! i \<and> sorting_meta w ! i = int ci"
    using word_okD(4) [OF ok] all by blast
  then obtain f where f: "\<forall>ci\<in>{..<wlen w}. f ci < wlen w \<and> occupied w ! f ci \<and> sorting_meta w ! f ci = int ci"
    using bchoice [of "{..<wlen w}"] by meson
  then have "inj_on f {..<wlen w}" by (metis inj_onI of_nat_eq_iff)
  moreover have "f ` {..<wlen w} \<subseteq> {..<wlen w}" using f by blast
  ultimately have "f ` {..<wlen w} = {..<wlen w}" by (simp add: endo_inj_surj)
  then have "i \<in> f ` {..<wlen w}" using i by simp
  with f show ?thesis by auto
qed

definition open_slots :: "SharedWord \<Rightarrow> nat set" where
  "open_slots w = {i. i < wlen w \<and> \<not> fixed w ! i}"

lemma sorts_to_open: "sorts_to w w' \<Longrightarrow> open_slots w' \<subseteq> open_slots w"
  by (auto simp: sorts_to_def open_slots_def)

lemma sort_pass_fixes:
  assumes ok: "word_ok w" "\<not> completed w" and all: "\<forall>ci<wlen w. char_delivered w ! ci" and ne: "open_slots w \<noteq> {}"
  shows "open_slots (sort_pass w) \<subset> open_slots w"
proof -
  from ne obtain i where i: "i < wlen w" "\<not> fixed w ! i" by (auto simp: open_slots_def)
  define p1 w1 where "p1 = fst (fold sort_slot [0..<i] (False, w))" and "w1 = snd (fold sort_slot [0..<i] (False, w))"
  define w2 where "w2 = snd (sort_slot i (p1, w1))"
  have s1: "sorts_to w w1" unfolding w1_def using i by (intro fold_sort_sorts [OF ok]) auto
  then have w1: "word_ok w1" "\<not> completed w1" "wtext w1 = wtext w" "char_delivered w1 = char_delivered w"
    using ok by (auto simp: sorts_to_def)
  have s2: "sorts_to w1 w2" unfolding w2_def using sort_slot_sorts(1) w1 i by simp
  then have w2: "word_ok w2" "\<not> completed w2" "wtext w2 = wtext w" using w1 by (auto simp: sorts_to_def)
  have "[0..<wlen w] = [0..<i] @ i # [Suc i..<wlen w]"
    using i upt_add_eq_append [of 0 i "wlen w - i"] by (simp add: upt_conv_Cons)
  then have "sort_word w = fold sort_slot [Suc i..<wlen w] (sort_slot i (p1, w1))"
    by (simp add: sort_word_def p1_def w1_def)
  then have "sort_word w = fold sort_slot [Suc i..<wlen w] (fst (sort_slot i (p1, w1)), w2)" by (simp add: w2_def)
  then have s3: "sorts_to w2 (sort_pass w)" unfolding sort_pass_def using w2 by (simp add: fold_sort_sorts)
  have "\<exists>t<wlen w. \<not> fixed w ! t \<and> fixed w2 ! t"
  proof (cases "fixed w1 ! i")
    case True
    with i s2 w1 show ?thesis by (auto simp: sorts_to_def)
  next
    case False
    have "occupied w1 ! i" using all_delivered_full [OF w1(1)] w1 all i by simp
    with False obtain t where "t < wlen w" "\<not> fixed w1 ! t" "fixed w2 ! t"
      using sort_slot_sorts(2) [OF w1(1,2), of i p1] w1(3) i unfolding w2_def by auto
    with s1 show ?thesis by (auto simp: sorts_to_def)
  qed
  then obtain t where t: "t < wlen w" "\<not> fixed w ! t" "fixed w2 ! t" by blast
  then have "t \<in> open_slots w - open_slots (sort_pass w)"
    using s3 w2 by (auto simp: open_slots_def sorts_to_def)
  moreover have "open_slots (sort_pass w) \<subseteq> open_slots w"
    using sorts_to_open sorts_to_trans [OF s1 sorts_to_trans [OF s2 s3]] by blast
  ultimately show ?thesis by blast
qed

lemma sort_passes:
  assumes "word_ok w" "\<not> completed w" "\<forall>ci<wlen w. char_delivered w ! ci"
  shows "sorts_to w ((sort_pass ^^ k) w) \<and> card (open_slots ((sort_pass ^^ k) w)) \<le> wlen w - k"
proof (induction k)
  case 0
  have "card (open_slots w) \<le> card {..<wlen w}" by (rule card_mono) (auto simp: open_slots_def)
  then show ?case using assms(1) by (simp add: sorts_to_refl)
next
  case (Suc k)
  let ?v = "(sort_pass ^^ k) w"
  have v: "word_ok ?v" "\<not> completed ?v" "\<forall>ci<wlen ?v. char_delivered ?v ! ci" and sv: "sorts_to w ?v"
    using Suc assms by (auto simp: sorts_to_def)
  have fin: "finite (open_slots ?v)" by (simp add: open_slots_def)
  have st: "sorts_to ?v (sort_pass ?v)" by (rule sort_pass_sorts [OF v(1,2)])
  have "card (open_slots (sort_pass ?v)) \<le> wlen w - Suc k"
  proof (cases "open_slots ?v = {}")
    case True
    with sorts_to_open [OF st] show ?thesis by auto
  next
    case False
    from psubset_card_mono [OF fin sort_pass_fixes [OF v False]] Suc show ?thesis by linarith
  qed
  with sorts_to_trans [OF sv st] show ?case by simp
qed

lemma all_fixed_text:
  assumes "word_ok w" "all_fixed w"
  shows "sorting_area w = wtext w"
proof (rule nth_equalityI)
  show "length (sorting_area w) = wlen w" using word_okD(5) [OF assms(1)] by (simp add: sizes_ok_def)
  fix i assume "i < length (sorting_area w)"
  then have i: "i < wlen w" using \<open>length (sorting_area w) = wlen w\<close> by simp
  with assms word_okD(1) [OF assms(1) i] word_okD(2) [OF assms(1) i] show "sorting_area w ! i = wtext w ! i"
    by (auto simp: all_fixed_iff)
qed

section \<open>Property\<close>

text \<open>(C29) The sorters finish a word: once all letters of a word are in its sorting area, at most as
  many passes of a sorter as the word has letters put every letter at its place, so the area reads the
  word.\<close>

theorem sorter_converges:
  assumes "word_ok w" "\<not> completed w" "\<forall>ci<wlen w. char_delivered w ! ci"
  shows "all_fixed ((sort_pass ^^ wlen w) w) \<and> sorting_area ((sort_pass ^^ wlen w) w) = wtext w"
proof -
  let ?v = "(sort_pass ^^ wlen w) w"
  have s: "sorts_to w ?v" and c: "card (open_slots ?v) = 0" using sort_passes [OF assms, of "wlen w"] by auto
  have "finite (open_slots ?v)" by (simp add: open_slots_def)
  with c have "all_fixed ?v" by (auto simp: all_fixed_iff open_slots_def)
  with s all_fixed_text [of ?v] show ?thesis by (simp add: sorts_to_def)
qed

text \<open>The letters of \<open>dog\<close> in the order 2, 0, 1.\<close>

definition scrambled_word :: SharedWord where
  "scrambled_word = snd (deliver_char 1 (snd (deliver_char 0 (snd (deliver_char 2
     (claim_char 0 (claim_char 1 (claim_char 2 (new_word 7 ''dog'' 0)))))))))"

theorem sorter_converges_witness:
  "sorting_area scrambled_word = ''gdo'' \<and> sorting_area ((sort_pass ^^ 3) scrambled_word) = ''dog''"
proof -
  have e: "sorting_area scrambled_word = ''gdo''" "wtext scrambled_word = ''dog''" "\<not> completed scrambled_word"
    "char_delivered scrambled_word = [True, True, True]" "occupied scrambled_word = [True, True, True]"
    "sorting_meta scrambled_word = [2, 0, 1]" "fixed scrambled_word = [False, False, False]"
    "char_claimed scrambled_word = [True, True, True]" "char_in_transit scrambled_word = [False, False, False]"
    "length (char_arrived scrambled_word) = 3"
    by code_simp+
  have "word_ok scrambled_word"
    by (simp add: word_ok_def sizes_ok_def slots_ok_def chars_ok_def e All_less_Suc Ex_less_Suc)
  with sorter_converges [of scrambled_word] e show ?thesis
    by (simp add: All_less_Suc numeral_3_eq_3)
qed

end
