(* ===== verification/Tower_Elevator.thy ===== *)
theory Tower_Elevator
  imports C_Prelude
begin

text \<open>
  The elevators of the letter tower (\<open>HW3/elevator.c\<close>) and the request tables they serve
  (\<open>letter_carrier.c\<close>): the choice of the next floor, the batch that is collected there and its order. A
  table slot with \<open>used = 0\<close> is \<open>None\<close>.
\<close>

section \<open>Model\<close>

record DeliveryRequest =
  d_carrier :: nat
  d_from :: int
  d_to :: int
  d_word :: nat
  d_char :: nat
  d_ch :: char

record RepositionRequest =
  r_carrier :: nat
  r_from :: int
  r_to :: int

abbreviation MAX_REQUESTS :: nat where "MAX_REQUESTS \<equiv> 2048"

text \<open>An elevator: its direction, its floor, its request table and the counter of its semaphore.\<close>

record 'r elevator =
  direction :: int
  at_floor :: int
  requests :: "'r option list"
  items :: nat

definition new_elevator :: "'r elevator" where
  "new_elevator = \<lparr>direction = 1, at_floor = 0, requests = replicate MAX_REQUESTS None, items = 0\<rparr>"

text \<open>The first free slot of a request table takes the request; \<open>None\<close> is the overflow failure.\<close>

fun put_request :: "'r \<Rightarrow> 'r option list \<Rightarrow> 'r option list option" where
  "put_request r [] = None"
| "put_request r (None # xs) = Some (Some r # xs)"
| "put_request r (Some x # xs) = map_option ((#) (Some x)) (put_request r xs)"

definition enqueue_delivery :: "DeliveryRequest \<Rightarrow> DeliveryRequest elevator \<Rightarrow> DeliveryRequest elevator option" where
  "enqueue_delivery r e =
     (case put_request r (requests e) of None \<Rightarrow> None | Some rs \<Rightarrow> Some (e\<lparr>requests := rs, items := items e + 1\<rparr>))"

definition enqueue_reposition :: "RepositionRequest \<Rightarrow> RepositionRequest elevator \<Rightarrow> RepositionRequest elevator option" where
  "enqueue_reposition r e =
     (case put_request r (requests e) of None \<Rightarrow> None | Some rs \<Rightarrow> Some (e\<lparr>requests := rs, items := items e + 1\<rparr>))"

definition ahead :: "int \<Rightarrow> int \<Rightarrow> bool" where
  "ahead dir diff \<longleftrightarrow> (dir > 0 \<and> diff \<ge> 0) \<or> (dir < 0 \<and> diff \<le> 0)"

text \<open>One pass over the table: the first request that starts ahead of \<open>floor\<close>.\<close>

fun scan_pass :: "('r \<Rightarrow> int) \<Rightarrow> int \<Rightarrow> int \<Rightarrow> 'r option list \<Rightarrow> nat option" where
  "scan_pass origin dir floor [] = None"
| "scan_pass origin dir floor (None # xs) = map_option Suc (scan_pass origin dir floor xs)"
| "scan_pass origin dir floor (Some r # xs) =
     (if ahead dir (origin r - floor) then Some 0 else map_option Suc (scan_pass origin dir floor xs))"

definition first_idx :: "('r \<Rightarrow> int) \<Rightarrow> 'r elevator \<Rightarrow> nat option" where
  "first_idx origin e =
     (case scan_pass origin (direction e) (at_floor e) (requests e) of
        Some i \<Rightarrow> Some i
      | None \<Rightarrow> scan_pass origin (- direction e) (at_floor e) (requests e))"

definition first_delivery_idx :: "DeliveryRequest elevator \<Rightarrow> nat option" where
  "first_delivery_idx e = first_idx d_from e"

definition first_reposition_idx :: "RepositionRequest elevator \<Rightarrow> nat option" where
  "first_reposition_idx e = first_idx r_from e"

text \<open>The loop that adds up to \<open>k\<close> more requests to a batch and frees their slots.\<close>

fun take_batch :: "('r \<Rightarrow> bool) \<Rightarrow> nat \<Rightarrow> 'r option list \<Rightarrow> 'r list \<times> 'r option list" where
  "take_batch P k [] = ([], [])"
| "take_batch P k (None # xs) = apsnd ((#) None) (take_batch P k xs)"
| "take_batch P k (Some r # xs) =
     (if 0 < k \<and> P r then apfst ((#) r) (apsnd ((#) None) (take_batch P (k - 1) xs))
      else apsnd ((#) (Some r)) (take_batch P k xs))"

definition heading :: "int \<Rightarrow> int \<Rightarrow> int" where
  "heading from to = (if to \<ge> from then 1 else - 1)"

text \<open>The exchange sort of a batch by destination, in the direction of travel.\<close>

definition swap_needed :: "int \<Rightarrow> DeliveryRequest \<Rightarrow> DeliveryRequest \<Rightarrow> bool" where
  "swap_needed dir rj ri = (if dir > 0 then d_to rj < d_to ri else d_to rj > d_to ri)"

definition exchange :: "('r \<Rightarrow> 'r \<Rightarrow> bool) \<Rightarrow> nat \<Rightarrow> nat \<Rightarrow> 'r list \<Rightarrow> 'r list" where
  "exchange sw i j xs = (if sw (xs ! j) (xs ! i) then xs[i := xs ! j, j := xs ! i] else xs)"

definition exchange_row :: "('r \<Rightarrow> 'r \<Rightarrow> bool) \<Rightarrow> nat \<Rightarrow> 'r list \<Rightarrow> 'r list" where
  "exchange_row sw i xs = fold (exchange sw i) [i + 1..<length xs] xs"

definition exchange_sort :: "('r \<Rightarrow> 'r \<Rightarrow> bool) \<Rightarrow> 'r list \<Rightarrow> 'r list" where
  "exchange_sort sw xs = fold (exchange_row sw) [0..<length xs] xs"

definition collect_delivery_batch :: "nat \<Rightarrow> DeliveryRequest elevator \<Rightarrow> DeliveryRequest list \<times> DeliveryRequest elevator" where
  "collect_delivery_batch cap e =
     (case first_delivery_idx e of
        None \<Rightarrow> ([], e)
      | Some fi \<Rightarrow>
          let first = the (requests e ! fi); dir = heading (d_from first) (d_to first) in
          (case take_batch (\<lambda>r. d_from r = d_from first \<and> heading (d_from r) (d_to r) = dir) (cap - 1) ((requests e)[fi := None]) of
             (b, rs) \<Rightarrow> (exchange_sort (swap_needed dir) (first # b), e\<lparr>direction := dir, requests := rs\<rparr>)))"

definition collect_reposition_batch :: "nat \<Rightarrow> RepositionRequest elevator \<Rightarrow> RepositionRequest list \<times> RepositionRequest elevator" where
  "collect_reposition_batch cap e =
     (case first_reposition_idx e of
        None \<Rightarrow> ([], e)
      | Some fi \<Rightarrow>
          let first = the (requests e ! fi); dir = heading (r_from first) (r_to first) in
          (case take_batch (\<lambda>r. r_from r = r_from first) (cap - 1) ((requests e)[fi := None]) of
             (b, rs) \<Rightarrow> (first # b, e\<lparr>direction := dir, requests := rs\<rparr>)))"

section \<open>Request tables\<close>

definition used :: "'r option list \<Rightarrow> 'r multiset" where
  "used rs = mset (map the (filter (\<lambda>x. x \<noteq> None) rs))"

lemma used_simps [simp]: "used [] = {#}" "used (None # xs) = used xs" "used (Some r # xs) = add_mset r (used xs)"
  by (simp_all add: used_def)

lemma used_replicate_None [simp]: "used (replicate n None) = {#}"
  by (simp add: used_def)

lemma used_clear: "i < length rs \<Longrightarrow> rs ! i = Some r \<Longrightarrow> used rs = add_mset r (used (rs[i := None]))"
proof (induction rs arbitrary: i)
  case (Cons x xs)
  then show ?case by (cases i; cases x) auto
qed simp

lemma put_request_used: "put_request r rs = Some rs' \<Longrightarrow> used rs' = add_mset r (used rs) \<and> length rs' = length rs"
  by (induction r rs arbitrary: rs' rule: put_request.induct) auto

lemma put_request_room: "size (used rs) < length rs \<Longrightarrow> put_request r rs \<noteq> None"
  by (induction r rs rule: put_request.induct) auto

lemma scan_pass_Some:
  "scan_pass origin dir floor rs = Some k \<Longrightarrow> k < length rs \<and> (\<exists>r. rs ! k = Some r \<and> ahead dir (origin r - floor))"
  by (induction origin dir floor rs arbitrary: k rule: scan_pass.induct) (auto split: if_splits)

lemma scan_pass_None: "scan_pass origin dir floor rs = None \<Longrightarrow> \<forall>r\<in>#used rs. \<not> ahead dir (origin r - floor)"
  by (induction origin dir floor rs rule: scan_pass.induct) (auto split: if_splits)

lemma first_idx_None: "direction e \<noteq> 0 \<Longrightarrow> first_idx origin e = None \<Longrightarrow> used (requests e) = {#}"
proof (rule ccontr)
  assume d: "direction e \<noteq> 0" and n: "first_idx origin e = None" and "used (requests e) \<noteq> {#}"
  then obtain r where r: "r \<in># used (requests e)" by blast
  from n have "scan_pass origin (direction e) (at_floor e) (requests e) = None" "scan_pass origin (- direction e) (at_floor e) (requests e) = None"
    by (auto simp: first_idx_def split: option.splits)
  with r have "\<not> ahead (direction e) (origin r - at_floor e)" "\<not> ahead (- direction e) (origin r - at_floor e)"
    using scan_pass_None by blast+
  with d show False by (auto simp: ahead_def)
qed

lemma first_idx_Some:
  assumes "first_idx origin e = Some i"
  obtains r where "i < length (requests e)" "requests e ! i = Some r"
    "(\<exists>q\<in>#used (requests e). ahead (direction e) (origin q - at_floor e)) \<longrightarrow> ahead (direction e) (origin r - at_floor e)"
proof (cases "scan_pass origin (direction e) (at_floor e) (requests e)")
  case None
  with assms have "scan_pass origin (- direction e) (at_floor e) (requests e) = Some i" by (simp add: first_idx_def)
  from scan_pass_Some [OF this] that scan_pass_None [OF None] show ?thesis by auto
next
  case (Some k)
  with assms have "k = i" by (simp add: first_idx_def)
  with scan_pass_Some [OF Some] that show ?thesis by auto
qed

lemma take_batch_used:
  "mset (fst (take_batch P k rs)) + used (snd (take_batch P k rs)) = used rs"
  "length (snd (take_batch P k rs)) = length rs"
  by (induction P k rs rule: take_batch.induct) simp_all

lemma take_batch_matches: "length (fst (take_batch P k rs)) \<le> k" "list_all P (fst (take_batch P k rs))"
  by (induction P k rs rule: take_batch.induct) auto

section \<open>Exchange sort\<close>

text \<open>The order in which the sort puts its elements, by a key.\<close>

locale exchange_order =
  fixes sw :: "'r \<Rightarrow> 'r \<Rightarrow> bool" and key :: "'r \<Rightarrow> int"
  assumes sw_key: "sw x y \<longleftrightarrow> key x < key y"
begin

lemma exchange_props:
  assumes "i < j" "j < length xs"
  shows "length (exchange sw i j xs) = length xs" "mset (exchange sw i j xs) = mset xs"
    "l < i \<Longrightarrow> exchange sw i j xs ! l = xs ! l"
    "key (exchange sw i j xs ! i) \<le> key (exchange sw i j xs ! j)" "key (exchange sw i j xs ! i) \<le> key (xs ! i)"
    "j < l \<Longrightarrow> exchange sw i j xs ! l = xs ! l" "i < l \<Longrightarrow> l < j \<Longrightarrow> exchange sw i j xs ! l = xs ! l"
  using assms by (auto simp: exchange_def sw_key mset_swap)

lemma exchange_row_prefix:
  assumes "i < length xs" "n \<le> length xs" "i < n"
  shows "let ys = fold (exchange sw i) [i + 1..<n] xs in
    length ys = length xs \<and> mset ys = mset xs \<and> (\<forall>l<i. ys ! l = xs ! l) \<and> (\<forall>l. i < l \<and> l < n \<longrightarrow> key (ys ! i) \<le> key (ys ! l))"
  using assms(3,2)
proof (induction n)
  case (Suc n)
  show ?case
  proof (cases "i = n")
    case True
    then show ?thesis by simp
  next
    case False
  let ?zs = "fold (exchange sw i) [i + 1..<n] xs"
  have z: "length ?zs = length xs" "mset ?zs = mset xs" "\<forall>l<i. ?zs ! l = xs ! l" "\<forall>l. i < l \<and> l < n \<longrightarrow> key (?zs ! i) \<le> key (?zs ! l)"
    using Suc False by (simp_all add: Let_def)
  have n: "i < n" "n < length ?zs" using Suc.prems False z(1) by simp_all
  have f: "fold (exchange sw i) [i + 1..<Suc n] xs = exchange sw i n ?zs" using n by simp
  have "key (exchange sw i n ?zs ! i) \<le> key (exchange sw i n ?zs ! l)" if "i < l" "l < Suc n" for l
    using exchange_props(4,5,7) [OF n] z(4) that by (cases "l = n") force+
  then show ?thesis
    unfolding f Let_def using exchange_props(1,2,3) [OF n] z by simp
  qed
qed simp

lemma exchange_row_props:
  assumes "i < length xs"
  shows "length (exchange_row sw i xs) = length xs" "mset (exchange_row sw i xs) = mset xs" "\<forall>l<i. exchange_row sw i xs ! l = xs ! l"
    "\<forall>l. i < l \<and> l < length xs \<longrightarrow> key (exchange_row sw i xs ! i) \<le> key (exchange_row sw i xs ! l)"
  using exchange_row_prefix [OF assms, of "length xs"] assms by (simp_all add: exchange_row_def Let_def)

lemma suffix_elements:
  assumes "mset ys = mset xs" "\<forall>l<i. ys ! l = xs ! l" "i \<le> length xs"
  shows "set (drop i ys) = set (drop i xs)"
proof -
  have len: "length ys = length xs" using assms(1) by (metis size_mset)
  then have "take i ys = take i xs" using assms(2,3) by (auto intro: nth_equalityI)
  with assms(1) have "mset (drop i ys) = mset (drop i xs)"
    by (metis add_left_imp_eq append_take_drop_id mset_append)
  then show ?thesis by (metis set_mset_mset)
qed

lemma exchange_sort_prefix:
  assumes "n \<le> length xs"
  shows "let ys = fold (exchange_row sw) [0..<n] xs in
    length ys = length xs \<and> mset ys = mset xs \<and> (\<forall>i l. i < n \<and> i < l \<and> l < length xs \<longrightarrow> key (ys ! i) \<le> key (ys ! l))"
  using assms
proof (induction n)
  case (Suc n)
  let ?ys = "fold (exchange_row sw) [0..<n] xs" and ?zs = "fold (exchange_row sw) [0..<Suc n] xs"
  have y: "length ?ys = length xs" "mset ?ys = mset xs" "\<And>i l. i < n \<Longrightarrow> i < l \<Longrightarrow> l < length xs \<Longrightarrow> key (?ys ! i) \<le> key (?ys ! l)"
    using Suc by (simp_all add: Let_def)
  have n: "n < length ?ys" using Suc.prems y(1) by simp
  note r = exchange_row_props [OF n]
  have z: "?zs = exchange_row sw n ?ys" by simp
  have "key (?zs ! i) \<le> key (?zs ! l)" if il: "i < Suc n" "i < l" "l < length xs" for i l
  proof (cases "i = n")
    case True
    with r(4) il y(1) z show ?thesis by simp
  next
    case False
    then have i: "i < n" using il by simp
    show ?thesis
    proof (cases "l < n")
      case True
      with r(3) i il z y show ?thesis by simp
    next
      case l: False
      have "set (drop n ?zs) = set (drop n ?ys)" unfolding z using r n by (intro suffix_elements) simp_all
      moreover have "?zs ! l \<in> set (drop n ?zs)"
        using l il r(1) y(1) z by (auto simp: in_set_conv_nth intro!: exI [of _ "l - n"])
      ultimately obtain k where "n + k < length ?ys" "?zs ! l = ?ys ! (n + k)"
        by (metis in_set_conv_nth length_drop less_diff_conv nth_drop add.commute less_imp_le n)
      with y(3) [OF i, of "n + k"] r(3) i z y(1) show ?thesis by simp
    qed
  qed
  then show ?case using r y z by (simp add: Let_def)
qed simp

lemma exchange_sort_sorts:
  "mset (exchange_sort sw xs) = mset xs" "sorted (map key (exchange_sort sw xs))"
  using exchange_sort_prefix [of "length xs" xs]
  by (auto simp: exchange_sort_def Let_def sorted_iff_nth_mono_less)

end

interpretation batch_order: exchange_order "swap_needed dir" "\<lambda>r. if dir > 0 then d_to r else - d_to r"
  by unfold_locales (simp add: swap_needed_def)

section \<open>Batches\<close>

lemma heading_cases: "heading f t = 1 \<or> heading f t = - 1"
  by (simp add: heading_def)

lemma collect_delivery_cases:
  assumes "collect_delivery_batch cap e = (b, e')" "direction e \<noteq> 0"
  obtains "b = []" "e' = e" "used (requests e) = {#}"
  | first rest fi rs where "fi < length (requests e)" "requests e ! fi = Some first" "first_delivery_idx e = Some fi"
      "take_batch (\<lambda>r. d_from r = d_from first \<and> heading (d_from r) (d_to r) = heading (d_from first) (d_to first)) (cap - 1) ((requests e)[fi := None]) = (rest, rs)"
      "b = exchange_sort (swap_needed (heading (d_from first) (d_to first))) (first # rest)"
      "e' = e\<lparr>direction := heading (d_from first) (d_to first), requests := rs\<rparr>"
proof (cases "first_delivery_idx e")
  case None
  with assms first_idx_None [OF assms(2), of d_from] that(1) show ?thesis
    by (simp add: collect_delivery_batch_def first_delivery_idx_def)
next
  case (Some fi)
  then obtain first where f: "fi < length (requests e)" "requests e ! fi = Some first"
    unfolding first_delivery_idx_def by (rule first_idx_Some)
  with assms Some that(2) show ?thesis
    by (auto simp: collect_delivery_batch_def Let_def split: prod.splits)
qed

text \<open>A delivery batch: every collected request leaves the table exactly once and none is lost;
  the batch is empty only when no request waits; it has at most the capacity of the elevator; all its
  requests start at one floor and travel in one direction; they are delivered in the order of the
  destinations on the way; and a request ahead in the current direction is preferred.\<close>

theorem delivery_batch_spec:
  assumes "collect_delivery_batch cap e = (b, e')" "1 \<le> cap" "direction e \<noteq> 0"
  shows "used (requests e) = mset b + used (requests e') \<and> length (requests e') = length (requests e) \<and>
    (b = [] \<longleftrightarrow> used (requests e) = {#}) \<and> length b \<le> cap \<and>
    (\<forall>r\<in>set b. d_from r = d_from (hd b) \<and> heading (d_from r) (d_to r) = direction e') \<and>
    sorted (map (\<lambda>r. direction e' * d_to r) b) \<and>
    ((\<exists>q\<in>#used (requests e). ahead (direction e) (d_from q - at_floor e)) \<longrightarrow> ahead (direction e) (d_from (hd b) - at_floor e))"
  using assms(1,3)
proof (cases rule: collect_delivery_cases)
  case 1
  then show ?thesis by simp
next
  case (2 first rest fi rs)
  let ?dir = "heading (d_from first) (d_to first)"
  let ?P = "\<lambda>r. d_from r = d_from first \<and> heading (d_from r) (d_to r) = ?dir"
  have ms: "mset b = add_mset first (mset rest)" using 2(5) batch_order.exchange_sort_sorts(1) by simp
  then have st: "set b = insert first (set rest)" by (metis set_mset_add_mset_insert set_mset_mset)
  have u: "used (requests e) = mset b + used rs" "length rs = length (requests e)"
    using used_clear [OF 2(1,2)] take_batch_used [of ?P "cap - 1" "(requests e)[fi := None]"] 2(4) ms by simp_all
  have rest: "length rest \<le> cap - 1" "list_all ?P rest"
    using take_batch_matches(1) [of ?P "cap - 1" "(requests e)[fi := None]"] take_batch_matches(2) [of ?P "cap - 1" "(requests e)[fi := None]"] 2(4) by simp_all
  then have P: "\<forall>r\<in>set b. ?P r" by (auto simp: st list_all_iff)
  have ne: "b \<noteq> []" using ms by auto
  then have hd: "d_from (hd b) = d_from first" using P by simp
  have len: "length b \<le> cap" using arg_cong [OF ms, of size] rest(1) assms(2) by simp
  have "map (\<lambda>r. ?dir * d_to r) b = map (\<lambda>r. if ?dir > 0 then d_to r else - d_to r) b"
    using heading_cases [of "d_from first" "d_to first"] by auto
  then have sd: "sorted (map (\<lambda>r. ?dir * d_to r) b)"
    using batch_order.exchange_sort_sorts(2) [of ?dir "first # rest"] unfolding 2(5) by metis
  obtain r where "requests e ! fi = Some r"
    "(\<exists>q\<in>#used (requests e). ahead (direction e) (d_from q - at_floor e)) \<longrightarrow> ahead (direction e) (d_from r - at_floor e)"
    using first_idx_Some [OF 2(3) [unfolded first_delivery_idx_def]] by metis
  with 2(2) hd have pref: "(\<exists>q\<in>#used (requests e). ahead (direction e) (d_from q - at_floor e)) \<longrightarrow> ahead (direction e) (d_from (hd b) - at_floor e)"
    by simp
  have "used (requests e) \<noteq> {#}" using u ne by simp
  with u ne len P hd sd pref 2(6) show ?thesis by (intro conjI) auto
qed

definition sample_requests :: "DeliveryRequest list" where
  "sample_requests =
     [\<lparr>d_carrier = 0, d_from = 2, d_to = 5, d_word = 0, d_char = 0, d_ch = CHR ''a''\<rparr>,
      \<lparr>d_carrier = 1, d_from = 2, d_to = 3, d_word = 0, d_char = 1, d_ch = CHR ''b''\<rparr>,
      \<lparr>d_carrier = 2, d_from = 4, d_to = 3, d_word = 1, d_char = 0, d_ch = CHR ''c''\<rparr>]"

theorem delivery_batch_spec_witness:
  "\<exists>b e'. collect_delivery_batch 4 \<lparr>direction = 1, at_floor = 0, requests = map Some sample_requests, items = 3\<rparr> = (b, e') \<and>
     map d_to b = [3, 5] \<and> sorted (map (\<lambda>r. direction e' * d_to r) b)"
proof -
  let ?e = "\<lparr>direction = 1, at_floor = 0, requests = map Some sample_requests, items = 3\<rparr>"
  obtain b e' where c: "collect_delivery_batch 4 ?e = (b, e')" by (cases "collect_delivery_batch 4 ?e")
  have "map d_to (fst (collect_delivery_batch 4 ?e)) = [3, 5]" by code_simp
  with c delivery_batch_spec [OF c] show ?thesis by simp
qed

end
