(* ===== verification/Tower.thy ===== *)
theory Tower
  imports Tower_Word Tower_Elevator
begin

text \<open>
  The processes of the letter tower (\<open>HW3\<close>) as one transition function over the shared memory: word
  carriers (\<open>word_carrier.c\<close>), letter carriers (\<open>letter_carrier.c\<close>), sorters (\<open>sorting.c\<close>), the two
  elevators (\<open>elevator.c\<close>) and the parent (\<open>hw3.c\<close>). A step is one critical section of the code. The
  random searches are choices of the step. The increment of \<open>completed_words\<close>, which no common lock
  protects, is a read and a later write. Semaphores that are only waited on with a timeout, or only
  wake a process that checks the state again, have no state here.
\<close>

section \<open>State\<close>

abbreviation MAX_CARRIERS :: nat where "MAX_CARRIERS \<equiv> 512"

datatype carrier_pc = CIdle | CHolding nat nat | CWait | CExit

record CarrierState =
  current_floor :: int
  deliveries :: int
  repositions :: int
  direct_placements :: int
  event_sem :: nat
  cpc :: carrier_pc

datatype wcarrier_pc = WIdle | WClaimed nat | WReserved nat bool

record WCarrierState =
  wfloor :: int
  admissions :: int
  wretries :: int
  wpc :: wcarrier_pc

datatype sorter_pc = SIdle | SFinish nat int bool

record SorterState =
  sfloor :: int
  tasks :: int
  spc :: sorter_pc

record tower =
  words :: "SharedWord list"
  active_words :: "int list"
  carrier_count :: "int list"
  respawn_pending :: "bool list"
  carriers :: "CarrierState list"
  wcarriers :: "WCarrierState list"
  sorters :: "SorterState list"
  delivery :: "DeliveryRequest elevator"
  delivery_woken :: bool
  delivery_batch :: "DeliveryRequest list"
  reposition :: "RepositionRequest elevator"
  reposition_woken :: bool
  reposition_batch :: "RepositionRequest list"
  completed_words :: int
  rr_cursor :: nat
  retries :: int
  chars_transported :: int
  delivery_ops :: int
  reposition_ops :: int
  num_floors :: nat
  max_words_per_floor :: int
  letter_carriers_per_floor :: nat
  delivery_capacity :: nat
  reposition_capacity :: nat
  parent_done :: bool
  failed :: bool

abbreviation total_words :: "tower \<Rightarrow> nat" where "total_words st \<equiv> length (words st)"

definition set_word :: "nat \<Rightarrow> SharedWord \<Rightarrow> tower \<Rightarrow> tower" where
  "set_word wi w st = st\<lparr>words := (words st)[wi := w]\<rparr>"

definition set_carrier :: "nat \<Rightarrow> CarrierState \<Rightarrow> tower \<Rightarrow> tower" where
  "set_carrier c cs st = st\<lparr>carriers := (carriers st)[c := cs]\<rparr>"

text \<open>The mutex of a word is held across steps only by a sorter that completes the word.\<close>

definition word_locked :: "nat \<Rightarrow> tower \<Rightarrow> bool" where
  "word_locked wi st = list_ex (\<lambda>s. case spc s of SFinish k _ _ \<Rightarrow> k = wi | SIdle \<Rightarrow> False) (sorters st)"

definition add_at :: "int list \<Rightarrow> int \<Rightarrow> int \<Rightarrow> int list" where
  "add_at xs f d = xs[nat f := xs ! nat f + d]"

section \<open>Slots and floors\<close>

definition new_carrier :: "int \<Rightarrow> CarrierState" where
  "new_carrier f = \<lparr>current_floor = f, deliveries = 0, repositions = 0, direct_placements = 0, event_sem = 0, cpc = CIdle\<rparr>"

definition reserve_carrier_slot :: "int \<Rightarrow> tower \<Rightarrow> tower option" where
  "reserve_carrier_slot f st =
     (if length (carriers st) < MAX_CARRIERS
      then Some (st\<lparr>carriers := carriers st @ [new_carrier f], carrier_count := add_at (carrier_count st) f 1,
                    respawn_pending := (respawn_pending st)[nat f := False]\<rparr>)
      else None)"

definition move_carrier_between_floors :: "nat \<Rightarrow> int \<Rightarrow> tower \<Rightarrow> tower" where
  "move_carrier_between_floors c to_floor st =
     (let carrier = carriers st ! c; old = current_floor carrier in
      if old = to_floor then st
      else let counts = add_at (add_at (carrier_count st) old (- 1)) to_floor 1;
               pending = (respawn_pending st)[nat to_floor := False];
               now_empty = (carrier_count st ! nat old - 1 = 0);
               pending' = (if now_empty \<and> 0 \<le> old \<and> old < int (num_floors st) \<and> counts ! nat old = 0 \<and> \<not> pending ! nat old
                           then pending[nat old := True] else pending)
           in set_carrier c (carrier\<lparr>current_floor := to_floor\<rparr>) (st\<lparr>carrier_count := counts, respawn_pending := pending'\<rparr>))"

section \<open>Word carriers\<close>

text \<open>The round-robin scan for an unclaimed word.\<close>

definition unclaimed :: "SharedWord \<Rightarrow> bool" where
  "unclaimed w \<longleftrightarrow> \<not> claimed w \<and> \<not> admitted w \<and> \<not> completed w"

fun scan_words :: "tower \<Rightarrow> nat list \<Rightarrow> nat option" where
  "scan_words st [] = None"
| "scan_words st (seen # ss) =
     (let idx = (rr_cursor st + seen) mod total_words st in
      if unclaimed (words st ! idx) then Some idx else scan_words st ss)"

definition set_wcarrier :: "nat \<Rightarrow> WCarrierState \<Rightarrow> tower \<Rightarrow> tower" where
  "set_wcarrier k c st = st\<lparr>wcarriers := (wcarriers st)[k := c]\<rparr>"

definition claim_word :: "nat \<Rightarrow> tower \<Rightarrow> tower option" where
  "claim_word k st =
     (case scan_words st [0..<total_words st] of
        None \<Rightarrow> None
      | Some idx \<Rightarrow>
          Some (set_wcarrier k ((wcarriers st ! k)\<lparr>wpc := WClaimed idx\<rparr>)
            (set_word idx ((words st ! idx)\<lparr>claimed := True, claim_owner := int k\<rparr>)
              (st\<lparr>rr_cursor := (idx + 1) mod total_words st\<rparr>))))"

definition reserve_floors :: "nat \<Rightarrow> nat \<Rightarrow> tower \<Rightarrow> tower" where
  "reserve_floors k ci st =
     (let af = wfloor (wcarriers st ! k); sf = sorting_floor (words st ! ci); same = (af = sf);
          ok = (active_words st ! nat af < max_words_per_floor st \<and> (same \<or> active_words st ! nat sf < max_words_per_floor st));
          aw = (if ok then (if same then add_at (active_words st) af 1 else add_at (add_at (active_words st) af 1) sf 1)
                else active_words st)
      in set_wcarrier k ((wcarriers st ! k)\<lparr>wpc := WReserved ci ok\<rparr>) (st\<lparr>active_words := aw\<rparr>))"

definition admit_word :: "nat \<Rightarrow> nat \<Rightarrow> bool \<Rightarrow> tower \<Rightarrow> tower" where
  "admit_word k ci ok st =
     (let c = wcarriers st ! k; w = words st ! ci in
      if ok
      then set_wcarrier k (c\<lparr>wpc := WIdle, admissions := admissions c + 1\<rparr>)
             (set_word ci (w\<lparr>admitted := True, arrival_floor := wfloor c, active_reservation := True\<rparr>) st)
      else set_wcarrier k (c\<lparr>wpc := WIdle, wretries := wretries c + 1\<rparr>)
             (set_word ci (w\<lparr>claimed := False, claim_owner := - 1\<rparr>) (st\<lparr>retries := retries st + 1\<rparr>)))"

definition wcarrier_step :: "nat \<Rightarrow> tower \<Rightarrow> tower option" where
  "wcarrier_step k st =
     (if k \<ge> length (wcarriers st) then None
      else case wpc (wcarriers st ! k) of
        WIdle \<Rightarrow> claim_word k st
      | WClaimed ci \<Rightarrow> Some (reserve_floors k ci st)
      | WReserved ci ok \<Rightarrow> if word_locked ci st then None else Some (admit_word k ci ok st))"

section \<open>Letter carriers\<close>

text \<open>The searches pick a letter at random and may miss one: the outcome is a choice.\<close>

datatype pick = Pick nat nat | NoTask int

definition idle_carrier_step :: "nat \<Rightarrow> pick \<Rightarrow> tower \<Rightarrow> tower option" where
  "idle_carrier_step c choice st =
     (let cs = carriers st ! c in
      case choice of
        Pick wi ci \<Rightarrow>
          if wi < total_words st \<and> \<not> word_locked wi st \<and> admitted (words st ! wi) \<and> \<not> completed (words st ! wi) \<and>
             arrival_floor (words st ! wi) = current_floor cs \<and> claimable ci (words st ! wi)
          then Some (set_carrier c (cs\<lparr>cpc := CHolding wi ci\<rparr>) (set_word wi (claim_char ci (words st ! wi)) st))
          else None
      | NoTask tf \<Rightarrow>
          if completed_words st \<ge> int (total_words st) then Some (set_carrier c (cs\<lparr>cpc := CExit\<rparr>) st)
          else if 0 \<le> tf \<and> tf < int (num_floors st) \<and> (num_floors st > 1 \<longrightarrow> tf \<noteq> current_floor cs)
          then (case enqueue_reposition \<lparr>r_carrier = c, r_from = current_floor cs, r_to = tf\<rparr> (reposition st) of
                  None \<Rightarrow> Some (st\<lparr>failed := True\<rparr>)
                | Some e \<Rightarrow> Some (set_carrier c (cs\<lparr>cpc := CWait\<rparr>) (st\<lparr>reposition := e\<rparr>)))
          else None)"

definition count_transported :: "bool \<Rightarrow> tower \<Rightarrow> tower" where
  "count_transported ok st = (if ok then st\<lparr>chars_transported := chars_transported st + 1\<rparr> else st)"

definition holding_carrier_step :: "nat \<Rightarrow> nat \<Rightarrow> nat \<Rightarrow> tower \<Rightarrow> tower option" where
  "holding_carrier_step c wi ci st =
     (let cs = carriers st ! c; w = words st ! wi in
      if sorting_floor w = current_floor cs
      then (if word_locked wi st then None
            else case deliver_char ci w of (ok, w') \<Rightarrow>
              Some (set_carrier c (cs\<lparr>cpc := CIdle, direct_placements := direct_placements cs + (if ok then 1 else 0)\<rparr>)
                (set_word wi w' (count_transported ok st))))
      else case enqueue_delivery \<lparr>d_carrier = c, d_from = current_floor cs, d_to = sorting_floor w, d_word = wi, d_char = ci, d_ch = wtext w ! ci\<rparr>
                  (delivery st) of
             None \<Rightarrow> Some (st\<lparr>failed := True\<rparr>)
           | Some e \<Rightarrow> Some (set_carrier c (cs\<lparr>cpc := CWait\<rparr>) (st\<lparr>delivery := e\<rparr>)))"

definition carrier_step :: "nat \<Rightarrow> pick \<Rightarrow> tower \<Rightarrow> tower option" where
  "carrier_step c choice st =
     (if c \<ge> length (carriers st) then None
      else let cs = carriers st ! c in
        case cpc cs of
          CIdle \<Rightarrow> idle_carrier_step c choice st
        | CHolding wi ci \<Rightarrow> holding_carrier_step c wi ci st
        | CWait \<Rightarrow> if event_sem cs = 0 then None else Some (set_carrier c (cs\<lparr>event_sem := event_sem cs - 1, cpc := CIdle\<rparr>) st)
        | CExit \<Rightarrow> None)"

section \<open>Sorters\<close>

definition set_sorter :: "nat \<Rightarrow> SorterState \<Rightarrow> tower \<Rightarrow> tower" where
  "set_sorter k s st = st\<lparr>sorters := (sorters st)[k := s]\<rparr>"

text \<open>A pass of sorter \<open>k\<close> over word \<open>wi\<close>. When it completes the word, the counter is read here and
  written in the next step, \<open>finish_word\<close>.\<close>

definition sorter_pass :: "nat \<Rightarrow> nat \<Rightarrow> tower \<Rightarrow> tower option" where
  "sorter_pass k wi st =
     (let s = sorters st ! k; w = words st ! wi in
      if wi \<ge> total_words st \<or> word_locked wi st \<or> \<not> admitted w \<or> completed w \<or> sorting_floor w \<noteq> sfloor s then None
      else case sort_word w of (progress, w1) \<Rightarrow>
        if all_fixed w1 \<and> \<not> completed w1
        then Some (set_sorter k (s\<lparr>spc := SFinish wi (completed_words st) progress\<rparr>) (set_word wi (w1\<lparr>completed := True\<rparr>) st))
        else Some (set_sorter k (s\<lparr>tasks := tasks s + (if progress then 1 else 0)\<rparr>) (set_word wi w1 st)))"

definition release_floors :: "SharedWord \<Rightarrow> int list \<Rightarrow> int list" where
  "release_floors w aw =
     (let af = arrival_floor w; sf = sorting_floor w; aw1 = add_at aw af (- 1)
      in if sf \<noteq> af then add_at aw1 sf (- 1) else aw1)"

definition finish_word :: "nat \<Rightarrow> nat \<Rightarrow> int \<Rightarrow> bool \<Rightarrow> tower \<Rightarrow> tower" where
  "finish_word k wi v progress st =
     (let s = sorters st ! k; w = words st ! wi;
          st1 = st\<lparr>completed_words := v + 1\<rparr>;
          st2 = (if active_reservation w
                 then set_word wi (w\<lparr>active_reservation := False\<rparr>) (st1\<lparr>active_words := release_floors w (active_words st1)\<rparr>)
                 else st1)
      in set_sorter k (s\<lparr>spc := SIdle, tasks := tasks s + (if progress then 1 else 0)\<rparr>) st2)"

definition sorter_step :: "nat \<Rightarrow> nat \<Rightarrow> tower \<Rightarrow> tower option" where
  "sorter_step k wi st =
     (if k \<ge> length (sorters st) then None
      else case spc (sorters st ! k) of
        SIdle \<Rightarrow> sorter_pass k wi st
      | SFinish wj v progress \<Rightarrow> Some (finish_word k wj v progress st))"

section \<open>Elevators\<close>

definition serve_delivery :: "DeliveryRequest \<Rightarrow> DeliveryRequest list \<Rightarrow> tower \<Rightarrow> tower option" where
  "serve_delivery req rest st =
     (if word_locked (d_word req) st then None
      else case deliver_char (d_char req) (words st ! d_word req) of (ok, w') \<Rightarrow>
        let st1 = set_word (d_word req) w' (count_transported ok
                    (st\<lparr>delivery := (delivery st)\<lparr>at_floor := d_to req\<rparr>, delivery_ops := delivery_ops st + 1, delivery_batch := rest\<rparr>));
            st2 = move_carrier_between_floors (d_carrier req) (d_to req) st1;
            cs = carriers st2 ! d_carrier req
        in Some (set_carrier (d_carrier req) (cs\<lparr>deliveries := deliveries cs + 1, event_sem := event_sem cs + 1\<rparr>) st2))"

definition delivery_step :: "tower \<Rightarrow> tower option" where
  "delivery_step st =
     (case delivery_batch st of
        req # rest \<Rightarrow> serve_delivery req rest st
      | [] \<Rightarrow>
          if \<not> delivery_woken st
          then (if items (delivery st) = 0 then None
                else Some (st\<lparr>delivery := (delivery st)\<lparr>items := items (delivery st) - 1\<rparr>, delivery_woken := True\<rparr>))
          else case collect_delivery_batch (min (delivery_capacity st) 64) (delivery st) of (b, e) \<Rightarrow>
            let e' = (if b = [] then e
                      else let f = d_from (hd b);
                               dir = (if f > at_floor e then 1 else if f < at_floor e then - 1 else direction e)
                           in e\<lparr>direction := dir, at_floor := f\<rparr>)
            in Some (st\<lparr>delivery := e', delivery_woken := False, delivery_batch := b\<rparr>))"

definition serve_reposition :: "RepositionRequest \<Rightarrow> RepositionRequest list \<Rightarrow> tower \<Rightarrow> tower" where
  "serve_reposition req rest st =
     (let st1 = st\<lparr>reposition := (reposition st)\<lparr>at_floor := r_to req\<rparr>, reposition_ops := reposition_ops st + 1, reposition_batch := rest\<rparr>;
          st2 = move_carrier_between_floors (r_carrier req) (r_to req) st1;
          cs = carriers st2 ! r_carrier req
      in set_carrier (r_carrier req) (cs\<lparr>repositions := repositions cs + 1, event_sem := event_sem cs + 1\<rparr>) st2)"

definition reposition_step :: "tower \<Rightarrow> tower option" where
  "reposition_step st =
     (case reposition_batch st of
        req # rest \<Rightarrow> Some (serve_reposition req rest st)
      | [] \<Rightarrow>
          if \<not> reposition_woken st
          then (if items (reposition st) = 0 then None
                else Some (st\<lparr>reposition := (reposition st)\<lparr>items := items (reposition st) - 1\<rparr>, reposition_woken := True\<rparr>))
          else case collect_reposition_batch (min (reposition_capacity st) 64) (reposition st) of (b, e) \<Rightarrow>
            Some (st\<lparr>reposition := e, reposition_woken := False, reposition_batch := b\<rparr>))"

section \<open>The parent\<close>

fun spawn_letter_carriers :: "nat \<Rightarrow> int \<Rightarrow> tower \<Rightarrow> tower" where
  "spawn_letter_carriers 0 f st = st"
| "spawn_letter_carriers (Suc n) f st =
     (case reserve_carrier_slot f st of None \<Rightarrow> st\<lparr>failed := True\<rparr> | Some st' \<Rightarrow> spawn_letter_carriers n f st')"

text \<open>\<open>maybe_spawn_more_carriers\<close> for floor \<open>f\<close>.\<close>

definition maybe_spawn_more_carriers :: "nat \<Rightarrow> tower \<Rightarrow> tower option" where
  "maybe_spawn_more_carriers f st =
     (if f < num_floors st \<and> carrier_count st ! f = 0 \<and> respawn_pending st ! f \<and> completed_words st < int (total_words st)
      then Some (spawn_letter_carriers (letter_carriers_per_floor st) (int f) st) else None)"

definition parent_ends :: "tower \<Rightarrow> tower option" where
  "parent_ends st = (if completed_words st < int (total_words st) then None else Some (st\<lparr>parent_done := True\<rparr>))"

section \<open>The system\<close>

datatype tower_actor = Word_carrier nat | Letter_carrier nat pick | Sorter nat nat | Delivery_elevator | Reposition_elevator | Respawn nat | Parent_end

definition tstep :: "tower_actor \<Rightarrow> tower \<Rightarrow> tower option" where
  "tstep a st =
     (if failed st \<or> parent_done st then None
      else case a of
        Word_carrier k \<Rightarrow> wcarrier_step k st
      | Letter_carrier c choice \<Rightarrow> carrier_step c choice st
      | Sorter k wi \<Rightarrow> sorter_step k wi st
      | Delivery_elevator \<Rightarrow> delivery_step st
      | Reposition_elevator \<Rightarrow> reposition_step st
      | Respawn f \<Rightarrow> maybe_spawn_more_carriers f st
      | Parent_end \<Rightarrow> parent_ends st)"

fun trun :: "tower_actor list \<Rightarrow> tower \<Rightarrow> tower option" where
  "trun [] st = Some st"
| "trun (a # as) st = (case tstep a st of None \<Rightarrow> None | Some st' \<Rightarrow> trun as st')"

inductive treach :: "tower \<Rightarrow> tower \<Rightarrow> bool" for st0 where
  start: "treach st0 st0"
| step: "treach st0 st \<Longrightarrow> tstep a st = Some st' \<Longrightarrow> treach st0 st'"

end
