(* ===== verification/Tower_Letters.thy ===== *)
theory Tower_Letters
  imports Tower
begin

text \<open>
  The letters of the tower: in every reachable state each letter that left its arrival floor is in
  exactly one place, the sorting areas are consistent, and each waiting carrier has exactly one request.
  So no delivery is refused and no request table overflows.
\<close>

named_theorems tower_simps \<open>how the helpers change the components of the state\<close>

section \<open>Frame facts\<close>

lemma set_word_frame [tower_simps, simp]:
  "words (set_word wi w st) = (words st)[wi := w]" "active_words (set_word wi w st) = active_words st"
  "carriers (set_word wi w st) = carriers st" "wcarriers (set_word wi w st) = wcarriers st" "sorters (set_word wi w st) = sorters st"
  "delivery (set_word wi w st) = delivery st" "delivery_batch (set_word wi w st) = delivery_batch st"
  "reposition (set_word wi w st) = reposition st" "reposition_batch (set_word wi w st) = reposition_batch st"
  "completed_words (set_word wi w st) = completed_words st" "num_floors (set_word wi w st) = num_floors st"
  "max_words_per_floor (set_word wi w st) = max_words_per_floor st" "parent_done (set_word wi w st) = parent_done st"
  "failed (set_word wi w st) = failed st"
  by (simp_all add: set_word_def)

lemma set_carrier_frame [tower_simps, simp]:
  "words (set_carrier c cs st) = words st" "active_words (set_carrier c cs st) = active_words st"
  "carriers (set_carrier c cs st) = (carriers st)[c := cs]" "wcarriers (set_carrier c cs st) = wcarriers st"
  "sorters (set_carrier c cs st) = sorters st"
  "delivery (set_carrier c cs st) = delivery st" "delivery_batch (set_carrier c cs st) = delivery_batch st"
  "reposition (set_carrier c cs st) = reposition st" "reposition_batch (set_carrier c cs st) = reposition_batch st"
  "completed_words (set_carrier c cs st) = completed_words st" "num_floors (set_carrier c cs st) = num_floors st"
  "max_words_per_floor (set_carrier c cs st) = max_words_per_floor st" "parent_done (set_carrier c cs st) = parent_done st"
  "failed (set_carrier c cs st) = failed st"
  by (simp_all add: set_carrier_def)

lemma set_wcarrier_frame [tower_simps, simp]:
  "words (set_wcarrier k c st) = words st" "active_words (set_wcarrier k c st) = active_words st"
  "carriers (set_wcarrier k c st) = carriers st" "wcarriers (set_wcarrier k c st) = (wcarriers st)[k := c]"
  "sorters (set_wcarrier k c st) = sorters st"
  "delivery (set_wcarrier k c st) = delivery st" "delivery_batch (set_wcarrier k c st) = delivery_batch st"
  "reposition (set_wcarrier k c st) = reposition st" "reposition_batch (set_wcarrier k c st) = reposition_batch st"
  "completed_words (set_wcarrier k c st) = completed_words st" "num_floors (set_wcarrier k c st) = num_floors st"
  "max_words_per_floor (set_wcarrier k c st) = max_words_per_floor st" "parent_done (set_wcarrier k c st) = parent_done st"
  "failed (set_wcarrier k c st) = failed st"
  by (simp_all add: set_wcarrier_def)

lemma set_sorter_frame [tower_simps, simp]:
  "words (set_sorter k s st) = words st" "active_words (set_sorter k s st) = active_words st"
  "carriers (set_sorter k s st) = carriers st" "wcarriers (set_sorter k s st) = wcarriers st"
  "sorters (set_sorter k s st) = (sorters st)[k := s]"
  "delivery (set_sorter k s st) = delivery st" "delivery_batch (set_sorter k s st) = delivery_batch st"
  "reposition (set_sorter k s st) = reposition st" "reposition_batch (set_sorter k s st) = reposition_batch st"
  "completed_words (set_sorter k s st) = completed_words st" "num_floors (set_sorter k s st) = num_floors st"
  "max_words_per_floor (set_sorter k s st) = max_words_per_floor st" "parent_done (set_sorter k s st) = parent_done st"
  "failed (set_sorter k s st) = failed st"
  by (simp_all add: set_sorter_def)

lemma count_transported_frame [tower_simps, simp]:
  "words (count_transported ok st) = words st" "active_words (count_transported ok st) = active_words st"
  "carriers (count_transported ok st) = carriers st" "wcarriers (count_transported ok st) = wcarriers st"
  "sorters (count_transported ok st) = sorters st"
  "delivery (count_transported ok st) = delivery st" "delivery_batch (count_transported ok st) = delivery_batch st"
  "reposition (count_transported ok st) = reposition st" "reposition_batch (count_transported ok st) = reposition_batch st"
  "completed_words (count_transported ok st) = completed_words st" "num_floors (count_transported ok st) = num_floors st"
  "max_words_per_floor (count_transported ok st) = max_words_per_floor st" "parent_done (count_transported ok st) = parent_done st"
  "failed (count_transported ok st) = failed st"
  by (simp_all add: count_transported_def)

lemma move_carrier_frame [tower_simps, simp]:
  "words (move_carrier_between_floors c f st) = words st" "active_words (move_carrier_between_floors c f st) = active_words st"
  "wcarriers (move_carrier_between_floors c f st) = wcarriers st" "sorters (move_carrier_between_floors c f st) = sorters st"
  "delivery (move_carrier_between_floors c f st) = delivery st" "delivery_batch (move_carrier_between_floors c f st) = delivery_batch st"
  "reposition (move_carrier_between_floors c f st) = reposition st" "reposition_batch (move_carrier_between_floors c f st) = reposition_batch st"
  "completed_words (move_carrier_between_floors c f st) = completed_words st" "num_floors (move_carrier_between_floors c f st) = num_floors st"
  "max_words_per_floor (move_carrier_between_floors c f st) = max_words_per_floor st" "parent_done (move_carrier_between_floors c f st) = parent_done st"
  "failed (move_carrier_between_floors c f st) = failed st"
  by (simp_all add: move_carrier_between_floors_def Let_def)

lemma move_carrier_carriers [tower_simps, simp]:
  "carriers (move_carrier_between_floors c f st) = (carriers st)[c := (carriers st ! c)\<lparr>current_floor := f\<rparr>]"
  by (auto simp: move_carrier_between_floors_def Let_def)

section \<open>The invariant\<close>

definition carrier_token :: "CarrierState \<Rightarrow> (nat \<times> nat) multiset" where
  "carrier_token cs = (case cpc cs of CHolding wi ci \<Rightarrow> {#(wi, ci)#} | _ \<Rightarrow> {#})"

definition request_token :: "DeliveryRequest \<Rightarrow> nat \<times> nat" where
  "request_token r = (d_word r, d_char r)"

text \<open>The letters on their way: in the hand of a carrier, in the request table, in the elevator.\<close>

definition tokens :: "tower \<Rightarrow> (nat \<times> nat) multiset" where
  "tokens st = sum_list (map carrier_token (carriers st)) + image_mset request_token (used (requests (delivery st))) +
     image_mset request_token (mset (delivery_batch st))"

text \<open>The carriers whose request is in one of the tables or elevators.\<close>

definition waiting :: "tower \<Rightarrow> nat multiset" where
  "waiting st = image_mset d_carrier (used (requests (delivery st)) + mset (delivery_batch st)) +
     image_mset r_carrier (used (requests (reposition st)) + mset (reposition_batch st))"

definition in_transit :: "tower \<Rightarrow> nat \<Rightarrow> nat \<Rightarrow> bool" where
  "in_transit st wi ci \<longleftrightarrow> wi < total_words st \<and> ci < wlen (words st ! wi) \<and> char_in_transit (words st ! wi) ! ci"

definition words_inv :: "tower \<Rightarrow> bool" where
  "words_inv st \<longleftrightarrow> (\<forall>wi<total_words st. word_ok (words st ! wi))"

definition token_inv :: "tower \<Rightarrow> bool" where
  "token_inv st \<longleftrightarrow> (\<forall>wi ci. count (tokens st) (wi, ci) = of_bool (in_transit st wi ci))"

definition idle_wait :: "CarrierState \<Rightarrow> bool" where
  "idle_wait cs \<longleftrightarrow> cpc cs = CWait \<and> event_sem cs = 0"

definition wait_inv :: "tower \<Rightarrow> bool" where
  "wait_inv st \<longleftrightarrow>
     (\<forall>c. count (waiting st) c = of_bool (c < length (carriers st) \<and> idle_wait (carriers st ! c))) \<and>
     (\<forall>c<length (carriers st). event_sem (carriers st ! c) \<le> 1 \<and> (cpc (carriers st ! c) \<noteq> CWait \<longrightarrow> event_sem (carriers st ! c) = 0))"

definition table_inv :: "tower \<Rightarrow> bool" where
  "table_inv st \<longleftrightarrow> length (requests (delivery st)) = MAX_REQUESTS \<and> length (requests (reposition st)) = MAX_REQUESTS \<and>
     direction (delivery st) \<noteq> 0 \<and> direction (reposition st) \<noteq> 0 \<and> length (carriers st) \<le> MAX_CARRIERS"

definition letters_inv :: "tower \<Rightarrow> bool" where
  "letters_inv st \<longleftrightarrow> words_inv st \<and> token_inv st \<and> wait_inv st \<and> table_inv st"

lemma sum_list_map_update_add:
  fixes f :: "'a \<Rightarrow> 'b::comm_monoid_add"
  assumes "i < length xs"
  shows "sum_list (map f (xs[i := v])) + f (xs ! i) = sum_list (map f xs) + f v"
  using assms
proof (induction xs arbitrary: i)
  case (Cons x xs)
  show ?case
  proof (cases i)
    case (Suc n)
    with Cons.IH [of n] Cons.prems show ?thesis by (simp add: add.assoc)
  qed (simp add: ac_simps)
qed simp

lemma carrier_tokens_update:
  assumes "c < length cs" "carrier_token v = carrier_token (cs ! c)"
  shows "sum_list (map carrier_token (cs[c := v])) = sum_list (map carrier_token cs)"
  using sum_list_map_update_add [OF assms(1), of carrier_token v] assms(2) by simp

lemma carrier_token_simps [simp]:
  "cpc cs = CHolding wi ci \<Longrightarrow> carrier_token cs = {#(wi, ci)#}" "cpc cs = CIdle \<Longrightarrow> carrier_token cs = {#}"
  "cpc cs = CWait \<Longrightarrow> carrier_token cs = {#}" "cpc cs = CExit \<Longrightarrow> carrier_token cs = {#}"
  by (simp_all add: carrier_token_def)

lemma size_le_bound:
  assumes "\<And>c. count M c \<le> of_bool (c < n)"
  shows "size M \<le> n"
proof -
  have "M \<subseteq># mset_set {..<n}"
  proof (rule mset_subset_eqI)
    fix c show "count M c \<le> count (mset_set {..<n}) c"
      using assms [of c] by (simp add: count_mset_set' of_bool_def split: if_splits)
  qed
  from size_mset_mono [OF this] show ?thesis by simp
qed

text \<open>Every waiting carrier has one request, so the tables have room for the others.\<close>

lemma tables_have_room:
  assumes "wait_inv st" "table_inv st"
  shows "put_request r (requests (delivery st)) \<noteq> None" "put_request r' (requests (reposition st)) \<noteq> None"
proof -
  have "size (waiting st) \<le> length (carriers st)"
    using assms(1) by (intro size_le_bound) (simp add: wait_inv_def)
  then have "size (used (requests (delivery st))) + size (used (requests (reposition st))) \<le> MAX_CARRIERS"
    using assms(2) by (simp add: waiting_def table_inv_def)
  then show "put_request r (requests (delivery st)) \<noteq> None" "put_request r' (requests (reposition st)) \<noteq> None"
    using assms(2) by (intro put_request_room; simp add: table_inv_def)+
qed

section \<open>Preservation: words\<close>

definition same_traffic :: "tower \<Rightarrow> tower \<Rightarrow> bool" where
  "same_traffic st st' \<longleftrightarrow> carriers st' = carriers st \<and> delivery st' = delivery st \<and> delivery_batch st' = delivery_batch st \<and>
     reposition st' = reposition st \<and> reposition_batch st' = reposition_batch st"

lemma in_transit_update:
  assumes "wi < total_words st" "wtext w' = wtext (words st ! wi)" "words st' = (words st)[wi := w']"
  shows "in_transit st' x ci \<longleftrightarrow> (if x = wi then ci < wlen w' \<and> char_in_transit w' ! ci else in_transit st x ci)"
  using assms by (auto simp: in_transit_def)

lemma words_inv_update:
  "words_inv st \<Longrightarrow> word_ok w' \<Longrightarrow> words st' = (words st)[wi := w'] \<Longrightarrow> words_inv st'"
  by (cases "wi < total_words st") (auto simp: words_inv_def nth_list_update)

lemma letters_word_update:
  assumes inv: "letters_inv st" and wi: "wi < total_words st" and st': "words st' = (words st)[wi := w']" "same_traffic st st'"
    and w': "word_ok w'" "wtext w' = wtext (words st ! wi)" "char_in_transit w' = char_in_transit (words st ! wi)"
  shows "letters_inv st'"
proof -
  have "tokens st' = tokens st" "waiting st' = waiting st" using st'(2) by (auto simp: same_traffic_def tokens_def waiting_def)
  moreover have "in_transit st' x ci = in_transit st x ci" for x ci
    using in_transit_update [OF wi w'(2) st'(1)] w' wi by (auto simp: in_transit_def)
  ultimately show ?thesis
    using inv words_inv_update [OF _ w'(1) st'(1)] st'(2)
    by (simp add: letters_inv_def token_inv_def wait_inv_def table_inv_def same_traffic_def)
qed

lemma letters_same:
  assumes "letters_inv st" "words st' = words st" "same_traffic st st'"
  shows "letters_inv st'"
  using assms
  by (simp add: letters_inv_def words_inv_def token_inv_def wait_inv_def table_inv_def same_traffic_def tokens_def waiting_def in_transit_def)

lemma word_ok_frame [simp]:
  "word_ok (w\<lparr>claimed := a\<rparr>) = word_ok w" "word_ok (w\<lparr>claim_owner := o'\<rparr>) = word_ok w"
  "word_ok (w\<lparr>admitted := a\<rparr>) = word_ok w" "word_ok (w\<lparr>arrival_floor := f\<rparr>) = word_ok w"
  "word_ok (w\<lparr>active_reservation := a\<rparr>) = word_ok w"
  by (simp_all add: word_ok_def sizes_ok_def slots_ok_def chars_ok_def all_fixed_def)

lemma scan_words_Some: "scan_words st ss = Some i \<Longrightarrow> 0 < total_words st \<Longrightarrow> i < total_words st \<and> unclaimed (words st ! i)"
  by (induction st ss rule: scan_words.induct) (auto simp: Let_def split: if_splits)

lemma scan_words_found: "scan_words st [0..<total_words st] = Some i \<Longrightarrow> i < total_words st \<and> unclaimed (words st ! i)"
  by (rule scan_words_Some) (auto intro: Suc_leI split: if_splits)

text \<open>The word a word carrier has claimed.\<close>

definition claim_of :: "WCarrierState \<Rightarrow> nat multiset" where
  "claim_of c = (case wpc c of WIdle \<Rightarrow> {#} | WClaimed ci \<Rightarrow> {#ci#} | WReserved ci ok \<Rightarrow> {#ci#})"

definition claims_inv :: "tower \<Rightarrow> bool" where
  "claims_inv st \<longleftrightarrow> (\<forall>ci. count (sum_list (map claim_of (wcarriers st))) ci =
     of_bool (ci < total_words st \<and> claimed (words st ! ci) \<and> \<not> admitted (words st ! ci)))"

definition claimed_word :: "wcarrier_pc \<Rightarrow> nat option" where
  "claimed_word pc = (case pc of WIdle \<Rightarrow> None | WClaimed ci \<Rightarrow> Some ci | WReserved ci ok \<Rightarrow> Some ci)"

lemma sum_list_mset_member: "x \<in> set xs \<Longrightarrow> y \<in># f x \<Longrightarrow> y \<in># sum_list (map f xs)"
  by (induction xs) auto

lemma claims_invD:
  assumes "claims_inv st" "k < length (wcarriers st)" "claimed_word (wpc (wcarriers st ! k)) = Some ci"
  shows "ci < total_words st" "claimed (words st ! ci)" "\<not> admitted (words st ! ci)"
proof -
  have "ci \<in># claim_of (wcarriers st ! k)"
    using assms(3) by (auto simp: claim_of_def claimed_word_def split: wcarrier_pc.splits)
  then have "ci \<in># sum_list (map claim_of (wcarriers st))" using assms(2) by (intro sum_list_mset_member) auto
  then have "count (sum_list (map claim_of (wcarriers st))) ci \<noteq> 0" by simp
  then show "ci < total_words st" "claimed (words st ! ci)" "\<not> admitted (words st ! ci)"
    using assms(1) by (auto simp: claims_inv_def of_bool_def split: if_splits)
qed

lemma letters_wcarrier:
  assumes inv: "letters_inv st" "claims_inv st" and s: "wcarrier_step k st = Some st'"
  shows "letters_inv st'"
proof -
  have k: "k < length (wcarriers st)" using s by (auto simp: wcarrier_step_def split: if_splits)
  have ok: "word_ok (words st ! wi)" if "wi < total_words st" for wi using inv that by (simp add: letters_inv_def words_inv_def)
  show ?thesis
  proof (cases "wpc (wcarriers st ! k)")
    case WIdle
    with s k obtain i where i: "scan_words st [0..<total_words st] = Some i"
      and st': "st' = set_wcarrier k ((wcarriers st ! k)\<lparr>wpc := WClaimed i\<rparr>)
            (set_word i ((words st ! i)\<lparr>claimed := True, claim_owner := int k\<rparr>) (st\<lparr>rr_cursor := (i + 1) mod total_words st\<rparr>))"
      by (auto simp: wcarrier_step_def claim_word_def split: option.splits)
    have i: "i < total_words st" using scan_words_found [OF i] by simp
    with ok show ?thesis unfolding st'
      by (intro letters_word_update [OF inv(1) i, where w' = "(words st ! i)\<lparr>claimed := True, claim_owner := int k\<rparr>"])
        (simp_all add: same_traffic_def)
  next
    case (WClaimed ci)
    with s k show ?thesis
      by (intro letters_same [OF inv(1)]) (auto simp: wcarrier_step_def reserve_floors_def Let_def same_traffic_def)
  next
    case (WReserved ci b)
    then have ci: "ci < total_words st" using claims_invD(1) [OF inv(2) k] by (simp add: claimed_word_def)
    from s k WReserved have st': "st' = admit_word k ci b st" by (auto simp: wcarrier_step_def split: if_splits)
    show ?thesis
    proof (cases b)
      case True
      with ok [OF ci] show ?thesis unfolding st' admit_word_def
        by (intro letters_word_update [OF inv(1) ci, where w' = "(words st ! ci)\<lparr>admitted := True, arrival_floor := wfloor (wcarriers st ! k), active_reservation := True\<rparr>"])
          (simp_all add: Let_def same_traffic_def)
    next
      case False
      with ok [OF ci] show ?thesis unfolding st' admit_word_def
        by (intro letters_word_update [OF inv(1) ci, where w' = "(words st ! ci)\<lparr>claimed := False, claim_owner := - 1\<rparr>"])
          (simp_all add: Let_def same_traffic_def)
    qed
  qed
qed

lemma sort_word_sorts:
  assumes "word_ok w" "\<not> completed w" "sort_word w = (p, w1)"
  shows "sorts_to w w1"
  using sort_pass_sorts [OF assms(1,2)] assms(3) by (simp add: sort_pass_def)

lemma word_ok_complete: "word_ok w \<Longrightarrow> all_fixed w \<Longrightarrow> word_ok (w\<lparr>completed := True\<rparr>)"
  by (simp add: word_ok_def sizes_ok_def slots_ok_def chars_ok_def all_fixed_def)

lemma letters_sorter:
  assumes inv: "letters_inv st" and s: "sorter_step k wi st = Some st'"
  shows "letters_inv st'"
proof (cases "spc (sorters st ! k)")
  case SIdle
  with s have p: "sorter_pass k wi st = Some st'" by (auto simp: sorter_step_def split: if_splits)
  let ?w = "words st ! wi"
  obtain b w1 where w1: "sort_word ?w = (b, w1)" by (cases "sort_word ?w")
  from p have wi: "wi < total_words st" and nc: "\<not> completed ?w" by (auto simp: sorter_pass_def Let_def split: if_splits)
  have ok: "word_ok ?w" using inv wi by (simp add: letters_inv_def words_inv_def)
  note so = sort_word_sorts [OF ok nc w1]
  from p w1 wi obtain s' w' where st': "st' = set_sorter k s' (set_word wi w' st)"
    and w': "w' = w1 \<or> all_fixed w1 \<and> w' = w1\<lparr>completed := True\<rparr>"
    by (auto simp: sorter_pass_def Let_def split: if_splits)
  have "word_ok w'" "wtext w' = wtext ?w" "char_in_transit w' = char_in_transit ?w"
    using so w' word_ok_complete [of w1] by (auto simp: sorts_to_def)
  then show ?thesis unfolding st' by (intro letters_word_update [OF inv wi, where w' = w']) (simp_all add: same_traffic_def)
next
  case (SFinish wj v b)
  with s have st': "st' = finish_word k wj v b st" by (auto simp: sorter_step_def split: if_splits)
  let ?w = "words st ! wj"
  show ?thesis
  proof (cases "active_reservation ?w \<and> wj < total_words st")
    case True
    then have "word_ok ?w" using inv by (simp add: letters_inv_def words_inv_def)
    with True show ?thesis unfolding st'
      by (intro letters_word_update [OF inv, where wi = wj and w' = "?w\<lparr>active_reservation := False\<rparr>"])
        (simp_all add: finish_word_def Let_def same_traffic_def)
  next
    case False
    then show ?thesis unfolding st'
      by (intro letters_same [OF inv]) (auto simp: finish_word_def Let_def same_traffic_def list_update_beyond)
  qed
qed

section \<open>Preservation: traffic\<close>

lemma wait_inv_carrier:
  assumes "wait_inv st" "c < length (carriers st)" "waiting st' = waiting st" "carriers st' = (carriers st)[c := cs']"
    "idle_wait cs' = idle_wait (carriers st ! c)" "event_sem cs' \<le> 1" "cpc cs' \<noteq> CWait \<Longrightarrow> event_sem cs' = 0"
  shows "wait_inv st'"
  using assms by (auto simp: wait_inv_def nth_list_update)

lemma wait_inv_enqueue:
  assumes "wait_inv st" "c < length (carriers st)" "waiting st' = add_mset c (waiting st)" "carriers st' = (carriers st)[c := cs']"
    "cpc (carriers st ! c) \<noteq> CWait" "cpc cs' = CWait" "event_sem cs' = 0"
  shows "wait_inv st'"
proof -
  have n: "\<not> idle_wait (carriers st ! c)" and i: "idle_wait cs'" using assms(5-7) by (auto simp: idle_wait_def)
  show ?thesis
    unfolding wait_inv_def
  proof (intro conjI allI impI)
    fix d show "count (waiting st') d = of_bool (d < length (carriers st') \<and> idle_wait (carriers st' ! d))"
      using assms(1-4) n i by (cases "d = c") (auto simp: wait_inv_def)
  qed (use assms in \<open>auto simp: wait_inv_def nth_list_update split: if_splits\<close>)
qed

lemma waiting_member:
  assumes "wait_inv st" "c \<in># waiting st"
  shows "c < length (carriers st)" "cpc (carriers st ! c) = CWait" "event_sem (carriers st ! c) = 0"
proof -
  have "count (waiting st) c \<noteq> 0" using assms(2) by simp
  then show "c < length (carriers st)" "cpc (carriers st ! c) = CWait" "event_sem (carriers st ! c) = 0"
    using assms(1) by (auto simp: wait_inv_def idle_wait_def of_bool_def split: if_splits)
qed

lemma wait_inv_served:
  assumes inv: "wait_inv st" and w: "waiting st = add_mset c (waiting st')" and cs: "carriers st' = (carriers st)[c := cs']"
    and cs': "cpc cs' = CWait" "event_sem cs' = 1"
  shows "wait_inv st'"
proof -
  have c: "c < length (carriers st)" "idle_wait (carriers st ! c)"
    using waiting_member [OF inv, of c] w by (auto simp: idle_wait_def)
  have cnt: "count (waiting st) d = of_bool (d < length (carriers st) \<and> idle_wait (carriers st ! d))" for d
    using inv by (simp add: wait_inv_def)
  show ?thesis
    unfolding wait_inv_def
  proof (intro conjI allI impI)
    fix d show "count (waiting st') d = of_bool (d < length (carriers st') \<and> idle_wait (carriers st' ! d))"
      using cnt [of d] c cs cs' w by (cases "d = c") (auto simp: idle_wait_def)
  qed (use inv cs cs' c in \<open>auto simp: wait_inv_def nth_list_update split: if_splits\<close>)
qed

text \<open>The letter of a carrier or request is on its way.\<close>

lemma token_in_transit:
  assumes "token_inv st" "(wi, ci) \<in># tokens st"
  shows "in_transit st wi ci"
proof -
  have "count (tokens st) (wi, ci) \<noteq> 0" using assms(2) by simp
  then show ?thesis using assms(1) by (auto simp: token_inv_def of_bool_def split: if_splits)
qed

lemma token_inv_delivered:
  assumes inv: "token_inv st" and t: "tokens st = add_mset (wi, ci) (tokens st')" and w: "words st' = (words st)[wi := w']"
    and w': "wtext w' = wtext (words st ! wi)" "char_in_transit w' = (char_in_transit (words st ! wi))[ci := False]"
    and sz: "length (char_in_transit (words st ! wi)) = wlen (words st ! wi)"
  shows "token_inv st'"
proof -
  have it: "in_transit st wi ci" using token_in_transit [OF inv] t by simp
  then have wi: "wi < total_words st" "ci < wlen (words st ! wi)" by (auto simp: in_transit_def)
  have cnt: "count (tokens st) x = of_bool (in_transit st (fst x) (snd x))" for x using inv by (cases x) (simp add: token_inv_def)
  show ?thesis
    unfolding token_inv_def
  proof (intro allI)
    fix a b
    have "in_transit st' a b \<longleftrightarrow> in_transit st a b \<and> (a, b) \<noteq> (wi, ci)"
      using in_transit_update [OF wi(1) w'(1) w] w' wi sz by (auto simp: in_transit_def nth_list_update)
    then show "count (tokens st') (a, b) = of_bool (in_transit st' a b)"
      using cnt [of "(a, b)"] it t by (cases "(a, b) = (wi, ci)") auto
  qed
qed

lemma token_inv_claimed:
  assumes inv: "token_inv st" and t: "tokens st' = add_mset (wi, ci) (tokens st)" and w: "words st' = (words st)[wi := claim_char ci (words st ! wi)]"
    and wi: "wi < total_words st" "claimable ci (words st ! wi)" and sz: "length (char_in_transit (words st ! wi)) = wlen (words st ! wi)"
  shows "token_inv st'"
  unfolding token_inv_def
proof (intro allI)
  fix a b
  have n: "\<not> in_transit st wi ci" using wi by (simp add: in_transit_def claimable_def)
  have "in_transit st' a b \<longleftrightarrow> in_transit st a b \<or> (a, b) = (wi, ci)"
    using in_transit_update [OF wi(1) _ w] wi sz by (auto simp: in_transit_def claim_char_def claimable_def nth_list_update)
  moreover have "count (tokens st) (a, b) = of_bool (in_transit st a b)" using inv by (simp add: token_inv_def)
  ultimately show "count (tokens st') (a, b) = of_bool (in_transit st' a b)"
    using t n by (cases "(a, b) = (wi, ci)") auto
qed

lemma letters_invD:
  assumes "letters_inv st"
  shows "words_inv st" "token_inv st" "wait_inv st" "table_inv st"
    and "wi < total_words st \<Longrightarrow> word_ok (words st ! wi)"
    and "wi < total_words st \<Longrightarrow> length (char_in_transit (words st ! wi)) = wlen (words st ! wi)"
  using assms by (auto simp: letters_inv_def words_inv_def dest!: word_okD(5) simp: sizes_ok_def)

lemma carrier_tokens_swap:
  assumes "c < length cs"
  shows "sum_list (map carrier_token (cs[c := v])) + carrier_token (cs ! c) = sum_list (map carrier_token cs) + carrier_token v"
  by (rule sum_list_map_update_add [OF assms])

lemma letters_pick:
  assumes inv: "letters_inv st" and c: "c < length (carriers st)" "cpc (carriers st ! c) = CIdle"
    and s: "idle_carrier_step c (Pick wi ci) st = Some st'"
  shows "letters_inv st'"
proof -
  let ?cs = "carriers st ! c"
  from s have wi: "wi < total_words st" "claimable ci (words st ! wi)"
    and st': "st' = set_carrier c (?cs\<lparr>cpc := CHolding wi ci\<rparr>) (set_word wi (claim_char ci (words st ! wi)) st)"
    by (auto simp: idle_carrier_step_def Let_def split: if_splits)
  have "token_inv st'"
    using carrier_tokens_swap [OF c(1), of "?cs\<lparr>cpc := CHolding wi ci\<rparr>"] c(2)
    by (intro token_inv_claimed [OF letters_invD(2) [OF inv] _ _ wi letters_invD(6) [OF inv wi(1)]]) (simp_all add: st' tokens_def)
  moreover have "wait_inv st'"
    using letters_invD(3) [OF inv] c
    by (intro wait_inv_carrier [OF letters_invD(3) [OF inv] c(1), where cs' = "?cs\<lparr>cpc := CHolding wi ci\<rparr>"])
      (auto simp: st' waiting_def idle_wait_def wait_inv_def)
  moreover have "words_inv st'"
    using words_inv_update [OF letters_invD(1) [OF inv] claim_char_ok [OF letters_invD(5) [OF inv wi(1)] wi(2)], of st' wi] by (simp add: st')
  ultimately show ?thesis using letters_invD(4) [OF inv] by (simp add: letters_inv_def table_inv_def st')
qed

lemma letters_no_task:
  assumes inv: "letters_inv st" and c: "c < length (carriers st)" "cpc (carriers st ! c) = CIdle"
    and s: "idle_carrier_step c (NoTask tf) st = Some st'"
  shows "letters_inv st' \<and> failed st' = failed st"
proof -
  let ?cs = "carriers st ! c" and ?r = "\<lparr>r_carrier = c, r_from = current_floor (carriers st ! c), r_to = tf\<rparr>"
  have ev: "event_sem ?cs = 0" using letters_invD(3) [OF inv] c by (simp add: wait_inv_def)
  obtain rs where rs: "put_request ?r (requests (reposition st)) = Some rs"
    using tables_have_room(2) [OF letters_invD(3,4) [OF inv]] by blast
  note u = put_request_used [OF rs]
  from s rs consider "st' = set_carrier c (?cs\<lparr>cpc := CExit\<rparr>) st"
    | "st' = set_carrier c (?cs\<lparr>cpc := CWait\<rparr>) (st\<lparr>reposition := (reposition st)\<lparr>requests := rs, items := items (reposition st) + 1\<rparr>\<rparr>)"
    by (auto simp: idle_carrier_step_def Let_def enqueue_reposition_def split: if_splits)
  then show ?thesis
  proof cases
    case 1
    have "tokens st' = tokens st" using carrier_tokens_update [OF c(1), of "?cs\<lparr>cpc := CExit\<rparr>"] c(2) by (simp add: 1 tokens_def)
    then have "token_inv st'" using letters_invD(2) [OF inv] by (simp add: token_inv_def in_transit_def 1)
    moreover have "wait_inv st'"
      using c ev by (intro wait_inv_carrier [OF letters_invD(3) [OF inv] c(1), where cs' = "?cs\<lparr>cpc := CExit\<rparr>"])
        (auto simp: 1 waiting_def idle_wait_def)
    ultimately show ?thesis using inv by (simp add: letters_inv_def table_inv_def words_inv_def 1)
  next
    case 2
    have "tokens st' = tokens st" using carrier_tokens_update [OF c(1), of "?cs\<lparr>cpc := CWait\<rparr>"] c(2) by (simp add: 2 tokens_def)
    then have "token_inv st'" using letters_invD(2) [OF inv] by (simp add: token_inv_def in_transit_def 2)
    moreover have "wait_inv st'"
      using c ev u by (intro wait_inv_enqueue [OF letters_invD(3) [OF inv] c(1), where cs' = "?cs\<lparr>cpc := CWait\<rparr>"])
        (auto simp: 2 waiting_def)
    ultimately show ?thesis using inv u by (simp add: letters_inv_def table_inv_def words_inv_def 2)
  qed
qed

lemma letters_holding:
  assumes inv: "letters_inv st" and c: "c < length (carriers st)" "cpc (carriers st ! c) = CHolding wi ci"
    and s: "holding_carrier_step c wi ci st = Some st'"
  shows "letters_inv st' \<and> failed st' = failed st"
proof -
  let ?cs = "carriers st ! c" and ?w = "words st ! wi"
  have ev: "event_sem ?cs = 0" using letters_invD(3) [OF inv] c by (simp add: wait_inv_def)
  have "(wi, ci) \<in># sum_list (map carrier_token (carriers st))"
    using c by (intro sum_list_mset_member [of ?cs]) auto
  then have "in_transit st wi ci" by (intro token_in_transit [OF letters_invD(2) [OF inv]]) (simp add: tokens_def)
  then have wi: "wi < total_words st" "ci < wlen ?w" "char_in_transit ?w ! ci" by (auto simp: in_transit_def)
  show ?thesis
  proof (cases "sorting_floor ?w = current_floor ?cs")
    case True
    obtain w' where d: "deliver_char ci ?w = (True, w')" "word_ok w'" "wtext w' = wtext ?w"
      "char_in_transit w' = (char_in_transit ?w)[ci := False]"
      using deliver_char_ok [OF letters_invD(5) [OF inv wi(1)] wi(2,3)] by metis
    let ?cs' = "?cs\<lparr>cpc := CIdle, direct_placements := direct_placements ?cs + 1\<rparr>"
    from s True d have st': "st' = set_carrier c ?cs' (set_word wi w' (count_transported True st))"
      by (auto simp: holding_carrier_step_def Let_def split: if_splits)
    have "token_inv st'"
      using carrier_tokens_swap [OF c(1), of ?cs'] c(2) d
      by (intro token_inv_delivered [OF letters_invD(2) [OF inv], where wi = wi and ci = ci and w' = w'])
        (simp_all add: st' tokens_def letters_invD(6) [OF inv wi(1)])
    moreover have "wait_inv st'"
      using c ev by (intro wait_inv_carrier [OF letters_invD(3) [OF inv] c(1), where cs' = ?cs']) (auto simp: st' waiting_def idle_wait_def)
    moreover have "words_inv st'" using words_inv_update [OF letters_invD(1) [OF inv] d(2), of st' wi] by (simp add: st')
    ultimately show ?thesis using letters_invD(4) [OF inv] by (simp add: letters_inv_def table_inv_def st')
  next
    case False
    let ?r = "\<lparr>d_carrier = c, d_from = current_floor ?cs, d_to = sorting_floor ?w, d_word = wi, d_char = ci, d_ch = wtext ?w ! ci\<rparr>"
    obtain rs where rs: "put_request ?r (requests (delivery st)) = Some rs"
      using tables_have_room(1) [OF letters_invD(3,4) [OF inv]] by blast
    note u = put_request_used [OF rs]
    let ?cs' = "?cs\<lparr>cpc := CWait\<rparr>"
    from s rs False have st': "st' = set_carrier c ?cs' (st\<lparr>delivery := (delivery st)\<lparr>requests := rs, items := items (delivery st) + 1\<rparr>\<rparr>)"
      by (auto simp: holding_carrier_step_def Let_def enqueue_delivery_def)
    have "tokens st' = tokens st"
      using carrier_tokens_swap [OF c(1), of ?cs'] c(2) u by (simp add: st' tokens_def request_token_def)
    then have "token_inv st'" using letters_invD(2) [OF inv] by (simp add: token_inv_def in_transit_def st')
    moreover have "wait_inv st'"
      using c ev u by (intro wait_inv_enqueue [OF letters_invD(3) [OF inv] c(1), where cs' = ?cs']) (auto simp: st' waiting_def)
    ultimately show ?thesis using inv u by (simp add: letters_inv_def table_inv_def words_inv_def st')
  qed
qed

lemma letters_carrier:
  assumes inv: "letters_inv st" and s: "carrier_step c choice st = Some st'"
  shows "letters_inv st' \<and> failed st' = failed st"
proof -
  let ?cs = "carriers st ! c"
  have c: "c < length (carriers st)" using s by (auto simp: carrier_step_def split: if_splits)
  show ?thesis
  proof (cases "cpc ?cs")
    case CIdle
    with s c letters_pick [OF inv c CIdle] letters_no_task [OF inv c CIdle] show ?thesis
      by (cases choice) (auto simp: carrier_step_def, auto simp: idle_carrier_step_def Let_def split: if_splits)
  next
    case (CHolding wi ci)
    with s c letters_holding [OF inv c CHolding] show ?thesis by (auto simp: carrier_step_def)
  next
    case CWait
    let ?cs' = "?cs\<lparr>event_sem := event_sem ?cs - 1, cpc := CIdle\<rparr>"
    from s c CWait have ev: "event_sem ?cs \<noteq> 0" and st': "st' = set_carrier c ?cs' st"
      by (auto simp: carrier_step_def Let_def split: if_splits)
    have one: "event_sem ?cs \<le> 1" using letters_invD(3) [OF inv] c by (simp add: wait_inv_def)
    have "tokens st' = tokens st" using carrier_tokens_update [OF c, of ?cs'] CWait by (simp add: st' tokens_def)
    then have "token_inv st'" using letters_invD(2) [OF inv] by (simp add: token_inv_def in_transit_def st')
    moreover have "wait_inv st'"
      using c ev one by (intro wait_inv_carrier [OF letters_invD(3) [OF inv] c, where cs' = ?cs']) (auto simp: st' waiting_def idle_wait_def)
    ultimately show ?thesis using inv by (simp add: letters_inv_def table_inv_def words_inv_def st')
  next
    case CExit
    with s c show ?thesis by (simp add: carrier_step_def)
  qed
qed

section \<open>Preservation: elevators and parent\<close>

lemma letters_serve_delivery:
  assumes inv: "letters_inv st" and b: "delivery_batch st = req # rest" and s: "serve_delivery req rest st = Some st'"
  shows "letters_inv st' \<and> failed st' = failed st"
proof -
  let ?wi = "d_word req" and ?ci = "d_char req" and ?c = "d_carrier req"
  let ?w = "words st ! ?wi" and ?cs = "carriers st ! ?c"
  have "in_transit st ?wi ?ci"
    by (rule token_in_transit [OF letters_invD(2) [OF inv]]) (simp add: tokens_def b request_token_def)
  then have wi: "?wi < total_words st" "?ci < wlen ?w" "char_in_transit ?w ! ?ci" by (auto simp: in_transit_def)
  have c: "?c < length (carriers st)" "cpc ?cs = CWait" "event_sem ?cs = 0"
    using waiting_member [OF letters_invD(3) [OF inv], of ?c] by (simp_all add: waiting_def b)
  obtain w' where d: "deliver_char ?ci ?w = (True, w')" "word_ok w'" "wtext w' = wtext ?w"
    "char_in_transit w' = (char_in_transit ?w)[?ci := False]"
    using deliver_char_ok [OF letters_invD(5) [OF inv wi(1)] wi(2,3)] by metis
  let ?cs' = "?cs\<lparr>current_floor := d_to req, deliveries := deliveries ?cs + 1, event_sem := event_sem ?cs + 1\<rparr>"
  from s d c(1) have st': "carriers st' = (carriers st)[?c := ?cs']" "words st' = (words st)[?wi := w']"
    "requests (delivery st') = requests (delivery st)" "direction (delivery st') = direction (delivery st)"
    "delivery_batch st' = rest" "reposition st' = reposition st" "reposition_batch st' = reposition_batch st" "failed st' = failed st"
    by (auto simp: serve_delivery_def Let_def split: if_splits)
  have "token_inv st'"
    using carrier_tokens_update [OF c(1), of ?cs'] c(2) d
    by (intro token_inv_delivered [OF letters_invD(2) [OF inv], where wi = ?wi and ci = ?ci and w' = w'])
      (simp_all add: st' tokens_def b request_token_def letters_invD(6) [OF inv wi(1)])
  moreover have "wait_inv st'"
    using c by (intro wait_inv_served [OF letters_invD(3) [OF inv], where c = ?c and cs' = ?cs']) (simp_all add: st' waiting_def b)
  moreover have "words_inv st'" using words_inv_update [OF letters_invD(1) [OF inv] d(2)] st' by blast
  ultimately show ?thesis using letters_invD(4) [OF inv] by (simp add: letters_inv_def table_inv_def st')
qed

lemma collect_reposition_used:
  assumes "collect_reposition_batch cap e = (b, e')" "direction e \<noteq> 0"
  shows "used (requests e) = mset b + used (requests e')" "length (requests e') = length (requests e)" "direction e' \<noteq> 0"
proof -
  have "used (requests e) = mset b + used (requests e') \<and> length (requests e') = length (requests e) \<and> direction e' \<noteq> 0"
  proof (cases "first_reposition_idx e")
    case None
    with assms show ?thesis by (simp add: collect_reposition_batch_def)
  next
    case (Some fi)
    then obtain r where f: "fi < length (requests e)" "requests e ! fi = Some r"
      unfolding first_reposition_idx_def by (rule first_idx_Some)
    with assms Some used_clear [OF f] take_batch_used [of "\<lambda>q. r_from q = r_from r" "cap - 1" "(requests e)[fi := None]"]
      heading_cases [of "r_from r" "r_to r"] show ?thesis
      by (auto simp: collect_reposition_batch_def Let_def split: prod.splits)
  qed
  then show "used (requests e) = mset b + used (requests e')" "length (requests e') = length (requests e)" "direction e' \<noteq> 0" by auto
qed

lemma collect_delivery_used:
  assumes "collect_delivery_batch cap e = (b, e')" "direction e \<noteq> 0"
  shows "used (requests e) = mset b + used (requests e')" "length (requests e') = length (requests e)" "direction e' \<noteq> 0"
proof -
  have "used (requests e) = mset b + used (requests e') \<and> length (requests e') = length (requests e) \<and> direction e' \<noteq> 0"
    using assms
  proof (cases rule: collect_delivery_cases)
    case (2 first rest fi rs)
    with used_clear [OF 2(1,2)] take_batch_used [of "\<lambda>r. d_from r = d_from first \<and> heading (d_from r) (d_to r) = heading (d_from first) (d_to first)"
        "cap - 1" "(requests e)[fi := None]"] heading_cases [of "d_from first" "d_to first"] show ?thesis
      by (auto simp: batch_order.exchange_sort_sorts(1))
  qed (use assms in auto)
  then show "used (requests e) = mset b + used (requests e')" "length (requests e') = length (requests e)" "direction e' \<noteq> 0" by auto
qed

text \<open>Requests that move from the table to the cabin.\<close>

lemma letters_collected:
  assumes inv: "letters_inv st" and same: "words st' = words st" "carriers st' = carriers st"
    and d: "used (requests (delivery st')) + mset (delivery_batch st') = used (requests (delivery st)) + mset (delivery_batch st)"
    and r: "used (requests (reposition st')) + mset (reposition_batch st') = used (requests (reposition st)) + mset (reposition_batch st)"
    and t: "table_inv st'"
  shows "letters_inv st'"
proof -
  have "tokens st' = tokens st"
    using arg_cong [OF d, of "image_mset request_token"] by (simp add: tokens_def same add.assoc)
  moreover have "waiting st' = waiting st" using d r by (simp add: waiting_def)
  ultimately show ?thesis
    using inv t by (simp add: letters_inv_def token_inv_def wait_inv_def words_inv_def in_transit_def same)
qed

lemma letters_delivery:
  assumes inv: "letters_inv st" and s: "delivery_step st = Some st'"
  shows "letters_inv st' \<and> failed st' = failed st"
proof (cases "delivery_batch st")
  case (Cons req rest)
  with s letters_serve_delivery [OF inv Cons] show ?thesis by (simp add: delivery_step_def)
next
  case Nil
  note t = letters_invD(4) [OF inv]
  show ?thesis
  proof (cases "delivery_woken st")
    case False
    with s Nil have st': "st' = st\<lparr>delivery := (delivery st)\<lparr>items := items (delivery st) - 1\<rparr>, delivery_woken := True\<rparr>"
      by (auto simp: delivery_step_def split: if_splits)
    have "letters_inv st'" by (rule letters_collected [OF inv]) (use t in \<open>simp_all add: st' table_inv_def\<close>)
    then show ?thesis by (simp add: st')
  next
    case True
    obtain b e where c: "collect_delivery_batch (min (delivery_capacity st) 64) (delivery st) = (b, e)"
      by (cases "collect_delivery_batch (min (delivery_capacity st) 64) (delivery st)")
    have "direction (delivery st) \<noteq> 0" using t by (simp add: table_inv_def)
    note u = collect_delivery_used [OF c this]
    define e' where "e' = (if b = [] then e
        else e\<lparr>direction := (if d_from (hd b) > at_floor e then 1 else if d_from (hd b) < at_floor e then - 1 else direction e), at_floor := d_from (hd b)\<rparr>)"
    have e': "requests e' = requests e" "direction e' \<noteq> 0" using u(3) by (simp_all add: e'_def)
    from s Nil True c have st': "st' = st\<lparr>delivery := e', delivery_woken := False, delivery_batch := b\<rparr>"
      by (auto simp: delivery_step_def Let_def e'_def)
    have "letters_inv st'" by (rule letters_collected [OF inv]) (use t u e' Nil in \<open>simp_all add: st' table_inv_def ac_simps\<close>)
    then show ?thesis by (simp add: st')
  qed
qed

lemma letters_reposition:
  assumes inv: "letters_inv st" and s: "reposition_step st = Some st'"
  shows "letters_inv st' \<and> failed st' = failed st"
proof (cases "reposition_batch st")
  case (Cons req rest)
  let ?c = "r_carrier req" and ?cs = "carriers st ! r_carrier req"
  have c: "?c < length (carriers st)" "cpc ?cs = CWait" "event_sem ?cs = 0"
    using waiting_member [OF letters_invD(3) [OF inv], of ?c] by (simp_all add: waiting_def Cons)
  let ?cs' = "?cs\<lparr>current_floor := r_to req, repositions := repositions ?cs + 1, event_sem := event_sem ?cs + 1\<rparr>"
  from s Cons c(1) have st': "carriers st' = (carriers st)[?c := ?cs']" "words st' = words st"
    "requests (reposition st') = requests (reposition st)" "direction (reposition st') = direction (reposition st)"
    "delivery_batch st' = delivery_batch st" "delivery st' = delivery st" "reposition_batch st' = rest" "failed st' = failed st"
    by (auto simp: reposition_step_def serve_reposition_def Let_def)
  have "tokens st' = tokens st" using carrier_tokens_update [OF c(1), of ?cs'] c(2) by (simp add: st' tokens_def)
  then have "token_inv st'" using letters_invD(2) [OF inv] by (simp add: token_inv_def in_transit_def st')
  moreover have "wait_inv st'"
    using c by (intro wait_inv_served [OF letters_invD(3) [OF inv], where c = ?c and cs' = ?cs']) (simp_all add: st' waiting_def Cons)
  ultimately show ?thesis using inv by (simp add: letters_inv_def table_inv_def words_inv_def st')
next
  case Nil
  note t = letters_invD(4) [OF inv]
  show ?thesis
  proof (cases "reposition_woken st")
    case False
    with s Nil have st': "st' = st\<lparr>reposition := (reposition st)\<lparr>items := items (reposition st) - 1\<rparr>, reposition_woken := True\<rparr>"
      by (auto simp: reposition_step_def split: if_splits)
    have "letters_inv st'" by (rule letters_collected [OF inv]) (use t in \<open>simp_all add: st' table_inv_def\<close>)
    then show ?thesis by (simp add: st')
  next
    case True
    obtain b e where c: "collect_reposition_batch (min (reposition_capacity st) 64) (reposition st) = (b, e)"
      by (cases "collect_reposition_batch (min (reposition_capacity st) 64) (reposition st)")
    have "direction (reposition st) \<noteq> 0" using t by (simp add: table_inv_def)
    note u = collect_reposition_used [OF c this]
    from s Nil True c have st': "st' = st\<lparr>reposition := e, reposition_woken := False, reposition_batch := b\<rparr>"
      by (auto simp: reposition_step_def)
    have "letters_inv st'" by (rule letters_collected [OF inv]) (use t u Nil in \<open>simp_all add: st' table_inv_def ac_simps\<close>)
    then show ?thesis by (simp add: st')
  qed
qed

lemma letters_spawn: "letters_inv st \<Longrightarrow> letters_inv (spawn_letter_carriers n f st)"
proof (induction n arbitrary: st)
  case (Suc n)
  show ?case
  proof (cases "reserve_carrier_slot f st")
    case None
    with Suc.prems show ?thesis by (auto intro: letters_same simp: same_traffic_def)
  next
    case (Some st1)
    then have st1: "carriers st1 = carriers st @ [new_carrier f]" "words st1 = words st" "delivery st1 = delivery st"
      "delivery_batch st1 = delivery_batch st" "reposition st1 = reposition st" "reposition_batch st1 = reposition_batch st"
      "length (carriers st) < MAX_CARRIERS"
      by (auto simp: reserve_carrier_slot_def split: if_splits)
    have new: "carrier_token (new_carrier f) = {#}" "\<not> idle_wait (new_carrier f)" "event_sem (new_carrier f) = 0"
      by (simp_all add: new_carrier_def carrier_token_def idle_wait_def)
    have "tokens st1 = tokens st" "waiting st1 = waiting st" by (simp_all add: tokens_def waiting_def st1 new)
    then have "letters_inv st1"
      using Suc.prems st1(7) new
      by (auto simp: letters_inv_def token_inv_def wait_inv_def table_inv_def words_inv_def in_transit_def st1(1-6) nth_append less_Suc_eq)
    with Suc.IH Some show ?thesis by simp
  qed
qed simp

end
