(* ===== verification/Tower_Control.thy ===== *)
theory Tower_Control
  imports Tower_Letters
begin

text \<open>
  Claims, admissions, floor capacities and the counter of completed words: the invariants of the
  control fields of the tower and that every step keeps them.
\<close>

section \<open>Control fields\<close>

definition ctl :: "SharedWord \<Rightarrow> bool \<times> bool \<times> bool \<times> bool \<times> int \<times> int" where
  "ctl w = (claimed w, admitted w, completed w, active_reservation w, arrival_floor w, sorting_floor w)"

lemma ctl_deliver [simp]: "ctl (snd (deliver_char ci w)) = ctl w"
  by (simp add: ctl_def deliver_char_def place_char_in_sorting_area_def split: option.split)

lemma ctl_claim_char [simp]: "ctl (claim_char ci w) = ctl w"
  by (simp add: ctl_def claim_char_def)

definition same_control :: "tower \<Rightarrow> tower \<Rightarrow> bool" where
  "same_control st st' \<longleftrightarrow> map ctl (words st') = map ctl (words st) \<and> wcarriers st' = wcarriers st \<and> sorters st' = sorters st \<and>
     active_words st' = active_words st \<and> completed_words st' = completed_words st \<and> num_floors st' = num_floors st \<and>
     max_words_per_floor st' = max_words_per_floor st \<and> parent_done st' = parent_done st"

lemma map_ctl_update: "ctl w' = ctl (ws ! i) \<Longrightarrow> map ctl (ws[i := w']) = map ctl ws"
  by (cases "i < length ws") (simp_all add: map_update list_update_same_conv list_update_beyond)

lemma same_control_refl [simp]: "same_control st st"
  by (simp add: same_control_def)

lemma same_control_deliver:
  assumes "deliver_char ci (words st ! wi) = (ok, w')"
  shows "map ctl ((words st)[wi := w']) = map ctl (words st)"
  using ctl_deliver [of ci "words st ! wi"] assms by (intro map_ctl_update) simp

lemma same_control_carrier: "carrier_step c choice st = Some st' \<Longrightarrow> same_control st st'"
  by (auto simp: carrier_step_def idle_carrier_step_def holding_carrier_step_def same_control_def Let_def
      same_control_deliver map_ctl_update split: if_splits carrier_pc.splits pick.splits option.splits prod.splits)

lemma same_control_delivery: "delivery_step st = Some st' \<Longrightarrow> same_control st st'"
  by (auto simp: delivery_step_def serve_delivery_def same_control_def Let_def
      same_control_deliver split: if_splits list.splits option.splits prod.splits)

lemma same_control_reposition: "reposition_step st = Some st' \<Longrightarrow> same_control st st'"
  by (auto simp: reposition_step_def serve_reposition_def same_control_def Let_def split: if_splits list.splits prod.splits)

lemma same_control_spawn: "same_control st (spawn_letter_carriers n f st)"
proof (induction n arbitrary: st)
  case (Suc n)
  show ?case
  proof (cases "reserve_carrier_slot f st")
    case None
    then show ?thesis by (simp add: same_control_def)
  next
    case (Some st1)
    then have "same_control st st1" by (auto simp: reserve_carrier_slot_def same_control_def split: if_splits)
    with Suc [of st1] Some show ?thesis by (simp add: same_control_def)
  qed
qed simp

lemma same_control_respawn: "maybe_spawn_more_carriers f st = Some st' \<Longrightarrow> same_control st st'"
  using same_control_spawn by (auto simp: maybe_spawn_more_carriers_def split: if_splits)

section \<open>The invariant\<close>

definition word_reserves :: "int \<Rightarrow> bool \<times> bool \<times> bool \<times> bool \<times> int \<times> int \<Rightarrow> int" where
  "word_reserves f k = (case k of (_, _, _, r, af, sf) \<Rightarrow> of_bool (r \<and> (af = f \<or> sf = f)))"

definition carrier_reserves :: "tower \<Rightarrow> int \<Rightarrow> WCarrierState \<Rightarrow> int" where
  "carrier_reserves st f c =
     (case wpc c of WReserved ci True \<Rightarrow> of_bool (wfloor c = f \<or> sorting_floor (words st ! ci) = f) | _ \<Rightarrow> 0)"

text \<open>The words that hold a place on floor \<open>f\<close>.\<close>

definition reserved :: "tower \<Rightarrow> int \<Rightarrow> int" where
  "reserved st f = sum_list (map (word_reserves f) (map ctl (words st))) + sum_list (map (carrier_reserves st f) (wcarriers st))"

definition floor_ok :: "tower \<Rightarrow> int \<Rightarrow> bool" where
  "floor_ok st f \<longleftrightarrow> 0 \<le> f \<and> f < int (num_floors st)"

definition floors_inv :: "tower \<Rightarrow> bool" where
  "floors_inv st \<longleftrightarrow> length (active_words st) = num_floors st \<and>
     (\<forall>f. floor_ok st f \<longrightarrow> active_words st ! nat f = reserved st f \<and> reserved st f \<le> max_words_per_floor st)"

definition places_inv :: "tower \<Rightarrow> bool" where
  "places_inv st \<longleftrightarrow>
     (\<forall>wi<total_words st. floor_ok st (sorting_floor (words st ! wi)) \<and>
        (admitted (words st ! wi) \<longrightarrow> floor_ok st (arrival_floor (words st ! wi)) \<and> claimed (words st ! wi)) \<and>
        (active_reservation (words st ! wi) \<or> completed (words st ! wi) \<longrightarrow> admitted (words st ! wi))) \<and>
     (\<forall>k<length (wcarriers st). floor_ok st (wfloor (wcarriers st ! k)))"

text \<open>The values that the counter of completed words has or is about to get.\<close>

definition finishing :: "tower \<Rightarrow> SorterState list" where
  "finishing st = filter (\<lambda>s. spc s \<noteq> SIdle) (sorters st)"

definition read_values :: "tower \<Rightarrow> int set" where
  "read_values st = insert (completed_words st) {v. \<exists>s\<in>set (sorters st). \<exists>wi p. spc s = SFinish wi v p}"

definition done_words :: "tower \<Rightarrow> nat" where
  "done_words st = length (filter completed (words st))"

definition counter_inv :: "tower \<Rightarrow> bool" where
  "counter_inv st \<longleftrightarrow> (\<forall>v\<in>read_values st. v + int (length (finishing st)) \<le> int (done_words st))"

definition control_inv :: "tower \<Rightarrow> bool" where
  "control_inv st \<longleftrightarrow> claims_inv st \<and> places_inv st \<and> floors_inv st \<and> counter_inv st"

lemma ctl_nth: "map ctl ws' = map ctl ws \<Longrightarrow> i < length ws \<Longrightarrow> ctl (ws' ! i) = ctl (ws ! i)"
  by (metis length_map nth_map)

lemma control_same:
  assumes inv: "control_inv st" and same: "same_control st st'"
  shows "control_inv st'"
proof -
  have len: "total_words st' = total_words st" using same map_eq_imp_length_eq by (auto simp: same_control_def)
  have c: "claimed (words st' ! i) = claimed (words st ! i) \<and> admitted (words st' ! i) = admitted (words st ! i) \<and>
      completed (words st' ! i) = completed (words st ! i) \<and> active_reservation (words st' ! i) = active_reservation (words st ! i) \<and>
      arrival_floor (words st' ! i) = arrival_floor (words st ! i) \<and> sorting_floor (words st' ! i) = sorting_floor (words st ! i)"
    if "i < total_words st" for i
    using ctl_nth [of "words st'" "words st" i] same that by (simp add: same_control_def ctl_def)
  have "(i < total_words st' \<and> claimed (words st' ! i) \<and> \<not> admitted (words st' ! i)) =
      (i < total_words st \<and> claimed (words st ! i) \<and> \<not> admitted (words st ! i))" for i
    using c [of i] len by auto
  then have "claims_inv st'" using inv same by (simp add: control_inv_def claims_inv_def same_control_def)
  moreover have "places_inv st'"
    using inv same c len unfolding control_inv_def places_inv_def floor_ok_def same_control_def by metis
  moreover have "carrier_reserves st' f d = carrier_reserves st f d" if "d \<in> set (wcarriers st)" for f d
  proof (cases "wpc d")
    case (WReserved ci b)
    from that obtain k where "k < length (wcarriers st)" "wcarriers st ! k = d" by (auto simp: in_set_conv_nth)
    with WReserved claims_invD(1) [of st k ci] inv have "ci < total_words st" by (simp add: control_inv_def claimed_word_def)
    with c [of ci] WReserved show ?thesis by (simp add: carrier_reserves_def)
  qed (simp_all add: carrier_reserves_def)
  then have "reserved st' f = reserved st f" for f
    using same by (simp add: reserved_def same_control_def cong: map_cong)
  then have "floors_inv st'" using inv same by (simp add: control_inv_def floors_inv_def floor_ok_def same_control_def)
  moreover have "done_words st' = done_words st"
  proof -
    have "length (filter (\<lambda>k. fst (snd (snd k))) (map ctl ws)) = length (filter completed ws)" for ws
      by (induction ws) (simp_all add: ctl_def)
    then show ?thesis using same unfolding done_words_def same_control_def by metis
  qed
  then have "counter_inv st'"
    using inv same by (simp add: control_inv_def counter_inv_def read_values_def finishing_def same_control_def)
  ultimately show ?thesis by (simp add: control_inv_def)
qed

section \<open>Word carriers\<close>

lemma nth_update_field: "g w' = g (ws ! i) \<Longrightarrow> g (ws[i := w'] ! j) = g (ws ! j)"
  by (metis linorder_not_less list_update_beyond nth_list_update_eq nth_list_update_neq)

lemma carrier_reserves_update:
  assumes "words st' = (words st)[wi := w']" "sorting_floor w' = sorting_floor (words st ! wi)"
  shows "carrier_reserves st' f c = carrier_reserves st f c"
  using nth_update_field [of sorting_floor w' "words st" wi] assms
  by (simp add: carrier_reserves_def split: wcarrier_pc.split bool.split)

lemma reserved_update:
  assumes wi: "wi < total_words st" and k: "k < length (wcarriers st)"
    and st': "words st' = (words st)[wi := w']" "wcarriers st' = (wcarriers st)[k := c']"
    and sf: "sorting_floor w' = sorting_floor (words st ! wi)"
  shows "reserved st' f = reserved st f - word_reserves f (ctl (words st ! wi)) + word_reserves f (ctl w') -
    carrier_reserves st f (wcarriers st ! k) + carrier_reserves st f c'"
proof -
  have "carrier_reserves st' f = carrier_reserves st f" using carrier_reserves_update [OF st'(1) sf] by blast
  then show ?thesis
    using sum_list_map_update [OF wi, of "\<lambda>x. word_reserves f (ctl x)" w'] sum_list_map_update [OF k, of "carrier_reserves st f" c']
    by (simp add: reserved_def st' comp_def)
qed

lemma counter_inv_frame:
  assumes "counter_inv st" "sorters st' = sorters st" "completed_words st' = completed_words st" "map completed (words st') = map completed (words st)"
  shows "counter_inv st'"
proof -
  have "length (filter completed ws) = length (filter id (map completed ws))" for ws by (simp add: filter_map comp_def)
  then have "done_words st' = done_words st" unfolding done_words_def using assms(4) by metis
  then show ?thesis using assms by (simp add: counter_inv_def read_values_def finishing_def)
qed

lemma map_completed_update: "completed w' = completed (ws ! i) \<Longrightarrow> map completed (ws[i := w']) = map completed ws"
  by (cases "i < length ws") (simp_all add: map_update list_update_same_conv list_update_beyond)

lemma claims_update:
  assumes inv: "claims_inv st" and k: "k < length (wcarriers st)" and st': "wcarriers st' = (wcarriers st)[k := c']"
    and m: "\<And>ci. count (claim_of c') ci + of_bool (ci < total_words st \<and> claimed (words st ! ci) \<and> \<not> admitted (words st ! ci)) =
        count (claim_of (wcarriers st ! k)) ci + of_bool (ci < total_words st' \<and> claimed (words st' ! ci) \<and> \<not> admitted (words st' ! ci))"
  shows "claims_inv st'"
  unfolding claims_inv_def
proof
  fix ci
  have "count (sum_list (map claim_of ((wcarriers st)[k := c']))) ci + count (claim_of (wcarriers st ! k)) ci =
        count (sum_list (map claim_of (wcarriers st))) ci + count (claim_of c') ci"
    using arg_cong [OF sum_list_map_update_add [OF k, of claim_of c'], of "\<lambda>M. count M ci"] by simp
  with inv m [of ci] show "count (sum_list (map claim_of (wcarriers st'))) ci =
      of_bool (ci < total_words st' \<and> claimed (words st' ! ci) \<and> \<not> admitted (words st' ! ci))"
    by (simp add: claims_inv_def st')
qed

lemma control_invD:
  assumes "control_inv st"
  shows "claims_inv st" "places_inv st" "floors_inv st" "counter_inv st"
  using assms by (auto simp: control_inv_def)

lemma control_claim:
  assumes inv: "control_inv st" and k: "k < length (wcarriers st)" "wpc (wcarriers st ! k) = WIdle" and s: "claim_word k st = Some st'"
  shows "control_inv st'"
proof -
  from s obtain i where i: "scan_words st [0..<total_words st] = Some i"
    and st': "st' = set_wcarrier k ((wcarriers st ! k)\<lparr>wpc := WClaimed i\<rparr>)
          (set_word i ((words st ! i)\<lparr>claimed := True, claim_owner := int k\<rparr>) (st\<lparr>rr_cursor := (i + 1) mod total_words st\<rparr>))"
    by (auto simp: claim_word_def split: option.splits)
  have iu: "i < total_words st" "unclaimed (words st ! i)" using scan_words_found [OF i] by simp_all
  let ?w' = "(words st ! i)\<lparr>claimed := True, claim_owner := int k\<rparr>" and ?c' = "(wcarriers st ! k)\<lparr>wpc := WClaimed i\<rparr>"
  have ws: "words st' = (words st)[i := ?w']" "wcarriers st' = (wcarriers st)[k := ?c']" by (simp_all add: st')
  have "claims_inv st'"
    by (rule claims_update [OF control_invD(1) [OF inv] k(1) ws(2)])
      (use iu k(2) in \<open>auto simp: ws claim_of_def unclaimed_def nth_list_update\<close>)
  moreover have "places_inv st'"
    using control_invD(2) [OF inv] iu k by (auto simp: places_inv_def st' floor_ok_def nth_list_update)
  moreover have "reserved st' f = reserved st f" for f
    using reserved_update [OF iu(1) k(1) ws, of f] k(2) by (simp add: word_reserves_def ctl_def carrier_reserves_def)
  then have "floors_inv st'" using control_invD(3) [OF inv] by (simp add: floors_inv_def floor_ok_def st')
  moreover have "counter_inv st'"
    by (rule counter_inv_frame [OF control_invD(4) [OF inv]]) (simp_all add: st' map_completed_update)
  ultimately show ?thesis by (simp add: control_inv_def)
qed

lemma add_at_nth: "0 \<le> g \<Longrightarrow> 0 \<le> f \<Longrightarrow> f < int (length xs) \<Longrightarrow> add_at xs g d ! nat f = xs ! nat f + (if g = f then d else 0)"
  by (cases "g = f") (auto simp: add_at_def nth_list_update nat_eq_iff)

lemma length_add_at [simp]: "length (add_at xs g d) = length xs"
  by (simp add: add_at_def)

lemma control_reserve:
  assumes inv: "control_inv st" and k: "k < length (wcarriers st)" "wpc (wcarriers st ! k) = WClaimed ci"
  shows "control_inv (reserve_floors k ci st)"
proof -
  let ?c = "wcarriers st ! k" and ?st' = "reserve_floors k ci st"
  let ?af = "wfloor ?c" and ?sf = "sorting_floor (words st ! ci)"
  have ci: "ci < total_words st" using claims_invD(1) [OF control_invD(1) [OF inv] k(1), of ci] k(2) by (simp add: claimed_word_def)
  have fl: "floor_ok st ?af" "floor_ok st ?sf" using control_invD(2) [OF inv] ci k(1) by (simp_all add: places_inv_def)
  define ok where "ok = (active_words st ! nat ?af < max_words_per_floor st \<and> (?af = ?sf \<or> active_words st ! nat ?sf < max_words_per_floor st))"
  let ?c' = "?c\<lparr>wpc := WReserved ci ok\<rparr>"
  have ws: "words ?st' = (words st)[ci := words st ! ci]" "wcarriers ?st' = (wcarriers st)[k := ?c']"
    by (simp_all add: reserve_floors_def Let_def ok_def)
  have len: "length (active_words st) = num_floors st" using control_invD(3) [OF inv] by (simp add: floors_inv_def)
  have "claims_inv ?st'"
    by (rule claims_update [OF control_invD(1) [OF inv] k(1) ws(2)]) (use k(2) ws in \<open>simp add: claim_of_def\<close>)
  moreover have "places_inv ?st'"
    using control_invD(2) [OF inv] k by (auto simp: places_inv_def floor_ok_def reserve_floors_def Let_def nth_list_update)
  moreover have "active_words ?st' ! nat f = reserved ?st' f \<and> reserved ?st' f \<le> max_words_per_floor st" if f: "floor_ok st f" for f
  proof -
    have r: "reserved ?st' f = reserved st f + of_bool (ok \<and> (?af = f \<or> ?sf = f))"
      using reserved_update [OF ci k(1) ws, of f] k(2) by (auto simp: carrier_reserves_def split: bool.split)
    have old: "active_words st ! nat f = reserved st f" "reserved st f \<le> max_words_per_floor st"
      using control_invD(3) [OF inv] f by (auto simp: floors_inv_def)
    have "active_words ?st' ! nat f = active_words st ! nat f + of_bool (ok \<and> (?af = f \<or> ?sf = f))"
      using f fl len by (auto simp: reserve_floors_def Let_def ok_def [symmetric] add_at_nth floor_ok_def)
    moreover have "ok \<and> (?af = f \<or> ?sf = f) \<Longrightarrow> active_words st ! nat f < max_words_per_floor st" by (auto simp: ok_def)
    ultimately show ?thesis using r old by (auto simp: of_bool_def)
  qed
  then have "floors_inv ?st'"
    using len by (auto simp: floors_inv_def floor_ok_def reserve_floors_def Let_def)
  moreover have "counter_inv ?st'"
    by (rule counter_inv_frame [OF control_invD(4) [OF inv]]) (simp_all add: reserve_floors_def Let_def)
  ultimately show ?thesis by (simp add: control_inv_def)
qed

lemma control_admit:
  assumes inv: "control_inv st" and k: "k < length (wcarriers st)" "wpc (wcarriers st ! k) = WReserved ci ok"
  shows "control_inv (admit_word k ci ok st)"
proof -
  let ?c = "wcarriers st ! k" and ?w = "words st ! ci" and ?st' = "admit_word k ci ok st"
  have cl: "ci < total_words st" "claimed ?w" "\<not> admitted ?w"
    using claims_invD [OF control_invD(1) [OF inv] k(1), of ci] k(2) by (simp_all add: claimed_word_def)
  then have nr: "\<not> active_reservation ?w" using control_invD(2) [OF inv] by (auto simp: places_inv_def)
  define w' where "w' = (if ok then ?w\<lparr>admitted := True, arrival_floor := wfloor ?c, active_reservation := True\<rparr> else ?w\<lparr>claimed := False, claim_owner := - 1\<rparr>)"
  define c' where "c' = (if ok then ?c\<lparr>wpc := WIdle, admissions := admissions ?c + 1\<rparr> else ?c\<lparr>wpc := WIdle, wretries := wretries ?c + 1\<rparr>)"
  have ws: "words ?st' = (words st)[ci := w']" "wcarriers ?st' = (wcarriers st)[k := c']"
    by (simp_all add: admit_word_def Let_def w'_def c'_def)
  have rest: "active_words ?st' = active_words st" "num_floors ?st' = num_floors st" "max_words_per_floor ?st' = max_words_per_floor st"
    "sorters ?st' = sorters st" "completed_words ?st' = completed_words st"
    by (simp_all add: admit_word_def Let_def)
  have "claims_inv ?st'"
    by (rule claims_update [OF control_invD(1) [OF inv] k(1) ws(2)])
      (use cl k(2) in \<open>auto simp: ws claim_of_def w'_def c'_def nth_list_update\<close>)
  moreover have "places_inv ?st'"
    using control_invD(2) [OF inv] cl k nr by (auto simp: places_inv_def floor_ok_def ws rest w'_def c'_def nth_list_update)
  moreover have "reserved ?st' f = reserved st f" for f
    using reserved_update [OF cl(1) k(1) ws, of f] k(2) nr
    by (auto simp: word_reserves_def ctl_def carrier_reserves_def w'_def c'_def)
  then have "floors_inv ?st'" using control_invD(3) [OF inv] by (simp add: floors_inv_def floor_ok_def rest)
  moreover have "counter_inv ?st'"
    by (rule counter_inv_frame [OF control_invD(4) [OF inv]]) (simp_all add: rest ws w'_def map_completed_update)
  ultimately show ?thesis by (simp add: control_inv_def)
qed

lemma control_wcarrier: "control_inv st \<Longrightarrow> wcarrier_step k st = Some st' \<Longrightarrow> control_inv st'"
  using control_claim [of st k st'] control_reserve [of st k] control_admit [of st k]
  by (auto simp: wcarrier_step_def split: if_splits wcarrier_pc.splits)

section \<open>Sorters\<close>

lemma sorts_to_ctl: "sorts_to w w' \<Longrightarrow> ctl w' = ctl w"
  by (simp add: sorts_to_def ctl_def)

lemma finishing_update:
  assumes "k < length (sorters st)" "sorters st' = (sorters st)[k := s']"
  shows "int (length (finishing st')) = int (length (finishing st)) - of_bool (spc (sorters st ! k) \<noteq> SIdle) + of_bool (spc s' \<noteq> SIdle)"
proof -
  have eq: "int (length (filter (\<lambda>s. spc s \<noteq> SIdle) xs)) = sum_list (map (\<lambda>s. of_bool (spc s \<noteq> SIdle)) xs)" for xs
    by (induction xs) auto
  show ?thesis
    unfolding finishing_def eq assms(2)
    using sum_list_map_update [OF assms(1), of "\<lambda>s. of_bool (spc s \<noteq> SIdle)" s'] by simp
qed

lemma done_words_update:
  assumes "wi < total_words st" "words st' = (words st)[wi := w']"
  shows "int (done_words st') = int (done_words st) - of_bool (completed (words st ! wi)) + of_bool (completed w')"
proof -
  have eq: "int (length (filter completed xs)) = sum_list (map (\<lambda>w. of_bool (completed w)) xs)" for xs
    by (induction xs) auto
  show ?thesis
    unfolding done_words_def eq assms(2)
    using sum_list_map_update [OF assms(1), of "\<lambda>w. of_bool (completed w)" w'] by simp
qed

lemma control_word_update:
  assumes inv: "control_inv st" and wi: "wi < total_words st" and st': "words st' = (words st)[wi := w']" "wcarriers st' = wcarriers st"
      "num_floors st' = num_floors st"
    and w': "claimed w' = claimed (words st ! wi)" "admitted w' = admitted (words st ! wi)" "arrival_floor w' = arrival_floor (words st ! wi)"
      "sorting_floor w' = sorting_floor (words st ! wi)" "active_reservation w' \<or> completed w' \<longrightarrow> admitted w'"
  shows "claims_inv st'" "places_inv st'"
    "reserved st' f = reserved st f - word_reserves f (ctl (words st ! wi)) + word_reserves f (ctl w')"
proof -
  have "claimed (words st' ! ci) = claimed (words st ! ci)" "admitted (words st' ! ci) = admitted (words st ! ci)" for ci
    using nth_update_field [of claimed] nth_update_field [of admitted] w' st' by metis+
  then show "claims_inv st'" using control_invD(1) [OF inv] by (simp add: claims_inv_def st')
  show "places_inv st'" using control_invD(2) [OF inv] wi w' by (auto simp: places_inv_def floor_ok_def st' nth_list_update)
  have "carrier_reserves st' f = carrier_reserves st f" using carrier_reserves_update [OF st'(1) w'(4)] by blast
  then show "reserved st' f = reserved st f - word_reserves f (ctl (words st ! wi)) + word_reserves f (ctl w')"
    using sum_list_map_update [OF wi, of "\<lambda>x. word_reserves f (ctl x)" w'] by (simp add: reserved_def st' comp_def)
qed

lemma control_pass:
  assumes inv: "control_inv st" and ok: "\<forall>wi<total_words st. word_ok (words st ! wi)" and k: "k < length (sorters st)" "spc (sorters st ! k) = SIdle"
    and p: "sorter_pass k wi st = Some st'"
  shows "control_inv st'"
proof -
  let ?w = "words st ! wi" and ?s = "sorters st ! k"
  obtain b w1 where w1: "sort_word ?w = (b, w1)" by (cases "sort_word ?w")
  from p have wi: "wi < total_words st" and nc: "\<not> completed ?w" and ad: "admitted ?w"
    by (auto simp: sorter_pass_def Let_def split: if_splits)
  have so: "sorts_to ?w w1" using sort_word_sorts [OF _ nc w1] ok wi by blast
  define fin where "fin = (all_fixed w1 \<and> \<not> completed w1)"
  define w' where "w' = (if fin then w1\<lparr>completed := True\<rparr> else w1)"
  define s' where "s' = (if fin then ?s\<lparr>spc := SFinish wi (completed_words st) b\<rparr> else ?s\<lparr>tasks := tasks ?s + (if b then 1 else 0)\<rparr>)"
  from p w1 wi have st': "st' = set_sorter k s' (set_word wi w' st)"
    by (auto simp: sorter_pass_def Let_def fin_def w'_def s'_def split: if_splits)
  have fields: "claimed w' = claimed ?w" "admitted w' = admitted ?w" "arrival_floor w' = arrival_floor ?w" "sorting_floor w' = sorting_floor ?w"
    "active_reservation w' = active_reservation ?w" "completed w' = fin"
    using so nc by (auto simp: w'_def fin_def sorts_to_def)
  note upd = control_word_update [OF inv wi, of st' w']
  have "claims_inv st'" "places_inv st'" using fields ad by (intro upd(1,2); simp add: st')+
  moreover have "reserved st' f = reserved st f" for f
    using upd(3) [of f] fields ad by (simp add: st' word_reserves_def ctl_def)
  then have "floors_inv st'" using control_invD(3) [OF inv] by (simp add: floors_inv_def floor_ok_def st')
  moreover have "counter_inv st'"
    unfolding counter_inv_def
  proof
    fix v assume v: "v \<in> read_values st'"
    have "v \<in> read_values st"
    proof (cases "v = completed_words st")
      case False
      with v obtain s wj q where s: "s \<in> set ((sorters st)[k := s'])" "spc s = SFinish wj v q" by (auto simp: read_values_def st')
      then have "s \<noteq> s' \<or> spc s' = SFinish wj v q" by auto
      with False k(2) have "s \<noteq> s'" using s(2) by (auto simp: s'_def split: if_splits)
      with s set_update_subset_insert [of "sorters st" k s'] show ?thesis by (auto simp: read_values_def)
    qed (simp add: read_values_def)
    then have "v + int (length (finishing st)) \<le> int (done_words st)" using control_invD(4) [OF inv] by (simp add: counter_inv_def)
    moreover have "int (length (finishing st')) = int (length (finishing st)) + of_bool fin"
      using finishing_update [OF k(1), of st' s'] k(2) by (simp add: st' s'_def)
    moreover have "int (done_words st') = int (done_words st) + of_bool fin"
      using done_words_update [OF wi, of st' w'] nc fields(6) by (simp add: st')
    ultimately show "v + int (length (finishing st')) \<le> int (done_words st')" by simp
  qed
  ultimately show ?thesis by (simp add: control_inv_def)
qed

text \<open>A sorter that finishes has a word in range.\<close>

definition finish_inv :: "tower \<Rightarrow> bool" where
  "finish_inv st \<longleftrightarrow> (\<forall>s\<in>set (sorters st). \<forall>wi v p. spc s = SFinish wi v p \<longrightarrow> wi < total_words st)"

lemma release_floors_nth:
  assumes "0 \<le> arrival_floor w" "0 \<le> sorting_floor w" "0 \<le> f" "f < int (length aw)"
  shows "release_floors w aw ! nat f = aw ! nat f - of_bool (arrival_floor w = f \<or> sorting_floor w = f)"
  using assms by (auto simp: release_floors_def Let_def add_at_nth)

lemma length_release_floors [simp]: "length (release_floors w aw) = length aw"
  by (simp add: release_floors_def Let_def)

lemma control_finish:
  assumes inv: "control_inv st" "finish_inv st" and k: "k < length (sorters st)" "spc (sorters st ! k) = SFinish wi v p"
  shows "control_inv (finish_word k wi v p st)"
proof -
  let ?w = "words st ! wi" and ?s = "sorters st ! k" and ?st' = "finish_word k wi v p st"
  have wi: "wi < total_words st" using inv(2) k by (auto simp: finish_inv_def) (metis nth_mem)
  define w' where "w' = ?w\<lparr>active_reservation := False\<rparr>"
  define s' where "s' = ?s\<lparr>spc := SIdle, tasks := tasks ?s + (if p then 1 else 0)\<rparr>"
  have unres: "(words st)[wi := ?w\<lparr>active_reservation := False\<rparr>] = words st" if "\<not> active_reservation ?w"
  proof -
    have "?w\<lparr>active_reservation := False\<rparr> = ?w" using that by simp
    then show ?thesis by (metis list_update_id)
  qed
  have st': "words ?st' = (words st)[wi := w']" "wcarriers ?st' = wcarriers st" "num_floors ?st' = num_floors st"
    "sorters ?st' = (sorters st)[k := s']" "max_words_per_floor ?st' = max_words_per_floor st" "completed_words ?st' = v + 1"
    "active_words ?st' = (if active_reservation ?w then release_floors ?w (active_words st) else active_words st)"
    using unres by (auto simp: finish_word_def Let_def w'_def s'_def)
  have pl: "floor_ok st (sorting_floor ?w)" "admitted ?w \<longrightarrow> floor_ok st (arrival_floor ?w)" "active_reservation ?w \<or> completed ?w \<longrightarrow> admitted ?w"
    using control_invD(2) [OF inv(1)] wi by (auto simp: places_inv_def)
  note upd = control_word_update [OF inv(1) wi st'(1,2,3)]
  have "claims_inv ?st'" "places_inv ?st'" using pl by (intro upd(1,2); simp add: w'_def)+
  moreover have "floors_inv ?st'"
    unfolding floors_inv_def
  proof (intro conjI allI impI)
    show "length (active_words ?st') = num_floors ?st'" using control_invD(3) [OF inv(1)] by (simp add: floors_inv_def st')
    fix f assume "floor_ok ?st' f"
    then have f: "floor_ok st f" by (simp add: floor_ok_def st')
    have old: "active_words st ! nat f = reserved st f" "reserved st f \<le> max_words_per_floor st" "length (active_words st) = num_floors st"
      using control_invD(3) [OF inv(1)] f by (auto simp: floors_inv_def)
    have r: "reserved ?st' f = reserved st f - of_bool (active_reservation ?w \<and> (arrival_floor ?w = f \<or> sorting_floor ?w = f))"
      using upd(3) [of f] pl by (simp add: w'_def word_reserves_def ctl_def)
    then show "active_words ?st' ! nat f = reserved ?st' f"
      using old f pl release_floors_nth [of ?w f "active_words st"] by (auto simp: st' floor_ok_def)
    show "reserved ?st' f \<le> max_words_per_floor ?st'" using r old by (simp add: st')
  qed
  moreover have "counter_inv ?st'"
    unfolding counter_inv_def
  proof
    fix x assume x: "x \<in> read_values ?st'"
    have fin: "int (length (finishing ?st')) = int (length (finishing st)) - 1"
      using finishing_update [OF k(1) st'(4)] k(2) by (simp add: s'_def)
    have dn: "int (done_words ?st') = int (done_words st)" using done_words_update [OF wi st'(1)] by (simp add: w'_def)
    have v: "v \<in> read_values st" using k nth_mem [OF k(1)] by (force simp: read_values_def)
    have "x = v + 1 \<or> x \<in> read_values st"
      using x set_update_subset_insert [of "sorters st" k s'] by (auto simp: read_values_def st' s'_def)
    then show "x + int (length (finishing ?st')) \<le> int (done_words ?st')"
      using control_invD(4) [OF inv(1)] v fin dn by (auto simp: counter_inv_def)
  qed
  ultimately show ?thesis by (simp add: control_inv_def)
qed

text \<open>The fields that the control invariant reads.\<close>

lemma control_frame:
  assumes inv: "control_inv st" and w: "words st' = words st" "wcarriers st' = wcarriers st"
    and r: "active_words st' = active_words st" "completed_words st' = completed_words st" "num_floors st' = num_floors st"
      "max_words_per_floor st' = max_words_per_floor st" "finishing st' = finishing st"
  shows "control_inv st'"
proof -
  have "carrier_reserves st' f c = carrier_reserves st f c" for f c
    by (simp add: carrier_reserves_def w split: wcarrier_pc.split bool.split)
  then have "carrier_reserves st' f = carrier_reserves st f" for f by blast
  then have res: "reserved st' f = reserved st f" for f unfolding reserved_def w by metis
  have rv: "read_values t = insert (completed_words t) {v. \<exists>s\<in>set (finishing t). \<exists>wi p. spc s = SFinish wi v p}" for t
    by (auto simp: read_values_def finishing_def)
  have "read_values st' = read_values st" by (simp add: rv r)
  with inv res show ?thesis
    by (simp add: control_inv_def claims_inv_def places_inv_def floors_inv_def counter_inv_def floor_ok_def done_words_def w r)
qed

lemma control_add_wcarrier:
  assumes inv: "control_inv st" and c: "wpc c = WIdle" "floor_ok st (wfloor c)"
  shows "control_inv (st\<lparr>wcarriers := wcarriers st @ [c]\<rparr>)"
proof -
  let ?st = "st\<lparr>wcarriers := wcarriers st @ [c]\<rparr>"
  have "carrier_reserves ?st f d = carrier_reserves st f d" for f d
    by (simp add: carrier_reserves_def split: wcarrier_pc.split bool.split)
  then have "carrier_reserves ?st f = carrier_reserves st f" for f by blast
  then have "reserved ?st f = sum_list (map (word_reserves f) (map ctl (words st))) + sum_list (map (carrier_reserves st f) (wcarriers st @ [c]))" for f
    unfolding reserved_def by simp
  then have res: "reserved ?st f = reserved st f" for f
    using c(1) by (simp add: reserved_def carrier_reserves_def)
  have "claims_inv ?st" using control_invD(1) [OF inv] c(1) by (simp add: claims_inv_def claim_of_def)
  moreover have "places_inv ?st"
    using control_invD(2) [OF inv] c(2) by (auto simp: places_inv_def floor_ok_def nth_append less_Suc_eq)
  moreover have "floors_inv ?st" using control_invD(3) [OF inv] res by (simp add: floors_inv_def floor_ok_def)
  moreover have "counter_inv ?st" using counter_inv_frame [OF control_invD(4) [OF inv], of ?st] by simp
  ultimately show ?thesis by (simp add: control_inv_def)
qed

end
