(* ===== verification/Tower_Input.thy ===== *)
theory Tower_Input
  imports Tower
begin

text \<open>
  Start and end of the letter tower: the command line (\<open>HW3/hw3.c\<close>), the input file and the output
  file (\<open>HW3/shared_memory.c\<close>), and the shared state that \<open>main\<close> builds before the processes run. A
  call of \<open>fail\<close> is \<open>Inl\<close> with its message.
\<close>

section \<open>Command line\<close>

record Config =
  cfg_floors :: int
  cfg_word_carriers :: int
  cfg_letter_carriers :: int
  cfg_sorters :: int
  cfg_max_words :: int
  cfg_delivery :: int
  cfg_reposition :: int
  input_path :: string
  output_path :: string

abbreviation PATH_MAX :: nat where "PATH_MAX \<equiv> 4096"
abbreviation MAX_FLOORS :: int where "MAX_FLOORS \<equiv> 32"
abbreviation MAX_WORDS :: nat where "MAX_WORDS \<equiv> 256"

definition zero_config :: Config where
  "zero_config = \<lparr>cfg_floors = 0, cfg_word_carriers = 0, cfg_letter_carriers = 0, cfg_sorters = 0, cfg_max_words = 0,
                  cfg_delivery = 0, cfg_reposition = 0, input_path = [], output_path = []\<rparr>"

definition parse_positive :: "string \<Rightarrow> string \<Rightarrow> string + int" where
  "parse_positive arg name =
     (case strtol arg of (v, rest, _) \<Rightarrow>
        if rest = arg \<or> rest \<noteq> [] \<or> v < 1 \<or> v > 2147483647 then Inl (''Invalid '' @ name @ '': '' @ arg) else Inr v)"

definition copy_string :: "nat \<Rightarrow> string \<Rightarrow> string \<Rightarrow> string + string" where
  "copy_string sz src what = (if length src \<ge> sz then Inl (what @ '' truncated'') else Inr src)"

definition tower_opt :: "Config \<Rightarrow> char \<Rightarrow> string \<Rightarrow> string + Config" where
  "tower_opt cfg opt optarg =
     (if opt = CHR ''f'' then map_sum id (\<lambda>v. cfg\<lparr>cfg_floors := v\<rparr>) (parse_positive optarg ''num_floors'')
      else if opt = CHR ''w'' then map_sum id (\<lambda>v. cfg\<lparr>cfg_word_carriers := v\<rparr>) (parse_positive optarg ''word_carriers_per_floor'')
      else if opt = CHR ''l'' then map_sum id (\<lambda>v. cfg\<lparr>cfg_letter_carriers := v\<rparr>) (parse_positive optarg ''letter_carriers_per_floor'')
      else if opt = CHR ''s'' then map_sum id (\<lambda>v. cfg\<lparr>cfg_sorters := v\<rparr>) (parse_positive optarg ''sorting_processes_per_floor'')
      else if opt = CHR ''c'' then map_sum id (\<lambda>v. cfg\<lparr>cfg_max_words := v\<rparr>) (parse_positive optarg ''max_words_per_floor'')
      else if opt = CHR ''d'' then map_sum id (\<lambda>v. cfg\<lparr>cfg_delivery := v\<rparr>) (parse_positive optarg ''delivery_capacity'')
      else if opt = CHR ''r'' then map_sum id (\<lambda>v. cfg\<lparr>cfg_reposition := v\<rparr>) (parse_positive optarg ''reposition_capacity'')
      else if opt = CHR ''i'' then map_sum id (\<lambda>p. cfg\<lparr>input_path := p\<rparr>) (copy_string PATH_MAX optarg ''input_path'')
      else if opt = CHR ''o'' then map_sum id (\<lambda>p. cfg\<lparr>output_path := p\<rparr>) (copy_string PATH_MAX optarg ''output_path'')
      else Inl ''usage'')"

fun tower_opts :: "Config \<Rightarrow> (char \<times> string) list \<Rightarrow> string + Config" where
  "tower_opts cfg [] = Inr cfg"
| "tower_opts cfg ((opt, optarg) # os) = (case tower_opt cfg opt optarg of Inl e \<Rightarrow> Inl e | Inr cfg' \<Rightarrow> tower_opts cfg' os)"

text \<open>The options that \<open>getopt\<close> returns; \<open>readable\<close> answers \<open>access\<close>.\<close>

definition tower_parse_args :: "(string \<Rightarrow> bool) \<Rightarrow> (char \<times> string) list \<Rightarrow> string + Config" where
  "tower_parse_args readable opts =
     (case tower_opts zero_config opts of
        Inl e \<Rightarrow> Inl e
      | Inr cfg \<Rightarrow>
          if cfg_floors cfg = 0 \<or> cfg_word_carriers cfg = 0 \<or> cfg_letter_carriers cfg = 0 \<or> cfg_sorters cfg = 0 \<or>
             cfg_max_words cfg = 0 \<or> cfg_delivery cfg = 0 \<or> cfg_reposition cfg = 0 \<or> input_path cfg = [] \<or> output_path cfg = []
          then Inl ''usage''
          else if cfg_floors cfg > MAX_FLOORS then Inl ''num_floors exceeds MAX_FLOORS (32)''
          else if \<not> readable (input_path cfg) then Inl (''Input file not readable: '' @ input_path cfg)
          else Inr cfg)"

section \<open>Input and output\<close>

definition is_lower_english :: "string \<Rightarrow> bool" where
  "is_lower_english s \<longleftrightarrow> list_all (\<lambda>c. islower c) s"

fun load_words :: "int \<Rightarrow> string list \<Rightarrow> SharedWord list \<Rightarrow> string + SharedWord list" where
  "load_words floors [] ws = Inr ws"
| "load_words floors (line # ls) ws =
     (if length ws \<ge> MAX_WORDS then Inl ''Input exceeds MAX_WORDS (256)''
      else case sscanf [SInt, SSpace, SStr 63, SSpace, SInt] (c_str line) of
        [VInt wid, VStr word, VInt sf] \<Rightarrow>
          (if sf < 0 \<or> sf \<ge> floors then Inl (''Invalid sorting floor '' @ show_int sf @ '' for word '' @ show_int wid)
           else if \<not> is_lower_english word then Inl (''Non-lowercase word: '' @ word)
           else load_words floors ls (ws @ [new_word wid word sf]))
      | _ \<Rightarrow> Inl (''Invalid input line: '' @ c_str line))"

definition load_input :: "int \<Rightarrow> string option \<Rightarrow> string + SharedWord list" where
  "load_input floors file =
     (case file of
        None \<Rightarrow> Inl ''Cannot open input''
      | Some txt \<Rightarrow>
          (case load_words floors (fgets_lines 256 txt) [] of
             Inl e \<Rightarrow> Inl e
           | Inr ws \<Rightarrow> if ws = [] then Inl ''Input file is empty'' else Inr ws))"

text \<open>The comparison for \<open>qsort\<close>; \<open>None\<close> where the difference of the ids overflows an \<open>int\<close>.\<close>

definition cmp_word_ptrs :: "SharedWord \<Rightarrow> SharedWord \<Rightarrow> int option" where
  "cmp_word_ptrs wa wb =
     (if sorting_floor wa \<noteq> sorting_floor wb then int_sub (sorting_floor wa) (sorting_floor wb)
      else int_sub (word_id wa) (word_id wb))"

definition output_line :: "SharedWord \<Rightarrow> string" where
  "output_line w = show_int (word_id w) @ '' '' @ wtext w @ '' '' @ show_int (sorting_floor w) @ [newline]"

definition cmp_total :: "SharedWord \<Rightarrow> SharedWord \<Rightarrow> int" where
  "cmp_total wa wb = (case cmp_word_ptrs wa wb of Some d \<Rightarrow> d | None \<Rightarrow> 0)"

text \<open>\<open>write_output\<close>; \<open>None\<close> when a comparison that may be made is undefined.\<close>

definition write_output :: "SharedWord list \<Rightarrow> string option" where
  "write_output ws =
     (if list_all (\<lambda>a. list_all (\<lambda>b. cmp_word_ptrs a b \<noteq> None) ws) ws
      then Some (concat (map output_line (qsort_by cmp_total ws))) else None)"

section \<open>The initial state\<close>

definition new_wcarrier :: "int \<Rightarrow> WCarrierState" where
  "new_wcarrier f = \<lparr>wfloor = f, admissions = 0, wretries = 0, wpc = WIdle\<rparr>"

definition new_sorter :: "int \<Rightarrow> SorterState" where
  "new_sorter f = \<lparr>sfloor = f, tasks = 0, spc = SIdle\<rparr>"

text \<open>The shared state with the words, before processes are created.\<close>

definition init_shared_state :: "Config \<Rightarrow> SharedWord list \<Rightarrow> tower" where
  "init_shared_state cfg ws =
     \<lparr>words = ws, active_words = replicate (nat (cfg_floors cfg)) 0, carrier_count = replicate (nat (cfg_floors cfg)) 0,
      respawn_pending = replicate (nat (cfg_floors cfg)) False, carriers = [], wcarriers = [], sorters = [],
      delivery = new_elevator, delivery_woken = False, delivery_batch = [],
      reposition = new_elevator, reposition_woken = False, reposition_batch = [],
      completed_words = 0, rr_cursor = 0, retries = 0, chars_transported = 0, delivery_ops = 0, reposition_ops = 0,
      num_floors = nat (cfg_floors cfg), max_words_per_floor = cfg_max_words cfg,
      letter_carriers_per_floor = nat (cfg_letter_carriers cfg),
      delivery_capacity = nat (cfg_delivery cfg), reposition_capacity = nat (cfg_reposition cfg),
      parent_done = False, failed = False\<rparr>"

definition reserve_wcarrier_slot :: "int \<Rightarrow> tower \<Rightarrow> tower option" where
  "reserve_wcarrier_slot f st =
     (if length (wcarriers st) < 512 then Some (st\<lparr>wcarriers := wcarriers st @ [new_wcarrier f]\<rparr>) else None)"

definition reserve_sorter_slot :: "int \<Rightarrow> tower \<Rightarrow> tower option" where
  "reserve_sorter_slot f st =
     (if length (sorters st) < 512 then Some (st\<lparr>sorters := sorters st @ [new_sorter f]\<rparr>) else None)"

fun repeat_slot :: "(tower \<Rightarrow> tower option) \<Rightarrow> nat \<Rightarrow> tower \<Rightarrow> tower" where
  "repeat_slot r 0 st = st"
| "repeat_slot r (Suc n) st = (case r st of None \<Rightarrow> st\<lparr>failed := True\<rparr> | Some st' \<Rightarrow> repeat_slot r n st')"

definition init_floor :: "Config \<Rightarrow> nat \<Rightarrow> tower \<Rightarrow> tower" where
  "init_floor cfg f st =
     repeat_slot (reserve_sorter_slot (int f)) (nat (cfg_sorters cfg))
       (spawn_letter_carriers (nat (cfg_letter_carriers cfg)) (int f)
         (repeat_slot (reserve_wcarrier_slot (int f)) (nat (cfg_word_carriers cfg)) st))"

definition start_tower :: "Config \<Rightarrow> SharedWord list \<Rightarrow> tower" where
  "start_tower cfg ws = fold (init_floor cfg) [0..<nat (cfg_floors cfg)] (init_shared_state cfg ws)"

section \<open>The order of the output\<close>

text \<open>The comparison without the bounds of \<open>int\<close>.\<close>

definition cmp_exact :: "SharedWord \<Rightarrow> SharedWord \<Rightarrow> int" where
  "cmp_exact wa wb = (if sorting_floor wa \<noteq> sorting_floor wb then sorting_floor wa - sorting_floor wb else word_id wa - word_id wb)"

interpretation word_order: comparator cmp_exact
  by unfold_locales (auto simp: cmp_exact_def split: if_splits)

lemma insert_by_cong: "\<forall>y\<in>set ys. cmp x y = cmp' x y \<Longrightarrow> insert_by cmp x ys = insert_by cmp' x ys"
  by (induction ys) auto

lemma qsort_by_cong:
  assumes "\<forall>a\<in>set xs. \<forall>b\<in>set xs. cmp a b = cmp' a b"
  shows "qsort_by cmp xs = qsort_by cmp' xs \<and> set (qsort_by cmp xs) \<subseteq> set xs"
  using assms
proof (induction xs)
  case (Cons x xs)
  have ins: "set (insert_by c y ys) = insert y (set ys)" for c :: "'a \<Rightarrow> 'a \<Rightarrow> int" and y ys by (induction ys) auto
  have ih: "qsort_by cmp xs = qsort_by cmp' xs" "set (qsort_by cmp xs) \<subseteq> set xs" using Cons by auto
  then have "insert_by cmp x (qsort_by cmp xs) = insert_by cmp' x (qsort_by cmp xs)"
    using Cons.prems by (intro insert_by_cong) auto
  with ih ins show ?case by (auto simp: qsort_by_def)
qed (simp add: qsort_by_def)

lemma write_output_sorted:
  assumes "write_output ws = Some out"
  shows "\<exists>ys. mset ys = mset ws \<and> out = concat (map output_line ys) \<and>
    sorted_wrt (\<lambda>a b. sorting_floor a < sorting_floor b \<or> sorting_floor a = sorting_floor b \<and> word_id a \<le> word_id b) ys"
proof -
  from assms have d: "\<forall>a\<in>set ws. \<forall>b\<in>set ws. cmp_word_ptrs a b \<noteq> None" and out: "out = concat (map output_line (qsort_by cmp_total ws))"
    by (auto simp: write_output_def list_all_iff split: if_splits)
  have "cmp_total a b = cmp_exact a b" if "a \<in> set ws" "b \<in> set ws" for a b
  proof -
    have "cmp_word_ptrs a b \<noteq> None" using d that by blast
    then show ?thesis by (auto simp: cmp_total_def cmp_exact_def cmp_word_ptrs_def int_sub_def split: if_splits)
  qed
  then have eq: "qsort_by cmp_total ws = qsort_by cmp_exact ws" using qsort_by_cong [of ws cmp_total cmp_exact] by blast
  have "sorted_wrt (\<lambda>a b. sorting_floor a < sorting_floor b \<or> sorting_floor a = sorting_floor b \<and> word_id a \<le> word_id b) (qsort_by cmp_exact ws)"
    using word_order.sorted_qsort_by [of ws] by (rule sorted_wrt_mono_rel [rotated]) (auto simp: cmp_exact_def split: if_splits)
  then show ?thesis
    using out eq word_order.mset_qsort_by [of ws] by (intro exI [of _ "qsort_by cmp_exact ws"]) simp
qed

text \<open>Ids that the loader accepts can overflow the difference in the comparison.\<close>

lemma output_compare_overflows:
  "map_sum id (\<lambda>ws. write_output ws) (load_input 1 (Some (''-2147483648 a 0'' @ [newline] @ ''1 b 0'' @ [newline]))) = Inr None"
  by code_simp

end
