(* ===== verification/Tower_Proofs.thy ===== *)
theory Tower_Proofs
  imports Tower_Control Tower_Input
begin

text \<open>
  What the letter tower guarantees in every reachable state, and the lost update on its counter of
  completed words.
\<close>

section \<open>The whole invariant\<close>

definition identity_of :: "SharedWord \<Rightarrow> int \<times> string \<times> int" where
  "identity_of w = (word_id w, wtext w, sorting_floor w)"

definition tower_inv :: "(int \<times> string \<times> int) list \<Rightarrow> tower \<Rightarrow> bool" where
  "tower_inv ids st \<longleftrightarrow> letters_inv st \<and> control_inv st \<and> finish_inv st \<and> map identity_of (words st) = ids \<and>
     (parent_done st \<longrightarrow> int (total_words st) \<le> completed_words st)"

lemma identity_deliver [simp]: "identity_of (snd (deliver_char ci w)) = identity_of w"
  by (simp add: identity_of_def deliver_char_def place_char_in_sorting_area_def split: option.split)

lemma identity_claim_char [simp]: "identity_of (claim_char ci w) = identity_of w"
  by (simp add: identity_of_def claim_char_def)

lemma map_identity_update: "identity_of w' = identity_of (ws ! i) \<Longrightarrow> map identity_of (ws[i := w']) = map identity_of ws"
  by (cases "i < length ws") (simp_all add: map_update list_update_same_conv list_update_beyond)

lemma map_identity_deliver:
  "deliver_char ci (ws ! wi) = (ok, w') \<Longrightarrow> map identity_of (ws[wi := w']) = map identity_of ws"
  using identity_deliver [of ci "ws ! wi"] by (intro map_identity_update) simp

lemma identity_carrier: "carrier_step c choice st = Some st' \<Longrightarrow> map identity_of (words st') = map identity_of (words st)"
  by (auto simp: carrier_step_def idle_carrier_step_def holding_carrier_step_def Let_def map_identity_deliver map_identity_update
      split: if_splits carrier_pc.splits pick.splits option.splits prod.splits)

lemma identity_delivery: "delivery_step st = Some st' \<Longrightarrow> map identity_of (words st') = map identity_of (words st)"
  by (auto simp: delivery_step_def serve_delivery_def Let_def map_identity_deliver split: if_splits list.splits option.splits prod.splits)

lemma identity_reposition: "reposition_step st = Some st' \<Longrightarrow> map identity_of (words st') = map identity_of (words st)"
  by (auto simp: reposition_step_def serve_reposition_def Let_def split: if_splits list.splits prod.splits)

lemma identity_wcarrier: "wcarrier_step k st = Some st' \<Longrightarrow> map identity_of (words st') = map identity_of (words st)"
  by (auto simp: wcarrier_step_def claim_word_def reserve_floors_def admit_word_def Let_def identity_of_def intro!: map_identity_update
      split: if_splits wcarrier_pc.splits option.splits)

lemma sort_word_identity:
  assumes "word_ok w" "\<not> completed w" "sort_word w = (p, w1)"
  shows "identity_of w1 = identity_of w"
  using sort_word_sorts [OF assms] by (simp add: sorts_to_def identity_of_def)

lemma identity_sorter:
  assumes inv: "letters_inv st" and s: "sorter_step k wi st = Some st'"
  shows "map identity_of (words st') = map identity_of (words st)"
proof (cases "spc (sorters st ! k)")
  case SIdle
  with s have p: "sorter_pass k wi st = Some st'" by (auto simp: sorter_step_def split: if_splits)
  obtain b w1 where w1: "sort_word (words st ! wi) = (b, w1)" by (cases "sort_word (words st ! wi)")
  from p have wi: "wi < total_words st" and nc: "\<not> completed (words st ! wi)" by (auto simp: sorter_pass_def Let_def split: if_splits)
  have "identity_of w1 = identity_of (words st ! wi)" by (rule sort_word_identity [OF letters_invD(5) [OF inv wi] nc w1])
  moreover have "identity_of (w1\<lparr>completed := True\<rparr>) = identity_of w1" by (simp add: identity_of_def)
  ultimately show ?thesis using p w1 by (auto simp: sorter_pass_def Let_def map_identity_update split: if_splits)
next
  case (SFinish wj v b)
  have "identity_of (w\<lparr>active_reservation := a\<rparr>) = identity_of w" for w a by (simp add: identity_of_def)
  with s SFinish show ?thesis by (auto simp: sorter_step_def finish_word_def Let_def map_identity_update split: if_splits)
qed

lemma finish_inv_frame: "finish_inv st \<Longrightarrow> sorters st' = sorters st \<Longrightarrow> total_words st' = total_words st \<Longrightarrow> finish_inv st'"
  by (simp add: finish_inv_def)

lemma finish_sorter:
  assumes inv: "finish_inv st" and s: "sorter_step k wi st = Some st'" and len: "total_words st' = total_words st"
  shows "finish_inv st'"
proof -
  have u: "sorters st' = sorters st \<or> (\<exists>s'. sorters st' = (sorters st)[k := s'] \<and> (\<forall>wj v p. spc s' = SFinish wj v p \<longrightarrow> wj < total_words st))"
    using s by (auto simp: sorter_step_def sorter_pass_def finish_word_def Let_def split: if_splits sorter_pc.splits prod.splits)
  show ?thesis
    unfolding finish_inv_def len
  proof
    fix x assume "x \<in> set (sorters st')"
    with u set_update_subset_insert [of "sorters st" k]
    have "x \<in> set (sorters st) \<or> (\<forall>wj v p. spc x = SFinish wj v p \<longrightarrow> wj < total_words st)" by (metis insertE subsetD)
    with inv show "\<forall>wi v p. spc x = SFinish wi v p \<longrightarrow> wi < total_words st" by (auto simp: finish_inv_def)
  qed
qed

lemma control_sorter:
  assumes inv: "letters_inv st" "control_inv st" "finish_inv st" and s: "sorter_step k wi st = Some st'"
  shows "control_inv st'"
proof -
  have k: "k < length (sorters st)" using s by (auto simp: sorter_step_def split: if_splits)
  have ok: "\<forall>wi<total_words st. word_ok (words st ! wi)" using letters_invD(5) [OF inv(1)] by blast
  show ?thesis
  proof (cases "spc (sorters st ! k)")
    case SIdle
    with s k show ?thesis by (intro control_pass [OF inv(2) ok k SIdle, of wi]) (simp add: sorter_step_def)
  next
    case (SFinish wj v b)
    with s k control_finish [OF inv(2,3) k SFinish] show ?thesis by (simp add: sorter_step_def)
  qed
qed

lemma words_length_eq: "map identity_of ws' = map identity_of ws \<Longrightarrow> length ws' = length ws"
  by (rule map_eq_imp_length_eq)

lemma tower_inv_step:
  assumes inv: "tower_inv ids st" and s: "tstep a st = Some st'"
  shows "tower_inv ids st'"
proof -
  note L = inv [unfolded tower_inv_def]
  have l: "letters_inv st" and c: "control_inv st" and f: "finish_inv st" and i: "map identity_of (words st) = ids" and np: "\<not> parent_done st" "\<not> failed st"
    using L s by (auto simp: tstep_def split: if_splits)
  have quiet: "tower_inv ids st'" if "letters_inv st'" "same_control st st'" "map identity_of (words st') = map identity_of (words st)"
    using that control_same [OF c that(2)] i np words_length_eq [OF that(3)] finish_inv_frame [OF f, of st']
    by (simp add: tower_inv_def same_control_def)
  show ?thesis
  proof (cases a)
    case (Word_carrier k)
    with s np have w: "wcarrier_step k st = Some st'" by (simp add: tstep_def)
    have "sorters st' = sorters st \<and> parent_done st' = parent_done st"
      using w by (auto simp: wcarrier_step_def claim_word_def reserve_floors_def admit_word_def Let_def split: if_splits wcarrier_pc.splits option.splits)
    with letters_wcarrier [OF l control_invD(1) [OF c] w] control_wcarrier [OF c w] identity_wcarrier [OF w] i np
      finish_inv_frame [OF f, of st'] words_length_eq [OF identity_wcarrier [OF w]] show ?thesis by (simp add: tower_inv_def)
  next
    case (Letter_carrier d choice)
    with s np have w: "carrier_step d choice st = Some st'" by (simp add: tstep_def)
    show ?thesis using quiet letters_carrier [OF l w] same_control_carrier [OF w] identity_carrier [OF w] by blast
  next
    case (Sorter k wi)
    with s np have w: "sorter_step k wi st = Some st'" by (simp add: tstep_def)
    have "parent_done st' = parent_done st"
      using w by (auto simp: sorter_step_def sorter_pass_def finish_word_def Let_def split: if_splits sorter_pc.splits prod.splits)
    with letters_sorter [OF l w] control_sorter [OF l c f w] identity_sorter [OF l w] i np
      finish_sorter [OF f w words_length_eq [OF identity_sorter [OF l w]]] show ?thesis by (simp add: tower_inv_def)
  next
    case Delivery_elevator
    with s np have w: "delivery_step st = Some st'" by (simp add: tstep_def)
    show ?thesis using quiet letters_delivery [OF l w] same_control_delivery [OF w] identity_delivery [OF w] by blast
  next
    case Reposition_elevator
    with s np have w: "reposition_step st = Some st'" by (simp add: tstep_def)
    show ?thesis using quiet letters_reposition [OF l w] same_control_reposition [OF w] identity_reposition [OF w] by blast
  next
    case (Respawn g)
    with s np have w: "maybe_spawn_more_carriers g st = Some st'" by (simp add: tstep_def)
    have "words (spawn_letter_carriers n h t) = words t" for n h t
      by (induction n arbitrary: t) (auto simp: reserve_carrier_slot_def)
    then have "words st' = words st" using w by (auto simp: maybe_spawn_more_carriers_def split: if_splits)
    moreover have "letters_inv st'" using w letters_spawn [OF l] by (auto simp: maybe_spawn_more_carriers_def split: if_splits)
    ultimately show ?thesis using quiet same_control_respawn [OF w] by simp
  next
    case Parent_end
    with s np have st': "st' = st\<lparr>parent_done := True\<rparr>" "int (total_words st) \<le> completed_words st"
      by (auto simp: tstep_def parent_ends_def split: if_splits)
    have "letters_inv st'" by (rule letters_same [OF l]) (simp_all add: st' same_traffic_def)
    moreover have "control_inv st'" by (rule control_frame [OF c]) (simp_all add: st' finishing_def)
    ultimately show ?thesis using f i st' by (simp add: tower_inv_def finish_inv_def)
  qed
qed

lemma tower_inv_reach: "treach st0 st \<Longrightarrow> tower_inv ids st0 \<Longrightarrow> tower_inv ids st"
  by (induction rule: treach.induct) (auto intro: tower_inv_step)

section \<open>The start\<close>

definition fresh_word :: "int \<Rightarrow> SharedWord \<Rightarrow> bool" where
  "fresh_word floors w \<longleftrightarrow> (\<exists>wid word sf. w = new_word wid word sf \<and> 0 < length word \<and> 0 \<le> sf \<and> sf < floors)"

lemma sscanf_str: "sscanf (SStr w # ds) t = VStr u # vs \<Longrightarrow> u \<noteq> []"
  by (auto simp: Let_def split: if_splits)

lemma sscanf_int: "sscanf (SInt # ds) t = VInt v # vs \<Longrightarrow> \<exists>r. sscanf ds r = vs"
  by (auto simp: Let_def split: prod.splits if_splits)

lemma sscanf_word:
  assumes "sscanf [SInt, SSpace, SStr 63, SSpace, SInt] line = [VInt wid, VStr word, VInt sf]"
  shows "0 < length word"
proof -
  obtain r where "sscanf [SSpace, SStr 63, SSpace, SInt] r = [VStr word, VInt sf]" using sscanf_int [OF assms] by blast
  then have "sscanf [SStr 63, SSpace, SInt] (dropWhile isspace r) = [VStr word, VInt sf]" by (simp only: sscanf.simps(2))
  then show ?thesis using sscanf_str by blast
qed

lemma load_words_fresh: "load_words floors ls ws = Inr ws' \<Longrightarrow> list_all (fresh_word floors) ws \<Longrightarrow> list_all (fresh_word floors) ws'"
proof (induction floors ls ws rule: load_words.induct)
  case (2 floors line ls ws)
  from 2(2) obtain wid word sf where v: "sscanf [SInt, SSpace, SStr 63, SSpace, SInt] (c_str line) = [VInt wid, VStr word, VInt sf]"
    and c: "\<not> MAX_WORDS \<le> length ws" "\<not> (sf < 0 \<or> floors \<le> sf)" "is_lower_english word"
    and l: "load_words floors ls (ws @ [new_word wid word sf]) = Inr ws'"
    by (simp split: if_splits list.splits scan_val.splits)
  have "fresh_word floors (new_word wid word sf)" using c sscanf_word [OF v] unfolding fresh_word_def
    by (intro exI [of _ wid] exI [of _ word] exI [of _ sf]) auto
  with 2(3) have "list_all (fresh_word floors) (ws @ [new_word wid word sf])" by simp
  with 2(1) v c l show ?case by simp
qed simp

lemma load_input_fresh: "load_input floors file = Inr ws \<Longrightarrow> list_all (fresh_word floors) ws"
  by (auto simp: load_input_def dest: load_words_fresh split: option.splits sum.splits if_splits)

lemma parse_positive_Inr: "parse_positive arg name = Inr v \<Longrightarrow> 1 \<le> v"
  by (auto simp: parse_positive_def split: prod.splits if_splits)

lemma map_sum_max:
  "map_sum id f x = Inr cfg' \<Longrightarrow> (\<And>v. cfg_max_words (f v) = m) \<Longrightarrow> cfg_max_words cfg' = m"
  by (cases x) auto

lemma tower_opt_positive:
  assumes "tower_opt cfg ch arg = Inr cfg'" "0 \<le> cfg_max_words cfg"
  shows "0 \<le> cfg_max_words cfg'"
proof (cases "ch = CHR ''c''")
  case True
  with assms(1) show ?thesis
    by (cases "parse_positive arg ''max_words_per_floor''") (auto simp: tower_opt_def dest: parse_positive_Inr)
next
  case False
  with assms(1) have "cfg_max_words cfg' = cfg_max_words cfg"
    unfolding tower_opt_def by (auto split: if_splits elim!: map_sum_max)
  with assms(2) show ?thesis by simp
qed

lemma tower_opts_positive: "tower_opts cfg os = Inr cfg' \<Longrightarrow> 0 \<le> cfg_max_words cfg \<Longrightarrow> 0 \<le> cfg_max_words cfg'"
  by (induction cfg os rule: tower_opts.induct) (auto dest: tower_opt_positive split: sum.splits)

lemma tower_parse_args_max: "tower_parse_args readable opts = Inr cfg \<Longrightarrow> 0 \<le> cfg_max_words cfg"
  by (auto simp: tower_parse_args_def zero_config_def dest: tower_opts_positive split: sum.splits if_splits)

lemma init_shared_inv:
  assumes "list_all (fresh_word (cfg_floors cfg)) ws" "0 \<le> cfg_max_words cfg"
  shows "tower_inv (map identity_of ws) (init_shared_state cfg ws)"
proof -
  let ?st = "init_shared_state cfg ws"
  have nw: "\<exists>wid word sf. ws ! wi = new_word wid word sf \<and> 0 < length word \<and> 0 \<le> sf \<and> sf < cfg_floors cfg" if "wi < length ws" for wi
    using assms(1) that by (auto simp: list_all_length fresh_word_def)
  have ok: "word_ok (ws ! wi)" "\<not> claimed (ws ! wi)" "\<not> admitted (ws ! wi)" "\<not> completed (ws ! wi)" "\<not> active_reservation (ws ! wi)"
    "0 \<le> sorting_floor (ws ! wi)" "sorting_floor (ws ! wi) < cfg_floors cfg" "\<And>ci. ci < wlen (ws ! wi) \<Longrightarrow> \<not> char_in_transit (ws ! wi) ! ci"
    if "wi < length ws" for wi
    using nw [OF that] by (auto simp: new_word_def word_ok_new [unfolded new_word_def])
  have "letters_inv ?st"
    using ok by (auto simp: letters_inv_def words_inv_def token_inv_def wait_inv_def table_inv_def tokens_def waiting_def in_transit_def
        init_shared_state_def new_elevator_def)
  moreover have "reserved ?st f = 0" for f
  proof -
    have "map (word_reserves f) (map ctl ws) = map (\<lambda>_. 0) ws"
      using ok by (auto simp: word_reserves_def ctl_def list_eq_iff_nth_eq)
    then have "sum_list (map (word_reserves f) (map ctl ws)) = 0" by (simp only: sum_list_0)
    then show ?thesis by (simp add: reserved_def init_shared_state_def comp_def)
  qed
  then have "floors_inv ?st" using assms(2) by (auto simp: floors_inv_def floor_ok_def init_shared_state_def nat_less_iff)
  moreover have "claims_inv ?st" using ok by (auto simp: claims_inv_def init_shared_state_def)
  moreover have "places_inv ?st" using ok(2-7) by (force simp: places_inv_def floor_ok_def init_shared_state_def)
  moreover have "counter_inv ?st" by (simp add: counter_inv_def read_values_def finishing_def done_words_def init_shared_state_def)
  ultimately show ?thesis by (simp add: tower_inv_def control_inv_def finish_inv_def init_shared_state_def)
qed

lemma tower_inv_frame:
  assumes inv: "tower_inv ids st" and w: "words st' = words st" "wcarriers st' = wcarriers st" "same_traffic st st'"
    and r: "active_words st' = active_words st" "completed_words st' = completed_words st" "num_floors st' = num_floors st"
      "max_words_per_floor st' = max_words_per_floor st" "finishing st' = finishing st" "parent_done st' = parent_done st"
  shows "tower_inv ids st'"
proof -
  have "finish_inv t \<longleftrightarrow> (\<forall>s\<in>set (finishing t). \<forall>wi v p. spc s = SFinish wi v p \<longrightarrow> wi < total_words t)" for t
    by (auto simp: finish_inv_def finishing_def)
  with inv w r control_frame [of st st'] letters_same [of st st'] show ?thesis by (simp add: tower_inv_def)
qed

lemma tower_inv_sorter_slot:
  assumes "tower_inv ids st" "reserve_sorter_slot f st = Some st'"
  shows "tower_inv ids st'"
proof -
  from assms(2) have st': "st' = st\<lparr>sorters := sorters st @ [new_sorter f]\<rparr>" by (auto simp: reserve_sorter_slot_def split: if_splits)
  have "spc (new_sorter f) = SIdle" by (simp add: new_sorter_def)
  then show ?thesis unfolding st' by (intro tower_inv_frame [OF assms(1)]) (simp_all add: same_traffic_def finishing_def)
qed

lemma tower_inv_wcarrier_slot:
  assumes inv: "tower_inv ids st" and f: "floor_ok st f" and s: "reserve_wcarrier_slot f st = Some st'"
  shows "tower_inv ids st' \<and> num_floors st' = num_floors st"
proof -
  from s have st': "st' = st\<lparr>wcarriers := wcarriers st @ [new_wcarrier f]\<rparr>" by (auto simp: reserve_wcarrier_slot_def split: if_splits)
  have "letters_inv st'" by (rule letters_same [of st]) (use inv in \<open>simp_all add: tower_inv_def st' same_traffic_def\<close>)
  moreover have "control_inv st'"
    using control_add_wcarrier [of st "new_wcarrier f"] inv f by (simp add: tower_inv_def st' new_wcarrier_def)
  ultimately show ?thesis using inv by (simp add: tower_inv_def finish_inv_def st')
qed

lemma tower_inv_failed: "tower_inv ids st \<Longrightarrow> tower_inv ids (st\<lparr>failed := True\<rparr>)"
  by (rule tower_inv_frame) (simp_all add: same_traffic_def finishing_def)

lemma repeat_slot_inv:
  assumes "\<And>st st'. P st \<Longrightarrow> r st = Some st' \<Longrightarrow> P st'" "\<And>st. P st \<Longrightarrow> P (st\<lparr>failed := True\<rparr>)" "P st"
  shows "P (repeat_slot r n st)"
  using assms(3) by (induction n arbitrary: st) (auto split: option.split intro: assms(1,2))

lemma spawn_frame: "words (spawn_letter_carriers n f st) = words st"
  by (induction n arbitrary: st) (auto simp: reserve_carrier_slot_def)

lemma tower_inv_spawn:
  assumes "tower_inv ids st"
  shows "tower_inv ids (spawn_letter_carriers n f st)"
proof -
  note c = same_control_spawn [of st n f]
  have "control_inv (spawn_letter_carriers n f st)" using assms control_same [OF _ c] by (simp add: tower_inv_def)
  with assms c letters_spawn [of st n f] finish_inv_frame [of st "spawn_letter_carriers n f st"] show ?thesis
    by (simp add: tower_inv_def spawn_frame same_control_def)
qed

lemma init_floor_inv:
  assumes inv: "tower_inv ids st" and f: "f < num_floors st"
  shows "tower_inv ids (init_floor cfg f st) \<and> num_floors (init_floor cfg f st) = num_floors st"
proof -
  define P where "P = (\<lambda>t. tower_inv ids t \<and> num_floors t = num_floors st)"
  have fail: "P (t\<lparr>failed := True\<rparr>)" if "P t" for t using that tower_inv_failed by (simp add: P_def)
  have wc: "P t'" if "P t" "reserve_wcarrier_slot (int f) t = Some t'" for t t'
    using tower_inv_wcarrier_slot [of ids t "int f" t'] that f by (simp add: P_def floor_ok_def)
  have so: "P t'" if "P t" "reserve_sorter_slot (int f) t = Some t'" for t t'
    using tower_inv_sorter_slot [of ids t "int f" t'] that by (auto simp: P_def reserve_sorter_slot_def split: if_splits)
  have sp: "P (spawn_letter_carriers m (int f) t)" if "P t" for m t
    using that tower_inv_spawn [of ids t m "int f"] same_control_spawn [of t m "int f"] by (simp add: P_def same_control_def)
  have "P st" using inv by (simp add: P_def)
  then have w: "P (repeat_slot (reserve_wcarrier_slot (int f)) n st)" for n
    by (rule repeat_slot_inv [where P = P, rotated 2]) (fact wc fail)+
  have "P (init_floor cfg f st)"
    unfolding init_floor_def by (rule repeat_slot_inv [where P = P, OF _ _ sp [OF w]]) (fact so fail)+
  then show ?thesis by (simp add: P_def)
qed

lemma start_tower_inv:
  assumes "tower_parse_args readable opts = Inr cfg" "load_input (cfg_floors cfg) file = Inr ws"
  shows "tower_inv (map identity_of ws) (start_tower cfg ws)"
proof -
  let ?n = "nat (cfg_floors cfg)"
  have base: "tower_inv (map identity_of ws) (init_shared_state cfg ws)" "num_floors (init_shared_state cfg ws) = ?n"
    using init_shared_inv load_input_fresh [OF assms(2)] tower_parse_args_max [OF assms(1)] by (auto simp: init_shared_state_def)
  have "tower_inv (map identity_of ws) (fold (init_floor cfg) [0..<m] (init_shared_state cfg ws)) \<and>
        num_floors (fold (init_floor cfg) [0..<m] (init_shared_state cfg ws)) = ?n" if "m \<le> ?n" for m
    using that by (induction m) (use base init_floor_inv in auto)
  then show ?thesis by (simp add: start_tower_def)
qed

section \<open>Properties\<close>

lemma tower_run_inv:
  assumes "tower_parse_args readable opts = Inr cfg" "load_input (cfg_floors cfg) file = Inr ws" "treach (start_tower cfg ws) st"
  shows "tower_inv (map identity_of ws) st"
  using tower_inv_reach [OF assms(3) start_tower_inv [OF assms(1,2)]] .

text \<open>(C27) No letter is lost or doubled: in every reachable state a letter of a word is on its way in
  exactly one place (the hand of one carrier, one request, or the elevator) or not at all, and it lies
  in exactly one slot of the sorting area iff it was delivered; a letter is claimed iff it is on its
  way or delivered, never both.\<close>

theorem letters_conserved:
  assumes "tower_parse_args readable opts = Inr cfg" "load_input (cfg_floors cfg) file = Inr ws" "treach (start_tower cfg ws) st"
    and "wi < total_words st" "ci < wlen (words st ! wi)"
  shows "let w = words st ! wi in
    count (tokens st) (wi, ci) = of_bool (char_in_transit w ! ci) \<and>
    (char_delivered w ! ci \<longleftrightarrow> (\<exists>!i. i < wlen w \<and> occupied w ! i \<and> sorting_meta w ! i = int ci)) \<and>
    (char_claimed w ! ci \<longleftrightarrow> char_delivered w ! ci \<noteq> char_in_transit w ! ci) \<and>
    (char_in_transit w ! ci \<longrightarrow> \<not> char_delivered w ! ci)"
proof -
  have l: "letters_inv st" using tower_run_inv [OF assms(1-3)] by (simp add: tower_inv_def)
  let ?w = "words st ! wi"
  have ok: "word_ok ?w" by (rule letters_invD(5) [OF l assms(4)])
  have "count (tokens st) (wi, ci) = of_bool (char_in_transit ?w ! ci)"
    using letters_invD(2) [OF l] assms(4,5) by (simp add: token_inv_def in_transit_def)
  moreover have "(\<exists>!i. i < wlen ?w \<and> occupied ?w ! i \<and> sorting_meta ?w ! i = int ci)" if "char_delivered ?w ! ci"
    using word_okD(4) [OF ok assms(5) that] word_okD(3) [OF ok] by metis
  moreover have "char_delivered ?w ! ci" if "i < wlen ?w" "occupied ?w ! i" "sorting_meta ?w ! i = int ci" for i
    using word_okD(2) [OF ok that(1,2)] that(3) by auto
  moreover have "(char_claimed ?w ! ci \<longleftrightarrow> char_delivered ?w ! ci \<or> char_in_transit ?w ! ci) \<and> (char_in_transit ?w ! ci \<longrightarrow> \<not> char_delivered ?w ! ci)"
    using word_okD(6) [OF ok] assms(5) by (simp add: chars_ok_def)
  ultimately show ?thesis unfolding Let_def by (intro conjI) blast+
qed

text \<open>(C31) Requests always succeed: no step of a reachable state fails except the creation of letter
  carriers beyond the 512 slots. In particular neither request table ever overflows, and every letter
  in the elevator or in the hand of a carrier finds a slot, so \<open>deliver_char\<close> never takes its retry branch.\<close>

theorem requests_never_overflow:
  assumes "tower_parse_args readable opts = Inr cfg" "load_input (cfg_floors cfg) file = Inr ws" "treach (start_tower cfg ws) st"
  shows "(\<forall>a st'. tstep a st = Some st' \<and> failed st' \<longrightarrow> (\<exists>f. a = Respawn f)) \<and>
    (\<forall>wi ci. (wi, ci) \<in># tokens st \<longrightarrow> fst (deliver_char ci (words st ! wi)))"
proof -
  have inv: "tower_inv (map identity_of ws) st" by (rule tower_run_inv [OF assms])
  then have l: "letters_inv st" by (simp add: tower_inv_def)
  have "\<exists>f. a = Respawn f" if s: "tstep a st = Some st'" and f: "failed st'" for a st'
  proof (rule ccontr)
    assume n: "\<not> (\<exists>f. a = Respawn f)"
    have np: "\<not> failed st" using s by (auto simp: tstep_def split: if_splits)
    have "failed st' = failed st"
    proof (cases a)
      case (Word_carrier k)
      with s np show ?thesis
        by (auto simp: tstep_def wcarrier_step_def claim_word_def reserve_floors_def admit_word_def Let_def split: if_splits wcarrier_pc.splits option.splits)
    next
      case (Sorter k wi)
      with s np show ?thesis
        by (auto simp: tstep_def sorter_step_def sorter_pass_def finish_word_def Let_def split: if_splits sorter_pc.splits prod.splits)
    next
      case (Letter_carrier c choice)
      with s np letters_carrier [OF l, of c choice st'] show ?thesis by (auto simp: tstep_def split: if_splits)
    next
      case Delivery_elevator
      with s np letters_delivery [OF l, of st'] show ?thesis by (auto simp: tstep_def split: if_splits)
    next
      case Reposition_elevator
      with s np letters_reposition [OF l, of st'] show ?thesis by (auto simp: tstep_def split: if_splits)
    qed (use s np n in \<open>auto simp: tstep_def parent_ends_def split: if_splits\<close>)
    with f np show False by simp
  qed
  moreover have "fst (deliver_char ci (words st ! wi))" if t: "(wi, ci) \<in># tokens st" for wi ci
  proof -
    have "in_transit st wi ci" by (rule token_in_transit [OF letters_invD(2) [OF l] t])
    then have "wi < total_words st" "ci < wlen (words st ! wi)" "char_in_transit (words st ! wi) ! ci" by (auto simp: in_transit_def)
    then show ?thesis using deliver_char_ok [OF letters_invD(5) [OF l]] by (metis fst_conv)
  qed
  ultimately show ?thesis by blast
qed

text \<open>(C30) Floor capacity: in every reachable state the count of active words of a floor is the number
  of words that hold a place there (as arrival or as sorting floor), and it is between 0 and the
  configured maximum.\<close>

theorem floor_capacity:
  assumes "tower_parse_args readable opts = Inr cfg" "load_input (cfg_floors cfg) file = Inr ws" "treach (start_tower cfg ws) st"
    and "f < num_floors st"
  shows "active_words st ! f = reserved st (int f) \<and> 0 \<le> active_words st ! f \<and> active_words st ! f \<le> max_words_per_floor st"
proof -
  have c: "control_inv st" using tower_run_inv [OF assms(1-3)] by (simp add: tower_inv_def)
  have r: "active_words st ! f = reserved st (int f)" "reserved st (int f) \<le> max_words_per_floor st"
    using control_invD(3) [OF c] assms(4) by (auto simp: floors_inv_def floor_ok_def dest!: spec [of _ "int f"])
  have "0 \<le> sum_list (map (word_reserves (int f)) (map ctl (words st)))"
    by (intro sum_list_nonneg) (auto simp: word_reserves_def split: prod.splits)
  moreover have "0 \<le> sum_list (map (carrier_reserves st (int f)) (wcarriers st))"
    by (intro sum_list_nonneg) (auto simp: carrier_reserves_def split: wcarrier_pc.splits bool.splits)
  ultimately show ?thesis using r by (simp add: reserved_def)
qed

text \<open>The end of a run: when the parent leaves its loop and writes the output, every word is
  completed, its sorting area reads the word, and the words are those of the input file.\<close>

theorem finished_run_is_complete:
  assumes "tower_parse_args readable opts = Inr cfg" "load_input (cfg_floors cfg) file = Inr ws" "treach (start_tower cfg ws) st"
    and "parent_done st"
  shows "map identity_of (words st) = map identity_of ws \<and> (\<forall>w\<in>set (words st). completed w \<and> sorting_area w = wtext w)"
proof -
  have inv: "tower_inv (map identity_of ws) st" by (rule tower_run_inv [OF assms(1-3)])
  have "int (total_words st) \<le> completed_words st" using inv assms(4) by (simp add: tower_inv_def)
  moreover have "completed_words st + int (length (finishing st)) \<le> int (done_words st)"
    using inv by (simp add: tower_inv_def control_inv_def counter_inv_def read_values_def)
  ultimately have "length (words st) \<le> length (filter completed (words st))" by (simp add: done_words_def)
  then have "filter completed (words st) = words st" by (metis filter_True le_antisym length_filter_le length_filter_less linorder_not_less)
  then have all: "\<forall>w\<in>set (words st). completed w" by (metis filter_id_conv)
  have "sorting_area w = wtext w" if "w \<in> set (words st)" for w
  proof -
    have "word_ok w" using inv that by (auto simp: tower_inv_def letters_inv_def words_inv_def in_set_conv_nth)
    with all that word_okD(7) [of w] all_fixed_text [of w] show ?thesis by simp
  qed
  with all inv show ?thesis by (simp add: tower_inv_def)
qed

section \<open>The lost update\<close>

definition stuck :: "tower \<Rightarrow> bool" where
  "stuck st \<longleftrightarrow> list_all completed (words st) \<and> list_all (\<lambda>s. spc s = SIdle) (sorters st) \<and>
     completed_words st < int (total_words st) \<and> \<not> parent_done st"

definition race_config :: Config where
  "race_config = \<lparr>cfg_floors = 1, cfg_word_carriers = 1, cfg_letter_carriers = 1, cfg_sorters = 2, cfg_max_words = 2,
                  cfg_delivery = 1, cfg_reposition = 1, input_path = ''in'', output_path = ''out''\<rparr>"

definition race_schedule :: "tower_actor list" where
  "race_schedule =
     [Word_carrier 0, Word_carrier 0, Word_carrier 0, Word_carrier 0, Word_carrier 0, Word_carrier 0,
      Letter_carrier 0 (Pick 0 0), Letter_carrier 0 (Pick 0 0), Letter_carrier 0 (Pick 1 0), Letter_carrier 0 (Pick 1 0),
      Sorter 0 0, Sorter 1 1, Sorter 0 0, Sorter 1 1]"

lemma race_eval:
  "map_option stuck (trun race_schedule (start_tower race_config [new_word 1 ''a'' 0, new_word 2 ''b'' 0])) = Some True"
  by code_simp

lemma stuck_frame:
  assumes "stuck st" "map completed (words st') = map completed (words st)" "sorters st' = sorters st"
    "completed_words st' = completed_words st" "parent_done st' = parent_done st"
  shows "stuck st'"
proof -
  have eq: "list_all completed ws = list_all id (map completed ws)" for ws by (simp add: list_all_iff)
  have "list_all completed (words st')" using assms(1,2) unfolding stuck_def eq by simp
  moreover have "total_words st' = total_words st" using assms(2) by (rule map_eq_imp_length_eq)
  ultimately show ?thesis using assms by (simp add: stuck_def)
qed

lemma stuck_control: "stuck st \<Longrightarrow> same_control st st' \<Longrightarrow> stuck st'"
proof (rule stuck_frame)
  assume c: "same_control st st'"
  have "map completed ws = map (\<lambda>k. fst (snd (snd k))) (map ctl ws)" for ws by (simp add: ctl_def)
  then show "map completed (words st') = map completed (words st)" using c unfolding same_control_def by metis
qed (simp_all add: same_control_def)

lemma stuck_step:
  assumes st: "stuck st" and s: "tstep a st = Some st'"
  shows "stuck st'"
proof (cases a)
  case (Word_carrier k)
  with s have w: "wcarrier_step k st = Some st'" by (auto simp: tstep_def split: if_splits)
  have "scan_words st ss = None" if "\<forall>x\<in>set (words st). completed x" "0 < total_words st" for ss
    using that by (induction ss) (auto simp: Let_def unclaimed_def)
  moreover have "0 < total_words st" "\<forall>x\<in>set (words st). completed x" if "scan_words st [0..<total_words st] = Some i" for i
    using that st by (auto simp: stuck_def list_all_iff)
  ultimately have "scan_words st [0..<total_words st] = None" by (metis not_None_eq)
  with w show ?thesis
    by (intro stuck_frame [OF st])
      (auto simp: wcarrier_step_def claim_word_def reserve_floors_def admit_word_def Let_def map_completed_update split: if_splits wcarrier_pc.splits option.splits)
next
  case (Sorter k wi)
  with s st show ?thesis
    by (auto simp: tstep_def sorter_step_def sorter_pass_def stuck_def list_all_length Let_def split: if_splits sorter_pc.splits)
next
  case (Letter_carrier c choice)
  with s stuck_control [OF st same_control_carrier, of c choice st'] show ?thesis by (auto simp: tstep_def split: if_splits)
next
  case Delivery_elevator
  with s stuck_control [OF st same_control_delivery, of st'] show ?thesis by (auto simp: tstep_def split: if_splits)
next
  case Reposition_elevator
  with s stuck_control [OF st same_control_reposition, of st'] show ?thesis by (auto simp: tstep_def split: if_splits)
next
  case (Respawn f)
  with s stuck_control [OF st same_control_respawn, of f st'] show ?thesis by (auto simp: tstep_def split: if_splits)
next
  case Parent_end
  with s st show ?thesis by (auto simp: tstep_def parent_ends_def stuck_def split: if_splits)
qed

lemma stuck_forever: "treach st st' \<Longrightarrow> stuck st \<Longrightarrow> stuck st'"
  by (induction rule: treach.induct) (auto intro: stuck_step)

lemma trun_reach: "trun as st = Some st' \<Longrightarrow> treach st0 st \<Longrightarrow> treach st0 st'"
  by (induction "as" arbitrary: st) (auto split: option.splits intro: treach.step)

text \<open>(C33) The lost update: two sorters that complete different words at the same time can both read
  the same value of \<open>completed_words\<close>, whose increment no common lock protects. One completion is then
  never counted: all words are complete, but the parent waits forever and writes no output.\<close>

theorem completed_words_lost_update:
  "\<exists>st. treach (start_tower race_config [new_word 1 ''a'' 0, new_word 2 ''b'' 0]) st \<and>
     list_all completed (words st) \<and> {st'. treach st st' \<and> parent_done st'} = {}"
proof -
  let ?s0 = "start_tower race_config [new_word 1 ''a'' 0, new_word 2 ''b'' 0]"
  obtain st where st: "trun race_schedule ?s0 = Some st" "stuck st" using race_eval by auto
  have "treach ?s0 st" by (rule trun_reach [OF st(1) treach.start])
  moreover have "\<not> parent_done st'" if "treach st st'" for st' using stuck_forever [OF that st(2)] by (simp add: stuck_def)
  ultimately show ?thesis using st(2) by (auto simp: stuck_def)
qed

section \<open>Witnesses\<close>

definition small_options :: "(char \<times> string) list" where
  "small_options = [(CHR ''f'', ''1''), (CHR ''w'', ''1''), (CHR ''l'', ''1''), (CHR ''s'', ''1''), (CHR ''c'', ''2''),
     (CHR ''d'', ''1''), (CHR ''r'', ''1''), (CHR ''i'', ''in''), (CHR ''o'', ''out'')]"

definition small_config :: Config where
  "small_config = \<lparr>cfg_floors = 1, cfg_word_carriers = 1, cfg_letter_carriers = 1, cfg_sorters = 1, cfg_max_words = 2,
                   cfg_delivery = 1, cfg_reposition = 1, input_path = ''in'', output_path = ''out''\<rparr>"

definition small_words :: "SharedWord list" where
  "small_words = [new_word 7 ''ab'' 0]"

definition small_schedule :: "tower_actor list" where
  "small_schedule = [Word_carrier 0, Word_carrier 0, Word_carrier 0, Letter_carrier 0 (Pick 0 1), Letter_carrier 0 (Pick 0 1),
     Letter_carrier 0 (Pick 0 0), Letter_carrier 0 (Pick 0 0), Sorter 0 0, Sorter 0 0, Parent_end]"

lemma small_start:
  "tower_parse_args (\<lambda>_. True) small_options = Inr small_config"
  "load_input (cfg_floors small_config) (Some (''7 ab 0'' @ [newline])) = Inr small_words"
  by code_simp+

lemma small_eval:
  "map_option (\<lambda>st. parent_done st \<and> map sorting_area (words st) = [''ab''] \<and> num_floors st = 1) (trun small_schedule (start_tower small_config small_words)) = Some True"
  "map_option (\<lambda>st. total_words st = 1 \<and> wlen (words st ! 0) = 2 \<and> char_in_transit (words st ! 0) ! 1 \<and> num_floors st = 1 \<and> active_words st ! 0 = 1)
     (trun (take 4 small_schedule) (start_tower small_config small_words)) = Some True"
  "map_option (\<lambda>st. map cpc (carriers st)) (trun (take 4 small_schedule) (start_tower small_config small_words)) = Some [CHolding 0 1]"
  by code_simp+

theorem letters_conserved_witness:
  "\<exists>st. treach (start_tower small_config small_words) st \<and> count (tokens st) (0, 1) = 1"
proof -
  obtain st where st: "trun (take 4 small_schedule) (start_tower small_config small_words) = Some st"
    "total_words st = 1" "wlen (words st ! 0) = 2" "char_in_transit (words st ! 0) ! 1"
    using small_eval(2) by auto
  have r: "treach (start_tower small_config small_words) st" by (rule trun_reach [OF st(1) treach.start])
  with letters_conserved [OF small_start r, of 0 1] st show ?thesis by (auto simp: Let_def)
qed

theorem requests_never_overflow_witness:
  "\<exists>st. treach (start_tower small_config small_words) st \<and> (0, 1) \<in># tokens st \<and> fst (deliver_char 1 (words st ! 0))"
proof -
  obtain st where st: "trun (take 4 small_schedule) (start_tower small_config small_words) = Some st"
    "map cpc (carriers st) = [CHolding 0 1]" using small_eval(3) by auto
  have r: "treach (start_tower small_config small_words) st" by (rule trun_reach [OF st(1) treach.start])
  have "(0, 1) \<in># tokens st" using st(2) by (auto simp: tokens_def)
  with requests_never_overflow [OF small_start r] r show ?thesis by blast
qed

theorem floor_capacity_witness:
  "\<exists>st. treach (start_tower small_config small_words) st \<and> active_words st ! 0 = 1 \<and> reserved st 0 = 1"
proof -
  obtain st where st: "trun (take 4 small_schedule) (start_tower small_config small_words) = Some st"
    "num_floors st = 1" "active_words st ! 0 = 1" using small_eval(2) by auto
  have r: "treach (start_tower small_config small_words) st" by (rule trun_reach [OF st(1) treach.start])
  with floor_capacity [OF small_start r, of 0] st show ?thesis by auto
qed

theorem finished_run_is_complete_witness:
  "\<exists>st. treach (start_tower small_config small_words) st \<and> parent_done st \<and> (\<forall>w\<in>set (words st). completed w \<and> sorting_area w = wtext w)"
proof -
  obtain st where st: "trun small_schedule (start_tower small_config small_words) = Some st" "parent_done st"
    using small_eval(1) by auto
  have r: "treach (start_tower small_config small_words) st" by (rule trun_reach [OF st(1) treach.start])
  with finished_run_is_complete [OF small_start r st(2)] st(2) show ?thesis by auto
qed

end
