(* ===== verification/Tower_End.thy ===== *)
theory Tower_End
  imports Tower_Proofs
begin

text \<open>
  The end of the letter tower (\<open>HW3/hw3.c\<close> and \<open>print_summary\<close> of \<open>HW3/shared_memory.c\<close>): what the parent does
  when it has left its loop, and the composition from the input file to the output file. Every process that
  has a slot has a positive process id.
\<close>

section \<open>Model\<close>

text \<open>The number of an element and the element.\<close>

abbreviation numbered :: "'a list \<Rightarrow> (nat \<times> 'a) list" where
  "numbered xs \<equiv> zip [0..<length xs] xs"

definition print_tower_summary :: "tower \<Rightarrow> string list" where
  "print_tower_summary st =
     [''System Summary:'',
      ''Total words: '' @ show_nat (total_words st),
      ''Completed words: '' @ show_int (completed_words st),
      ''Retries: '' @ show_int (retries st),
      ''Characters transported: '' @ show_int (chars_transported st),
      ''Delivery elevator operations: '' @ show_int (delivery_ops st),
      ''Reposition elevator operations: '' @ show_int (reposition_ops st)] @
     map (\<lambda>(i, c). ''Word-carrier-process_'' @ show_nat i @ '' stats: admissions='' @ show_int (admissions c) @
            '' retries='' @ show_int (wretries c)) (numbered (wcarriers st)) @
     map (\<lambda>(i, c). ''Letter-carrier-process_'' @ show_nat i @ '' stats: deliveries='' @ show_int (deliveries c) @
            '' direct='' @ show_int (direct_placements c) @ '' repositions='' @ show_int (repositions c) @
            '' current_floor='' @ show_int (current_floor c)) (numbered (carriers st)) @
     map (\<lambda>(i, c). ''Sorting-process_'' @ show_nat i @ '' stats: tasks='' @ show_int (tasks c) @
            '' floor='' @ show_int (sfloor c)) (numbered (sorters st))"

datatype tower_exit = Output_Written string "string list" | Interrupted_Run

text \<open>The end of \<open>main\<close>; \<open>stop\<close> is \<open>g_stop\<close>. \<open>None\<close> when a comparison of \<open>write_output\<close> overflows.\<close>

definition tower_end :: "bool \<Rightarrow> tower \<Rightarrow> tower_exit option" where
  "tower_end stop st =
     (if completed_words st = int (total_words st) \<and> \<not> stop
      then map_option (\<lambda>out. Output_Written out (print_tower_summary st)) (write_output (words st))
      else Some Interrupted_Run)"

text \<open>\<open>terminate_children\<close>: the processes that get SIGTERM and are then waited for.\<close>

definition tower_terminated :: "int list \<Rightarrow> int list" where
  "tower_terminated children = filter (\<lambda>p. p > 0) children"

section \<open>Facts\<close>

definition line_of :: "int \<times> string \<times> int \<Rightarrow> string" where
  "line_of x = (case x of (i, t, f) \<Rightarrow> show_int i @ '' '' @ t @ '' '' @ show_int f @ [newline])"

lemma output_line_of: "output_line w = line_of (identity_of w)"
  by (simp add: output_line_def line_of_def identity_of_def)

definition before :: "int \<times> string \<times> int \<Rightarrow> int \<times> string \<times> int \<Rightarrow> bool" where
  "before x y \<longleftrightarrow> (case (x, y) of ((i, s, f), (j, t, g)) \<Rightarrow> f < g \<or> f = g \<and> i \<le> j)"

lemma completed_bound:
  assumes "tower_inv ids st"
  shows "completed_words st \<le> int (total_words st)"
proof -
  have "completed_words st + int (length (finishing st)) \<le> int (done_words st)"
    using assms by (simp add: tower_inv_def control_inv_def counter_inv_def read_values_def)
  moreover have "done_words st \<le> total_words st" by (simp add: done_words_def)
  ultimately show ?thesis by linarith
qed

text \<open>Two words of one floor whose ids are too far apart for the subtraction of the comparison.\<close>

definition far_ids :: "(int \<times> string \<times> int) list \<Rightarrow> bool" where
  "far_ids xs \<longleftrightarrow> list_ex (\<lambda>(i, s, f). list_ex (\<lambda>(j, t, g). f = g \<and> \<not> in_int (i - j)) xs) xs"

lemma write_output_defined:
  assumes "\<forall>w\<in>set ws. 0 \<le> sorting_floor w \<and> sorting_floor w \<le> MAX_FLOORS"
  shows "write_output ws = None \<longleftrightarrow> far_ids (map identity_of ws)"
proof -
  have "int_sub (sorting_floor a) (sorting_floor b) \<noteq> None" if "a \<in> set ws" "b \<in> set ws" for a b
  proof -
    have "0 \<le> sorting_floor a" "sorting_floor a \<le> MAX_FLOORS" "0 \<le> sorting_floor b" "sorting_floor b \<le> MAX_FLOORS"
      using assms that by auto
    then show ?thesis by (simp add: int_sub_def in_int_def INT_MAX_def INT_MIN_def)
  qed
  then have "cmp_word_ptrs a b = None \<longleftrightarrow> sorting_floor a = sorting_floor b \<and> \<not> in_int (word_id a - word_id b)"
    if "a \<in> set ws" "b \<in> set ws" for a b
    using that by (auto simp: cmp_word_ptrs_def int_sub_def)
  then have "(\<exists>a\<in>set ws. \<exists>b\<in>set ws. cmp_word_ptrs a b = None) \<longleftrightarrow>
      (\<exists>a\<in>set ws. \<exists>b\<in>set ws. sorting_floor a = sorting_floor b \<and> \<not> in_int (word_id a - word_id b))" by blast
  moreover have "write_output ws = None \<longleftrightarrow> (\<exists>a\<in>set ws. \<exists>b\<in>set ws. cmp_word_ptrs a b = None)"
    unfolding write_output_def list_all_iff by simp
  ultimately show ?thesis
    by (simp add: far_ids_def list_ex_iff identity_of_def)
qed

lemma parsed_floors: "tower_parse_args readable opts = Inr cfg \<Longrightarrow> cfg_floors cfg \<le> MAX_FLOORS"
  by (auto simp: tower_parse_args_def split: sum.splits if_splits)

section \<open>Property\<close>

text \<open>(C28) From the input file to the output file: when the parent leaves its loop without a signal, every word has
  been completed with its letters sorted into place. If two words of one floor have ids whose difference is no
  \<open>int\<close>, which the loader accepts, the comparison of the output is undefined; otherwise the output file lists
  exactly the words of the input, by ascending floor and then by ascending id.\<close>

theorem tower_output_correct:
  assumes "tower_parse_args readable opts = Inr cfg" and "load_input (cfg_floors cfg) file = Inr ws"
    and "treach (start_tower cfg ws) st" and "parent_done st"
  shows "list_all (\<lambda>w. completed w \<and> sorting_area w = wtext w) (words st) \<and>
     (if far_ids (map identity_of ws) then tower_end False st = None
      else \<exists>xs. tower_end False st = Some (Output_Written (concat (map line_of xs)) (print_tower_summary st)) \<and>
           mset xs = mset (map identity_of ws) \<and> sorted_wrt before xs)"
proof -
  have inv: "tower_inv (map identity_of ws) st" by (rule tower_run_inv [OF assms(1-3)])
  have words: "map identity_of (words st) = map identity_of ws" "\<forall>w\<in>set (words st). completed w \<and> sorting_area w = wtext w"
    using finished_run_is_complete [OF assms(1-4)] by simp_all
  have "int (total_words st) \<le> completed_words st" using inv assms(4) by (simp add: tower_inv_def)
  with completed_bound [OF inv] have full: "completed_words st = int (total_words st)" by linarith
  have "0 \<le> f \<and> f \<le> MAX_FLOORS" if "(i, s, f) \<in> set (map identity_of ws)" for i s f
    using that load_input_fresh [OF assms(2)] parsed_floors [OF assms(1)]
    by (fastforce simp: list_all_iff fresh_word_def identity_of_def new_word_def)
  then have "\<forall>w\<in>set (words st). 0 \<le> sorting_floor w \<and> sorting_floor w \<le> MAX_FLOORS"
    unfolding words(1) [symmetric] by (auto simp: identity_of_def)
  note defd = write_output_defined [OF this, unfolded words(1)]
  show ?thesis
  proof (cases "far_ids (map identity_of ws)")
    case True
    then have "write_output (words st) = None" using defd by simp
    then have "tower_end False st = None" using full by (simp add: tower_end_def)
    with True words(2) show ?thesis by (simp add: list_all_iff)
  next
    case False
    then obtain out where out: "write_output (words st) = Some out" using defd by auto
    obtain ys where ys: "mset ys = mset (words st)" "out = concat (map output_line ys)"
      "sorted_wrt (\<lambda>a b. sorting_floor a < sorting_floor b \<or> sorting_floor a = sorting_floor b \<and> word_id a \<le> word_id b) ys"
      using write_output_sorted [OF out] by blast
    have "mset (map identity_of ys) = mset (map identity_of ws)" unfolding mset_map ys(1) words(1) [symmetric] ..
    moreover have "out = concat (map line_of (map identity_of ys))" unfolding ys(2) output_line_of by (simp add: o_def)
    moreover have "sorted_wrt before (map identity_of ys)"
      using ys(3) by (simp add: sorted_wrt_map before_def identity_of_def)
    ultimately have "\<exists>xs. tower_end False st = Some (Output_Written (concat (map line_of xs)) (print_tower_summary st)) \<and>
        mset xs = mset (map identity_of ws) \<and> sorted_wrt before xs"
      using full out by (intro exI [of _ "map identity_of ys"]) (simp add: tower_end_def)
    with words(2) False show ?thesis by (simp add: list_all_iff)
  qed
qed

theorem tower_output_correct_witness:
  "\<exists>st. treach (start_tower small_config small_words) st \<and>
     list_all (\<lambda>w. completed w \<and> sorting_area w = wtext w) (words st) \<and>
     (\<exists>xs. tower_end False st = Some (Output_Written (concat (map line_of xs)) (print_tower_summary st)) \<and>
           mset xs = mset (map identity_of small_words))"
proof -
  obtain st where st: "trun small_schedule (start_tower small_config small_words) = Some st" "parent_done st"
    using small_eval(1) by auto
  have r: "treach (start_tower small_config small_words) st" by (rule trun_reach [OF st(1) treach.start])
  have "\<not> far_ids (map identity_of small_words)" by code_simp
  with tower_output_correct [OF small_start r st(2)] r show ?thesis by auto
qed

end
