(* ===== verification/Tower_Sync.thy ===== *)
theory Tower_Sync
  imports Tower_End
begin

text \<open>
  The named semaphores of the letter tower (\<open>HW3/shared_memory.c\<close>, \<open>HW3/hw3.c\<close>): their creation and removal, the
  waits, the signal handler and the waking of all processes at the end. The namespace of the system is a map from
  names to values; whether a call of the system fails, and what a wait returns, are arguments.
\<close>

section \<open>Creation and removal\<close>

record sem_reg =
  g_sem_names :: "string list"
  named :: "string \<rightharpoonup> nat"

record sem_calls =
  unlink_error :: "string \<Rightarrow> bool"
  open_error :: "string \<Rightarrow> bool"
  close_error :: "string \<Rightarrow> bool"

abbreviation g_sem_count :: "sem_reg \<Rightarrow> nat" where
  "g_sem_count r \<equiv> length (g_sem_names r)"

definition sem_name :: "int \<Rightarrow> nat \<Rightarrow> string" where
  "sem_name pid n = ''/hw3_'' @ show_int pid @ ''_'' @ show_nat n"

definition checked_snprintf :: "nat \<Rightarrow> string \<Rightarrow> string \<Rightarrow> string + string" where
  "checked_snprintf sz what s = (if length s \<ge> sz then Inl (what @ '' truncated'') else Inr s)"

text \<open>The message of \<open>fail\<close>, if the process ends here, with the table and the namespace it leaves. \<open>unlink_error\<close>
  stands for every error but \<open>ENOENT\<close>.\<close>

definition init_semaphore :: "sem_calls \<Rightarrow> int \<Rightarrow> nat \<Rightarrow> sem_reg \<Rightarrow> string option \<times> sem_reg" where
  "init_semaphore os pid v r =
     (if g_sem_count r \<ge> 4096 then (Some ''Too many semaphores'', r)
      else case checked_snprintf 64 ''semaphore name'' (sem_name pid (g_sem_count r)) of
        Inl e \<Rightarrow> (Some e, r)
      | Inr name \<Rightarrow>
          if unlink_error os name then (Some (''sem_unlink('' @ name @ '')''), r)
          else let r1 = r\<lparr>named := (named r)(name := None)\<rparr> in
            if open_error os name then (Some (''sem_open('' @ name @ '')''), r1)
            else let r2 = r1\<lparr>named := (named r1)(name \<mapsto> v)\<rparr> in
              (case copy_string 64 name ''g_sem_names'' of
                Inl e \<Rightarrow> (Some e, r2)
              | Inr name' \<Rightarrow> (None, r2\<lparr>g_sem_names := g_sem_names r2 @ [name']\<rparr>)))"

text \<open>Successive calls of \<open>init_semaphore\<close>.\<close>

fun init_semaphores :: "sem_calls \<Rightarrow> int \<Rightarrow> nat list \<Rightarrow> sem_reg \<Rightarrow> string option \<times> sem_reg" where
  "init_semaphores os pid [] r = (None, r)"
| "init_semaphores os pid (v # vs) r =
     (case init_semaphore os pid v r of (Some e, r') \<Rightarrow> (Some e, r') | (None, r') \<Rightarrow> init_semaphores os pid vs r')"

text \<open>The initial values that \<open>init_shared_state\<close> gives its semaphores, in order.\<close>

definition shared_sem_values :: "nat \<Rightarrow> nat list" where
  "shared_sem_values floors = [1, 1, 1, 0, 1, 0, 0, 0] @ concat (replicate floors [1, 0])"

text \<open>The loop of \<open>load_input\<close> with the two semaphores of each word.\<close>

fun load_lines_sems ::
  "sem_calls \<Rightarrow> int \<Rightarrow> int \<Rightarrow> string list \<Rightarrow> SharedWord list \<Rightarrow> sem_reg \<Rightarrow> (string + SharedWord list) \<times> sem_reg" where
  "load_lines_sems os pid floors [] ws r = (Inr ws, r)"
| "load_lines_sems os pid floors (line # ls) ws r =
     (case load_words floors [line] ws of
        Inl e \<Rightarrow> (Inl e, r)
      | Inr ws' \<Rightarrow>
          (case init_semaphores os pid [1, 1] r of
             (Some e, r') \<Rightarrow> (Inl e, r')
           | (None, r') \<Rightarrow> load_lines_sems os pid floors ls ws' r'))"

definition load_input_sems :: "sem_calls \<Rightarrow> int \<Rightarrow> int \<Rightarrow> string option \<Rightarrow> sem_reg \<Rightarrow> (string + SharedWord list) \<times> sem_reg" where
  "load_input_sems os pid floors file r =
     (case file of
        None \<Rightarrow> (Inl ''Cannot open input'', r)
      | Some txt \<Rightarrow>
          (case load_lines_sems os pid floors (fgets_lines 256 txt) [] r of
             (Inl e, r') \<Rightarrow> (Inl e, r')
           | (Inr ws, r') \<Rightarrow> (if ws = [] then Inl ''Input file is empty'' else Inr ws, r')))"

text \<open>\<open>cleanup_named_sems\<close>, from the last semaphore to the first. No entry of the table is \<open>NULL\<close> or empty.\<close>

fun close_and_unlink :: "sem_calls \<Rightarrow> string list \<Rightarrow> (string \<rightharpoonup> nat) \<Rightarrow> string option \<times> (string \<rightharpoonup> nat)" where
  "close_and_unlink os [] nm = (None, nm)"
| "close_and_unlink os (n # ns) nm =
     (if close_error os n then (Some ''sem_close failed'', nm)
      else if unlink_error os n then (Some (''sem_unlink('' @ n @ '')''), nm)
      else close_and_unlink os ns (nm(n := None)))"

definition cleanup_named_sems :: "sem_calls \<Rightarrow> sem_reg \<Rightarrow> string option \<times> (string \<rightharpoonup> nat)" where
  "cleanup_named_sems os r = close_and_unlink os (rev (g_sem_names r)) (named r)"

text \<open>The semaphores over the whole of \<open>main\<close>: those of the shared state, of the words, of the \<open>carriers\<close> that
  are ever reserved (\<open>reserve_carrier_slot\<close> in \<open>spawn_letter_carrier\<close>), and the removal at the end. \<open>fail\<close> exits
  where it is called; \<open>failure\<close> is its message when a slot for a process is missing, as in \<open>Too many letter
  carriers\<close>. The result is the message of \<open>fail\<close> and the namespace after the exit.\<close>

definition tower_sems ::
  "sem_calls \<Rightarrow> int \<Rightarrow> Config \<Rightarrow> string option \<Rightarrow> nat \<Rightarrow> string option \<Rightarrow> (string \<rightharpoonup> nat) \<Rightarrow> string option \<times> (string \<rightharpoonup> nat)" where
  "tower_sems os pid cfg file ncarriers failure nm =
     (case init_semaphores os pid (shared_sem_values (nat (cfg_floors cfg))) \<lparr>g_sem_names = [], named = nm\<rparr> of
        (Some e, r) \<Rightarrow> (Some e, named r)
      | (None, r1) \<Rightarrow>
          (case load_input_sems os pid (cfg_floors cfg) file r1 of
             (Inl e, r2) \<Rightarrow> (Some e, named r2)
           | (Inr ws, r2) \<Rightarrow>
               (case init_semaphores os pid (replicate ncarriers 0) r2 of
                  (Some e, r3) \<Rightarrow> (Some e, named r3)
                | (None, r3) \<Rightarrow>
                    (case failure of Some e \<Rightarrow> (Some e, named r3) | None \<Rightarrow> cleanup_named_sems os r3))))"

text \<open>The semaphore that \<open>reserve_carrier_slot\<close> creates for a carrier, with the name that is stored in the carrier.\<close>

definition carrier_event_sem :: "sem_calls \<Rightarrow> int \<Rightarrow> sem_reg \<Rightarrow> (string + string) \<times> sem_reg" where
  "carrier_event_sem os pid r =
     (case init_semaphore os pid 0 r of
        (Some e, r') \<Rightarrow> (Inl e, r')
      | (None, r') \<Rightarrow> (copy_string 64 (last (g_sem_names r')) ''carrier event semaphore name'', r'))"

text \<open>\<open>open_carrier_event_sem\<close>: a semaphore is found by its name, which exists in the system.\<close>

definition open_carrier_event_sem :: "string \<Rightarrow> (string \<rightharpoonup> nat) \<Rightarrow> string + nat" where
  "open_carrier_event_sem event_sem_name nm =
     (if event_sem_name = [] then Inl ''carrier event semaphore name is missing''
      else case nm event_sem_name of None \<Rightarrow> Inl (''sem_open('' @ event_sem_name @ '')'') | Some v \<Rightarrow> Inr v)"

definition signal_carrier_event :: "string \<Rightarrow> (string \<rightharpoonup> nat) \<Rightarrow> string option \<times> (string \<rightharpoonup> nat)" where
  "signal_carrier_event event_sem_name nm =
     (case open_carrier_event_sem event_sem_name nm of
        Inl e \<Rightarrow> (Some e, nm)
      | Inr v \<Rightarrow> (None, nm(event_sem_name \<mapsto> v + 1)))"

section \<open>Waiting\<close>

text \<open>What \<open>sem_wait\<close>, \<open>sem_timedwait\<close> or \<open>sem_trywait\<close> returns: success, \<open>EINTR\<close> with the value of \<open>g_stop\<close>,
  \<open>ETIMEDOUT\<close>, \<open>EAGAIN\<close> or another error.\<close>

datatype sem_answer = Acquired | Interrupted_Wait bool | Timed_Out | Would_Block | Wait_Error

text \<open>\<open>lock_sem\<close>: whether the semaphore was taken when it returns; \<open>Inl\<close> for \<open>fail\<close>. \<open>None\<close> when it still waits.\<close>

fun lock_sem :: "sem_answer list \<Rightarrow> (string + bool) option" where
  "lock_sem [] = None"
| "lock_sem (Acquired # as) = Some (Inr True)"
| "lock_sem (Interrupted_Wait stop # as) = (if stop then Some (Inr False) else lock_sem as)"
| "lock_sem (_ # as) = Some (Inl ''sem_wait'')"

text \<open>The two loops of \<open>wait_event\<close> (without and with a deadline).\<close>

fun sem_wait_loop :: "bool \<Rightarrow> sem_answer list \<Rightarrow> int option" where
  "sem_wait_loop timed [] = None"
| "sem_wait_loop timed (a # as) =
     (case a of
        Acquired \<Rightarrow> Some 0
      | Interrupted_Wait stop \<Rightarrow> if stop then Some (- 1) else sem_wait_loop timed as
      | Timed_Out \<Rightarrow> if timed then Some 1 else Some (- 1)
      | _ \<Rightarrow> Some (- 1))"

text \<open>The absolute time (seconds, nanoseconds) until which \<open>wait_event\<close> waits.\<close>

definition event_deadline :: "int \<Rightarrow> int \<times> int \<Rightarrow> int \<times> int" where
  "event_deadline timeout_ms now =
     (case now of (sec, nsec) \<Rightarrow>
        let sec1 = sec + timeout_ms div 1000; nsec1 = nsec + timeout_ms mod 1000 * 1000000 in
        if nsec1 \<ge> 1000000000 then (sec1 + 1, nsec1 - 1000000000) else (sec1, nsec1))"

definition wait_event :: "int \<Rightarrow> (int \<times> int) option \<Rightarrow> ((int \<times> int) option \<Rightarrow> sem_answer list) \<Rightarrow> int option" where
  "wait_event timeout_ms now answers =
     (if timeout_ms < 0 then sem_wait_loop False (answers None)
      else case now of
        None \<Rightarrow> Some (- 1)
      | Some ts \<Rightarrow> sem_wait_loop True (answers (Some (event_deadline timeout_ms ts))))"

text \<open>The variant for systems without \<open>sem_timedwait\<close>: tries every 10 milliseconds.\<close>

fun timed_wait_event :: "int \<Rightarrow> int \<Rightarrow> sem_answer list \<Rightarrow> int option" where
  "timed_wait_event timeout_ms waited as =
     (if waited \<le> timeout_ms
      then (case as of
              [] \<Rightarrow> None
            | a # as' \<Rightarrow>
                (case a of
                   Acquired \<Rightarrow> Some 0
                 | Interrupted_Wait stop \<Rightarrow> if stop then Some (- 1) else timed_wait_event timeout_ms waited as'
                 | Would_Block \<Rightarrow> timed_wait_event timeout_ms (waited + 10) as'
                 | _ \<Rightarrow> Some (- 1)))
      else Some 1)"

declare timed_wait_event.simps [simp del]

text \<open>\<open>wait_carrier_event\<close>; a wait that succeeds takes one from the semaphore.\<close>

definition wait_carrier_event ::
  "string \<Rightarrow> int \<Rightarrow> (int \<times> int) option \<Rightarrow> ((int \<times> int) option \<Rightarrow> sem_answer list) \<Rightarrow> (string \<rightharpoonup> nat) \<Rightarrow> ((string + int) \<times> (string \<rightharpoonup> nat)) option" where
  "wait_carrier_event event_sem_name timeout_ms now answers nm =
     (case open_carrier_event_sem event_sem_name nm of
        Inl e \<Rightarrow> Some (Inl e, nm)
      | Inr v \<Rightarrow> map_option (\<lambda>rc. (Inr rc, if rc = 0 then nm(event_sem_name \<mapsto> v - 1) else nm)) (wait_event timeout_ms now answers))"

section \<open>Shutdown\<close>

datatype tower_sem = Parent_Event | Carrier_Event nat | Delivery_Items | Reposition_Items | Word_Available | Floor_Delivery nat

text \<open>\<open>unlock_sem\<close> on one of the semaphores that processes wait for.\<close>

definition unlock_sem :: "tower_sem \<Rightarrow> (tower_sem \<Rightarrow> nat) \<Rightarrow> tower_sem \<Rightarrow> nat" where
  "unlock_sem s v = v(s := v s + 1)"

fun wake_items :: "nat \<Rightarrow> (tower_sem \<Rightarrow> nat) \<Rightarrow> tower_sem \<Rightarrow> nat" where
  "wake_items 0 v = v"
| "wake_items (Suc n) v = wake_items n (unlock_sem Word_Available (unlock_sem Reposition_Items (unlock_sem Delivery_Items v)))"

definition wake_all :: "tower \<Rightarrow> (tower_sem \<Rightarrow> nat) \<Rightarrow> tower_sem \<Rightarrow> nat" where
  "wake_all st v =
     fold (\<lambda>i. unlock_sem (Floor_Delivery i)) [0..<num_floors st]
       (wake_items 16
         (fold (\<lambda>i. unlock_sem (Carrier_Event i)) [0..<length (carriers st)] (unlock_sem Parent_Event v)))"

record stop_flags =
  g_stop :: bool
  shutdown_flag :: bool
  sem_values :: "tower_sem \<Rightarrow> nat"

text \<open>\<open>signal_handler\<close> after \<open>g_state\<close> is set.\<close>

definition signal_handler :: "stop_flags \<Rightarrow> stop_flags" where
  "signal_handler s = s\<lparr>g_stop := True, shutdown_flag := True, sem_values := unlock_sem Parent_Event (sem_values s)\<rparr>"

text \<open>The condition of the parent's loop.\<close>

definition parent_waits :: "stop_flags \<Rightarrow> tower \<Rightarrow> bool" where
  "parent_waits s st \<longleftrightarrow> \<not> shutdown_flag s \<and> \<not> g_stop s \<and> completed_words st < int (total_words st)"

section \<open>Facts on the names\<close>

lemma length_show_nat: "n < 10 ^ Suc k \<Longrightarrow> length (show_nat n) \<le> Suc k"
proof (induction k arbitrary: n)
  case (Suc k)
  then have "n div 10 < 10 ^ Suc k" by (simp add: div_less_iff_less_mult)
  from Suc.IH [OF this] show ?case by (subst show_nat.simps) simp
qed (subst show_nat.simps, simp)

lemma show_nat_inject: "show_nat m = show_nat n \<Longrightarrow> m = n"
  by (drule arg_cong [where f = digits_val]) simp

lemma sem_name_inject [simp]: "sem_name pid m = sem_name pid n \<longleftrightarrow> m = n"
  by (auto simp: sem_name_def dest: show_nat_inject)

lemma sem_name_short:
  assumes "in_int pid" "n < 4096"
  shows "length (sem_name pid n) < 64"
proof -
  have "nat pid < 10 ^ Suc 9" "nat (- pid) < 10 ^ Suc 9" using assms(1) by (auto simp: c_int_simps nat_less_iff)
  then have "length (show_nat (nat pid)) \<le> Suc 9" "length (show_nat (nat (- pid))) \<le> Suc 9" by (blast intro: length_show_nat)+
  moreover have "length (show_nat n) \<le> 4" using length_show_nat [of n 3] assms(2) by simp
  ultimately show ?thesis by (simp add: sem_name_def show_int_def)
qed

section \<open>Facts on creation and removal\<close>

text \<open>The calls of the system succeed.\<close>

definition calls_succeed :: "sem_calls \<Rightarrow> bool" where
  "calls_succeed os \<longleftrightarrow> (\<forall>n. \<not> unlink_error os n \<and> \<not> open_error os n \<and> \<not> close_error os n)"

text \<open>The table holds the names of the semaphores that were created, and the namespace \<open>nm\<close> has changed only there.\<close>

definition reg_ok :: "int \<Rightarrow> (string \<rightharpoonup> nat) \<Rightarrow> sem_reg \<Rightarrow> bool" where
  "reg_ok pid nm r \<longleftrightarrow> g_sem_names r = map (sem_name pid) [0..<g_sem_count r] \<and>
     (\<forall>k<g_sem_count r. named r (sem_name pid k) \<noteq> None) \<and>
     (\<forall>x. x \<notin> set (g_sem_names r) \<longrightarrow> named r x = nm x)"

lemma init_semaphore_ok:
  assumes "calls_succeed os" "in_int pid" "reg_ok pid nm r" "g_sem_count r < 4096"
  obtains r' where "init_semaphore os pid v r = (None, r')" "reg_ok pid nm r'" "g_sem_count r' = Suc (g_sem_count r)"
proof -
  let ?n = "sem_name pid (g_sem_count r)"
  let ?r = "r\<lparr>named := (named r)(?n \<mapsto> v), g_sem_names := g_sem_names r @ [?n]\<rparr>"
  have "init_semaphore os pid v r = (None, ?r)"
    using assms(1,4) sem_name_short [OF assms(2,4)]
    by (simp add: init_semaphore_def checked_snprintf_def copy_string_def calls_succeed_def Let_def)
  moreover have "reg_ok pid nm ?r" using assms(3) by (auto simp: reg_ok_def less_Suc_eq)
  ultimately show thesis using that by simp
qed

lemma init_semaphores_ok:
  assumes "calls_succeed os" "in_int pid" "reg_ok pid nm r" "g_sem_count r + length vs \<le> 4096"
  shows "\<exists>r'. init_semaphores os pid vs r = (None, r') \<and> reg_ok pid nm r' \<and> g_sem_count r' = g_sem_count r + length vs"
  using assms(3,4)
proof (induction vs arbitrary: r)
  case (Cons v vs)
  obtain r1 where r1: "init_semaphore os pid v r = (None, r1)" "reg_ok pid nm r1" "g_sem_count r1 = Suc (g_sem_count r)"
    using init_semaphore_ok [OF assms(1,2) Cons.prems(1)] Cons.prems(2) by auto
  with Cons.IH [OF r1(2)] Cons.prems(2) show ?case by simp
qed simp

lemma load_words_Cons:
  "load_words fl (l # ls) ws = (case load_words fl [l] ws of Inl e \<Rightarrow> Inl e | Inr ws' \<Rightarrow> load_words fl ls ws')"
  by (simp split: list.splits scan_val.splits)

lemma load_words_one: "load_words fl [l] ws = Inr ws' \<Longrightarrow> length ws' = Suc (length ws) \<and> length ws' \<le> MAX_WORDS"
  by (auto split: list.splits scan_val.splits if_splits)

lemma load_lines_sems_ok:
  assumes "calls_succeed os" "in_int pid" "reg_ok pid nm r" "length ws \<le> MAX_WORDS"
    "g_sem_count r \<le> k + 2 * length ws" "k \<le> 3000"
  shows "\<exists>r'. load_lines_sems os pid fl ls ws r = (load_words fl ls ws, r') \<and> reg_ok pid nm r' \<and>
     g_sem_count r \<le> g_sem_count r' \<and> g_sem_count r' \<le> k + 512"
  using assms(3-5)
proof (induction ls arbitrary: ws r)
  case (Cons l ls)
  show ?case
  proof (cases "load_words fl [l] ws")
    case (Inr ws')
    note len = load_words_one [OF Inr]
    obtain r1 where r1: "init_semaphores os pid [1, 1] r = (None, r1)" "reg_ok pid nm r1" "g_sem_count r1 = g_sem_count r + 2"
      using init_semaphores_ok [OF assms(1,2) Cons.prems(1), of "[1, 1]"] Cons.prems(2,3) assms(6) by auto
    from Cons.IH [OF r1(2), of ws'] len r1(3) Cons.prems(2,3)
    show ?thesis unfolding load_lines_sems.simps load_words_Cons [of fl l ls] Inr r1(1) by auto
  next
    case (Inl e)
    with Cons.prems show ?thesis unfolding load_lines_sems.simps load_words_Cons [of fl l ls] Inl by auto
  qed
qed auto

lemma load_input_sems_ok:
  assumes "calls_succeed os" "in_int pid" "reg_ok pid nm r" "g_sem_count r \<le> 3000"
  shows "\<exists>r'. load_input_sems os pid fl body r = (load_input fl body, r') \<and> reg_ok pid nm r' \<and>
     g_sem_count r \<le> g_sem_count r' \<and> g_sem_count r' \<le> g_sem_count r + 512"
proof (cases body)
  case (Some body')
  from load_lines_sems_ok [OF assms(1-3), of "[]" "g_sem_count r" fl "fgets_lines 256 body'"] assms(4)
  obtain r' where "load_lines_sems os pid fl (fgets_lines 256 body') [] r = (load_words fl (fgets_lines 256 body') [], r')"
    "reg_ok pid nm r'" "g_sem_count r \<le> g_sem_count r'" "g_sem_count r' \<le> g_sem_count r + 512" by auto
  then show ?thesis by (simp add: load_input_sems_def load_input_def Some split: sum.splits)
qed (insert assms, simp add: load_input_sems_def load_input_def)

lemma close_and_unlink_ok:
  "calls_succeed os \<Longrightarrow> close_and_unlink os ns nm = (None, \<lambda>x. if x \<in> set ns then None else nm x)"
  by (induction ns arbitrary: nm) (auto simp: calls_succeed_def)

lemma cleanup_restores:
  assumes "calls_succeed os" "reg_ok pid nm r" "\<And>k. nm (sem_name pid k) = None"
  shows "cleanup_named_sems os r = (None, nm)"
proof -
  have "nm x = None" if "x \<in> set (g_sem_names r)" for x
    using assms(2,3) that unfolding reg_ok_def by (metis (no_types, lifting) ex_map_conv)
  moreover have "named r x = nm x" if "x \<notin> set (g_sem_names r)" for x using assms(2) that by (simp add: reg_ok_def)
  ultimately show ?thesis by (auto simp: cleanup_named_sems_def close_and_unlink_ok [OF assms(1)])
qed

lemma length_shared_sem_values [simp]: "length (shared_sem_values n) = 8 + 2 * n"
  by (induction n) (auto simp: shared_sem_values_def)

section \<open>Facts on waiting\<close>

text \<open>The deadline is the given number of milliseconds after the current time, as a proper \<open>timespec\<close>.\<close>

lemma event_deadline_exact:
  assumes "0 \<le> t" "0 \<le> nsec" "nsec < 1000000000" "event_deadline t (sec, nsec) = (s', n')"
  shows "0 \<le> n' \<and> n' < 1000000000 \<and> s' * 1000000000 + n' = sec * 1000000000 + nsec + t * 1000000"
proof -
  have t: "t * 1000000 = t div 1000 * 1000000000 + t mod 1000 * 1000000" by presburger
  have m: "0 \<le> t mod 1000" "t mod 1000 < 1000" by auto
  show ?thesis
    using assms(4) m assms(2,3) unfolding t by (auto simp: event_deadline_def Let_def split: if_splits)
qed

text \<open>A wait succeeds exactly when the semaphore was taken, and reports a timeout only with a deadline.\<close>

lemma sem_wait_loop_acquired:
  "sem_wait_loop timed as = Some 0 \<longleftrightarrow> (\<exists>n as'. as = replicate n (Interrupted_Wait False) @ Acquired # as')"
proof (induction as)
  case (Cons a as)
  have shift: "(\<exists>n as'. a # as = replicate n (Interrupted_Wait False) @ Acquired # as') \<longleftrightarrow>
    a = Acquired \<or> a = Interrupted_Wait False \<and> (\<exists>n as'. as = replicate n (Interrupted_Wait False) @ Acquired # as')"
    (is "?l \<longleftrightarrow> ?r")
  proof
    assume ?l
    then obtain n as' where "a # as = replicate n (Interrupted_Wait False) @ Acquired # as'" by blast
    then show ?r by (cases n) auto
  next
    assume ?r
    then show ?l
    proof
      assume "a = Acquired"
      then show ?l by (intro exI [of _ 0]) simp
    next
      assume "a = Interrupted_Wait False \<and> (\<exists>n as'. as = replicate n (Interrupted_Wait False) @ Acquired # as')"
      then obtain n as' where "a # as = replicate (Suc n) (Interrupted_Wait False) @ Acquired # as'" by auto
      then show ?l by blast
    qed
  qed
  show ?case unfolding shift using Cons.IH by (cases a) auto
qed simp

text \<open>Polling an unavailable semaphore reports the timeout after one try every 10 milliseconds.\<close>

lemma timed_wait_times_out:
  "0 \<le> waited \<Longrightarrow> waited \<le> t \<Longrightarrow> timed_wait_event t waited (replicate (nat ((t - waited) div 10) + 1) Would_Block) = Some 1"
proof (induction "nat ((t - waited) div 10)" arbitrary: waited)
  case 0
  then have "t - waited < 10" by linarith
  with 0 show ?case by (simp add: timed_wait_event.simps)
next
  case (Suc k)
  then have ge: "10 \<le> t - waited" by linarith
  have eq: "(t - (waited + 10)) div 10 = (t - waited) div 10 - 1" by (simp add: algebra_simps)
  then have "k = nat ((t - (waited + 10)) div 10)" using Suc.hyps(2) by linarith
  with Suc.hyps(1) [OF this] Suc.prems Suc.hyps(2) [symmetric] ge show ?case
    by (subst timed_wait_event.simps) simp
qed

text \<open>The name stored in a carrier is the name of its semaphore, so that a later \<open>sem_open\<close> finds it.\<close>

lemma carrier_event_sem_ok:
  assumes "calls_succeed os" "in_int pid" "reg_ok pid nm r" "g_sem_count r < 4096"
  shows "\<exists>r'. carrier_event_sem os pid r = (Inr (sem_name pid (g_sem_count r)), r') \<and> reg_ok pid nm r' \<and>
     (\<exists>v. open_carrier_event_sem (sem_name pid (g_sem_count r)) (named r') = Inr v)"
proof -
  obtain r' where r': "init_semaphore os pid 0 r = (None, r')" "reg_ok pid nm r'" "g_sem_count r' = Suc (g_sem_count r)"
    using init_semaphore_ok [OF assms] by blast
  have names: "g_sem_names r' = map (sem_name pid) [0..<Suc (g_sem_count r)]"
    and there: "named r' (sem_name pid (g_sem_count r)) \<noteq> None" using r'(2,3) by (simp_all add: reg_ok_def)
  then show ?thesis
    using r'(1,2) sem_name_short [OF assms(2,4)]
    by (auto simp: carrier_event_sem_def copy_string_def open_carrier_event_sem_def sem_name_def split: option.splits)
qed

text \<open>A signal lets exactly one wait through.\<close>

lemma signal_then_wait:
  assumes "signal_carrier_event n nm = (None, nm')" "wait_carrier_event n t now answers nm' = Some (Inr 0, nm'')"
  shows "nm'' = nm"
  using assms by (auto simp: map_upd_triv signal_carrier_event_def wait_carrier_event_def open_carrier_event_sem_def split: sum.splits if_splits option.splits)

section \<open>Facts on shutdown\<close>

lemma unlock_fold:
  "inj f \<Longrightarrow> fold (\<lambda>i. unlock_sem (f i)) [0..<n] v s = v s + of_bool (s \<in> f ` {..<n})"
  by (induction n) (auto simp: unlock_sem_def lessThan_Suc inj_eq)

lemma wake_items_value:
  "wake_items n v s = v s + (if s \<in> {Word_Available, Reposition_Items, Delivery_Items} then n else 0)"
  by (induction n arbitrary: v) (auto simp: unlock_sem_def)

text \<open>The semaphore of every process that waits without a timeout is posted: each carrier, both elevators.\<close>

lemma wake_all_posts:
  "c < length (carriers st) \<Longrightarrow> wake_all st v (Carrier_Event c) = v (Carrier_Event c) + 1"
  "wake_all st v Delivery_Items = v Delivery_Items + 16"
  "wake_all st v Reposition_Items = v Reposition_Items + 16"
  "wake_all st v Parent_Event = v Parent_Event + 1"
  by (auto simp: wake_all_def unlock_fold inj_def wake_items_value unlock_sem_def image_iff simp del: wake_items.simps)

lemma signal_ends_parent_loop:
  "\<not> parent_waits (signal_handler s) st \<and> tower_end (g_stop (signal_handler s)) st = Some Interrupted_Run \<and>
   0 < sem_values (signal_handler s) Parent_Event"
  by (simp add: parent_waits_def signal_handler_def tower_end_def unlock_sem_def)

text \<open>A signal lets \<open>lock_sem\<close> return without the semaphore, and its callers cannot tell.\<close>

lemma lock_sem_without_lock: "lock_sem [Interrupted_Wait True] = Some (Inr False)"
  by simp

section \<open>Property\<close>

text \<open>(C32) The named semaphores of a run, when the calls of the system succeed and none of the names was in use: after
  a run that read its input and did not fail, for every number of carriers the run may have created, the namespace
  is what it was before, so the table of 4096 entries never overflows and no name is truncated. But an input that is
  rejected, and a run that finds no slot for a new carrier, end the program with the semaphores of the shared state
  left in the system.\<close>

theorem named_semaphores_released:
  assumes "tower_parse_args readable opts = Inr cfg" and "calls_succeed os" and "in_int pid"
    and "\<forall>k. nm (sem_name pid k) = None"
  shows "case load_input (cfg_floors cfg) body of
      Inr ws \<Rightarrow> \<forall>st. treach (start_tower cfg ws) st \<longrightarrow>
        (if failed st
         then \<forall>e. \<exists>nm'. tower_sems os pid cfg body (length (carriers st)) (Some e) nm = (Some e, nm') \<and>
                (\<forall>k < 8 + 2 * nat (cfg_floors cfg). nm' (sem_name pid k) \<noteq> None)
         else tower_sems os pid cfg body (length (carriers st)) None nm = (None, nm))
    | Inl e \<Rightarrow> \<forall>n f. \<exists>nm'. tower_sems os pid cfg body n f nm = (Some e, nm') \<and>
        (\<forall>k < 8 + 2 * nat (cfg_floors cfg). nm' (sem_name pid k) \<noteq> None)"
proof -
  have fl: "nat (cfg_floors cfg) \<le> 32"
    using assms(1) by (auto simp: tower_parse_args_def split: sum.splits if_splits)
  have r0: "reg_ok pid nm \<lparr>g_sem_names = [], named = nm\<rparr>" by (simp add: reg_ok_def)
  from init_semaphores_ok [OF assms(2,3) r0, of "shared_sem_values (nat (cfg_floors cfg))"] fl
  obtain r1 where r1: "init_semaphores os pid (shared_sem_values (nat (cfg_floors cfg))) \<lparr>g_sem_names = [], named = nm\<rparr> = (None, r1)"
    "reg_ok pid nm r1" "g_sem_count r1 = 8 + 2 * nat (cfg_floors cfg)" by auto
  from load_input_sems_ok [OF assms(2,3) r1(2), of "cfg_floors cfg" body] r1(3) fl
  obtain r2 where r2: "load_input_sems os pid (cfg_floors cfg) body r1 = (load_input (cfg_floors cfg) body, r2)"
    "reg_ok pid nm r2" "g_sem_count r1 \<le> g_sem_count r2" "g_sem_count r2 \<le> 1000" by auto
  show ?thesis
  proof (cases "load_input (cfg_floors cfg) body")
    case (Inl e)
    with r1 r2 show ?thesis by (auto simp: tower_sems_def reg_ok_def)
  next
    case (Inr ws)
    have "if failed st
         then \<forall>e. \<exists>nm'. tower_sems os pid cfg body (length (carriers st)) (Some e) nm = (Some e, nm') \<and>
                (\<forall>k < 8 + 2 * nat (cfg_floors cfg). nm' (sem_name pid k) \<noteq> None)
         else tower_sems os pid cfg body (length (carriers st)) None nm = (None, nm)" if "treach (start_tower cfg ws) st" for st
    proof -
      have "length (carriers st) \<le> 512"
        using tower_run_inv [OF assms(1) Inr that] by (simp add: tower_inv_def letters_inv_def table_inv_def)
      with init_semaphores_ok [OF assms(2,3) r2(2), of "replicate (length (carriers st)) 0"] r2(4)
      obtain r3 where r3: "init_semaphores os pid (replicate (length (carriers st)) 0) r2 = (None, r3)" "reg_ok pid nm r3"
        "g_sem_count r2 \<le> g_sem_count r3" by auto
      have "named r3 (sem_name pid k) \<noteq> None" if "k < 8 + 2 * nat (cfg_floors cfg)" for k
        using that r1(3) r2(3) r3(2,3) by (auto simp: reg_ok_def)
      with r1(1) r2(1) r3(1,2) Inr cleanup_restores [OF assms(2), of pid nm r3] assms(4) show ?thesis
        by (simp add: tower_sems_def)
    qed
    with Inr show ?thesis by (simp only: sum.case) blast
  qed
qed

definition quiet_calls :: sem_calls where
  "quiet_calls = \<lparr>unlink_error = (\<lambda>_. False), open_error = (\<lambda>_. False), close_error = (\<lambda>_. False)\<rparr>"

theorem named_semaphores_released_witness:
  "tower_sems quiet_calls 42 small_config (Some (''7 ab 0'' @ [newline])) (length (carriers (start_tower small_config small_words))) None Map.empty = (None, Map.empty) \<and>
   (\<exists>nm'. tower_sems quiet_calls 42 small_config None 1 None Map.empty = (Some ''Cannot open input'', nm') \<and> nm' (sem_name 42 9) \<noteq> None)"
proof -
  have os: "calls_succeed quiet_calls" "in_int 42" "\<forall>k. Map.empty (sem_name 42 k) = None"
    by (simp_all add: calls_succeed_def quiet_calls_def c_int_simps)
  note use = named_semaphores_released [OF small_start(1) os]
  have "\<not> failed (start_tower small_config small_words)" by code_simp
  with spec [of _ "start_tower small_config small_words", OF use [of "Some (''7 ab 0'' @ [newline])", unfolded small_start(2) sum.case]]
    treach.start [of "start_tower small_config small_words"]
  have "tower_sems quiet_calls 42 small_config (Some (''7 ab 0'' @ [newline])) (length (carriers (start_tower small_config small_words))) None Map.empty = (None, Map.empty)"
    by (simp only: if_False simp_thms)
  moreover have "\<exists>nm'. tower_sems quiet_calls 42 small_config None 1 None Map.empty = (Some ''Cannot open input'', nm') \<and> nm' (sem_name 42 9) \<noteq> None"
    using spec [of _ None, OF spec [of _ 1, OF use [of None, unfolded load_input_def option.case sum.case]]]
    by (auto simp: small_config_def)
  ultimately show ?thesis ..
qed

end
