(* ===== verification/Search_Pattern.thy ===== *)
theory Search_Pattern
  imports C_Stdlib
begin

text \<open>
  The filename patterns of the parallel search (\<open>HW2/pattern.c\<close>): a backtracking matcher in which a
  character followed by \<open>+\<close> stands for one or more of it, and its equivalence with the language of the
  pattern.
\<close>

section \<open>Model\<close>

abbreviation plus_sign :: char where "plus_sign \<equiv> CHR ''+''"

text \<open>The length of the run of the repeated character at the start of the text.\<close>

definition run_length :: "char \<Rightarrow> string \<Rightarrow> nat" where
  "run_length c s = length (takeWhile (\<lambda>x. tolower x = tolower c) s)"

fun match_rec :: "string \<Rightarrow> string \<Rightarrow> bool" where
  "match_rec [] s \<longleftrightarrow> s = []"
| "match_rec [c] s \<longleftrightarrow> s \<noteq> [] \<and> tolower c = tolower (hd s) \<and> match_rec [] (tl s)"
| "match_rec (c # d # p) s \<longleftrightarrow>
     (if d = plus_sign
      then \<not> (s = [] \<or> tolower (hd s) \<noteq> tolower c) \<and> list_ex (\<lambda>k. match_rec p (drop k s)) (rev [1..<Suc (run_length c s)])
      else s \<noteq> [] \<and> tolower c = tolower (hd s) \<and> match_rec (d # p) (tl s))"

text \<open>The stem of a file name: the part before the first dot, at most 255 bytes.\<close>

definition stem_of :: "string \<Rightarrow> string" where
  "stem_of filename = take 255 (takeWhile (\<lambda>c. c \<noteq> CHR ''.'') filename)"

text \<open>The runs of letters and digits of the stem.\<close>

definition segments :: "string \<Rightarrow> string list" where
  "segments stem = strtok (\<lambda>c. \<not> isalnum c) stem"

definition match_pattern :: "string \<Rightarrow> string \<Rightarrow> bool" where
  "match_pattern pattern filename \<longleftrightarrow>
     (if match_rec pattern filename then True
      else if match_rec pattern (stem_of filename) then True
      else list_ex (\<lambda>seg. match_rec pattern (take 255 seg)) (segments (stem_of filename)))"

section \<open>The language of a pattern\<close>

datatype item = One char | Many char

fun items_of :: "string \<Rightarrow> item list" where
  "items_of [] = []"
| "items_of [c] = [One c]"
| "items_of (c # d # p) = (if d = plus_sign then Many c # items_of p else One c # items_of (d # p))"

definition same_letter :: "char \<Rightarrow> char \<Rightarrow> bool" where
  "same_letter c x \<longleftrightarrow> tolower x = tolower c"

inductive in_lang :: "item list \<Rightarrow> string \<Rightarrow> bool" where
  empty: "in_lang [] []"
| one: "same_letter c x \<Longrightarrow> in_lang is s \<Longrightarrow> in_lang (One c # is) (x # s)"
| many: "xs \<noteq> [] \<Longrightarrow> list_all (same_letter c) xs \<Longrightarrow> in_lang is s \<Longrightarrow> in_lang (Many c # is) (xs @ s)"

inductive_cases in_lang_Nil: "in_lang [] s"
inductive_cases in_lang_One: "in_lang (One c # is) s"
inductive_cases in_lang_Many: "in_lang (Many c # is) s"

lemma in_lang_Nil_iff [simp]: "in_lang [] s \<longleftrightarrow> s = []"
  by (auto elim: in_lang_Nil intro: in_lang.intros)

lemma in_lang_One_iff: "in_lang (One c # is) s \<longleftrightarrow> s \<noteq> [] \<and> same_letter c (hd s) \<and> in_lang is (tl s)"
  by (cases s) (auto elim: in_lang_One intro: in_lang.intros)

text \<open>A text is in the language of a repetition iff some prefix of its run can be cut off.\<close>

lemma in_lang_Many_iff:
  "in_lang (Many c # is) s \<longleftrightarrow> (\<exists>k. 1 \<le> k \<and> k \<le> run_length c s \<and> in_lang is (drop k s))"
proof
  assume "in_lang (Many c # is) s"
  then obtain xs t where s: "s = xs @ t" "xs \<noteq> []" "list_all (same_letter c) xs" "in_lang is t" by (auto elim: in_lang_Many)
  have "takeWhile (\<lambda>x. tolower x = tolower c) (xs @ t) = xs @ takeWhile (\<lambda>x. tolower x = tolower c) t"
    using s(3) by (intro takeWhile_all) (simp add: list_all_iff same_letter_def)
  with s show "\<exists>k. 1 \<le> k \<and> k \<le> run_length c s \<and> in_lang is (drop k s)"
    by (intro exI [of _ "length xs"]) (auto simp: run_length_def Suc_le_eq)
next
  assume "\<exists>k. 1 \<le> k \<and> k \<le> run_length c s \<and> in_lang is (drop k s)"
  then obtain k where k: "1 \<le> k" "k \<le> run_length c s" "in_lang is (drop k s)" by blast
  let ?P = "\<lambda>x. tolower x = tolower c"
  have "take k (takeWhile ?P s @ dropWhile ?P s) = take k (takeWhile ?P s)"
    using k(2) unfolding run_length_def by (subst take_append) simp
  then have "take k s = take k (takeWhile ?P s)" unfolding takeWhile_dropWhile_id .
  then have "list_all (same_letter c) (take k s)"
    by (auto simp: list_all_iff same_letter_def dest!: in_set_takeD set_takeWhileD)
  moreover have "take k s \<noteq> []" using k by (auto simp: run_length_def)
  ultimately have "in_lang (Many c # is) (take k s @ drop k s)" using k(3) by (intro in_lang.many)
  then show "in_lang (Many c # is) s" by simp
qed

lemma run_pos: "0 < run_length c s \<longleftrightarrow> s \<noteq> [] \<and> tolower (hd s) = tolower c"
  by (cases s) (simp_all add: run_length_def)

lemma match_rec_lang: "match_rec p s \<longleftrightarrow> in_lang (items_of p) s"
proof (induction p s rule: match_rec.induct)
  case (2 c s)
  then show ?case by (auto simp: in_lang_One_iff same_letter_def)
next
  case (3 c d p s)
  show ?case
  proof (cases "d = plus_sign")
    case True
    have "(\<exists>k\<in>set (rev [1..<Suc (run_length c s)]). match_rec p (drop k s)) \<longleftrightarrow>
          (\<exists>k. 1 \<le> k \<and> k \<le> run_length c s \<and> in_lang (items_of p) (drop k s))"
      using 3(1) True run_pos [of c s] by auto
    with True run_pos [of c s] show ?thesis
      by (auto simp: in_lang_Many_iff list_ex_iff simp del: upt_Suc)
  next
    case False
    with 3(2) show ?thesis by (auto simp: in_lang_One_iff same_letter_def)
  qed
qed simp

section \<open>What a matcher promises\<close>

lemma in_lang_lower: "in_lang is s \<Longrightarrow> in_lang is (map tolower s)"
proof (induction rule: in_lang.induct)
  case (one c x "is" s)
  then show ?case by (auto simp: same_letter_def intro: in_lang.one)
next
  case (many xs c "is" s)
  then show ?case using in_lang.many [of "map tolower xs" c "is" "map tolower s"]
    by (auto simp: list_all_iff same_letter_def)
qed simp

lemma in_lang_unlower: "in_lang is t \<Longrightarrow> t = map tolower s \<Longrightarrow> in_lang is s"
proof (induction arbitrary: s rule: in_lang.induct)
  case (one c x "is" t)
  then obtain y u where "s = y # u" "x = tolower y" "t = map tolower u" by (cases s) auto
  with one show ?case by (auto simp: same_letter_def intro: in_lang.one)
next
  case (many xs c "is" t)
  then obtain ys u where s: "s = ys @ u" "xs = map tolower ys" "t = map tolower u"
    using many.prems [symmetric] unfolding map_eq_append_conv by blast
  with many have "in_lang is u" "ys \<noteq> []" "list_all (same_letter c) ys" by (auto simp: list_all_iff same_letter_def)
  then show ?case unfolding s(1) by (intro in_lang.many)
qed simp

lemma in_lang_length: "in_lang is s \<Longrightarrow> length is \<le> length s"
proof (induction rule: in_lang.induct)
  case (many xs c "is" s)
  then have "1 \<le> length xs" by (cases xs) auto
  with many show ?case by simp
qed auto

lemma in_lang_literal: "plus_sign \<notin> set (tl p) \<Longrightarrow> in_lang (items_of p) s \<longleftrightarrow> map tolower p = map tolower s"
proof (induction p arbitrary: s rule: items_of.induct)
  case (2 c)
  then show ?case by (cases s) (auto simp: in_lang_One_iff same_letter_def)
next
  case (3 c d p)
  then have d: "d \<noteq> plus_sign" "plus_sign \<notin> set (tl (d # p))" by auto
  have "in_lang (items_of (c # d # p)) s \<longleftrightarrow> s \<noteq> [] \<and> same_letter c (hd s) \<and> map tolower (d # p) = map tolower (tl s)"
    using d(1) 3(2) [OF d] by (simp add: in_lang_One_iff)
  also have "\<dots> \<longleftrightarrow> map tolower (c # d # p) = map tolower s" 
  proof (cases s)
    case (Cons x t)
    then show ?thesis using eq_commute [of "tolower x" "tolower c"] by (simp add: same_letter_def)
  qed simp
  finally show ?case .
qed auto

text \<open>A matcher that accepts the language of every pattern in its domain ignores case, accepts no text
  shorter than the pattern has items, and compares a pattern without repetition letter by letter.\<close>

locale pattern_matcher =
  fixes accepts :: "string \<Rightarrow> string \<Rightarrow> bool" and supported :: "string \<Rightarrow> bool"
  assumes accepts_lang: "supported p \<Longrightarrow> accepts p s \<longleftrightarrow> in_lang (items_of p) s"
begin

lemma case_insensitive: "supported p \<Longrightarrow> accepts p (map tolower s) \<longleftrightarrow> accepts p s"
  using in_lang_lower in_lang_unlower by (auto simp: accepts_lang)

lemma min_length: "supported p \<Longrightarrow> accepts p s \<Longrightarrow> length (items_of p) \<le> length s"
  by (simp add: accepts_lang in_lang_length)

lemma literal: "supported p \<Longrightarrow> plus_sign \<notin> set (tl p) \<Longrightarrow> accepts p s \<longleftrightarrow> map tolower p = map tolower s"
  by (simp add: accepts_lang in_lang_literal)

end

interpretation backtracking: pattern_matcher match_rec "\<lambda>_. True"
  by unfold_locales (rule match_rec_lang)

section \<open>Property\<close>

text \<open>(C34) The matcher is correct: a file name matches a pattern iff the name, or its stem before the
  first dot, or one of the letter-and-digit segments of the stem is a text of the pattern's language,
  in which \<open>c+\<close> stands for one or more \<open>c\<close> and case does not matter.\<close>

theorem match_pattern_language:
  "match_pattern pattern filename \<longleftrightarrow>
     in_lang (items_of pattern) filename \<or> in_lang (items_of pattern) (stem_of filename) \<or>
     list_ex (in_lang (items_of pattern)) (segments (stem_of filename))"
proof -
  have "length t \<le> length s" if "t \<in> set (strtok sep s)" for sep s t
    using that
  proof (induction sep s rule: strtok.induct)
    case (1 sep s)
    let ?t = "dropWhile sep s"
    have l: "length ?t \<le> length s" by (rule length_dropWhile_le)
    from 1(2) have "?t \<noteq> []" "t = takeWhile (\<lambda>c. \<not> sep c) ?t \<or> t \<in> set (strtok sep (dropWhile (\<lambda>c. \<not> sep c) ?t))"
      by (subst (asm) strtok.simps, simp add: Let_def split: if_splits)+
    then show ?case
      using 1(1) [OF refl] l length_takeWhile_le [of "\<lambda>c. \<not> sep c" ?t] length_dropWhile_le [of "\<lambda>c. \<not> sep c" ?t] by fastforce
  qed
  then have "take 255 seg = seg" if "seg \<in> set (segments (stem_of filename))" for seg
    using that by (fastforce simp: segments_def stem_of_def)
  then show ?thesis by (auto simp: match_pattern_def match_rec_lang list_ex_iff)
qed

end
