(* ===== verification/Search_Worker.thy ===== *)
theory Search_Worker
  imports Search_Pattern "HOL-Library.Sublist"
begin

text \<open>
  The worker process of the parallel search (\<open>HW2/worker.c\<close>). A file tree is a term: a directory
  holds its entries in the order in which \<open>readdir\<close> returns them. The flag that the SIGTERM handler
  sets is tested by \<open>poll\<close>: \<open>Some n\<close> says that the signal arrives after \<open>n\<close> more tests, \<open>None\<close>
  that it does not arrive. \<open>match_count\<close> is not bounded: it counts files of the tree.
\<close>

section \<open>Model\<close>

text \<open>\<open>Locked\<close> is a directory that \<open>opendir\<close> refuses, \<open>Gone\<close> an entry for which \<open>lstat\<close> fails,
  \<open>Other\<close> neither a directory nor a regular file.\<close>

datatype node = Reg int | Dir "(string \<times> node) list" | Locked | Other | Gone

type_synonym entries = "(string \<times> node) list"

definition fullpath :: "string \<Rightarrow> string \<Rightarrow> string" where
  "fullpath path name = path @ CHR ''/'' # name"

definition is_dots :: "string \<Rightarrow> bool" where
  "is_dots name \<longleftrightarrow> name = ''.'' \<or> name = ''..''"

definition too_small :: "int \<Rightarrow> int \<Rightarrow> bool" where
  "too_small min_size sz \<longleftrightarrow> min_size \<ge> 0 \<and> sz < min_size"

text \<open>A test of \<open>g_sigterm_received\<close>.\<close>

fun poll :: "nat option \<Rightarrow> bool \<times> nat option" where
  "poll None = (False, None)"
| "poll (Some 0) = (True, Some 0)"
| "poll (Some (Suc n)) = (False, Some n)"

text \<open>\<open>search_dir\<close> with its loop over the entries: the path and size of every match, in the order in
  which they are printed and written.\<close>

fun search_dir :: "string \<Rightarrow> int \<Rightarrow> string \<Rightarrow> node \<Rightarrow> nat option \<Rightarrow> (string \<times> int) list \<times> nat option"
  and search_loop :: "string \<Rightarrow> int \<Rightarrow> string \<Rightarrow> entries \<Rightarrow> nat option \<Rightarrow> (string \<times> int) list \<times> nat option"
where
  "search_dir pattern min_size path nd sig =
     (case poll sig of
        (True, sig') \<Rightarrow> ([], sig')
      | (False, sig') \<Rightarrow>
          (case nd of Dir es \<Rightarrow> search_loop pattern min_size path es sig' | _ \<Rightarrow> ([], sig')))"
| "search_loop pattern min_size path [] sig = ([], sig)"
| "search_loop pattern min_size path ((name, nd) # es) sig =
     (case poll sig of
        (True, sig') \<Rightarrow> ([], sig')
      | (False, sig') \<Rightarrow>
          (case (if is_dots name then ([], sig')
                 else if length (fullpath path name) \<ge> 4096 then ([], sig')
                 else (case nd of
                    Gone \<Rightarrow> ([], sig')
                  | Dir _ \<Rightarrow> search_dir pattern min_size (fullpath path name) nd sig'
                  | Locked \<Rightarrow> search_dir pattern min_size (fullpath path name) nd sig'
                  | Reg sz \<Rightarrow>
                      (if too_small min_size sz then ([], sig')
                       else if match_pattern pattern name then ([(fullpath path name, sz)], sig')
                       else ([], sig'))
                  | Other \<Rightarrow> ([], sig')))
           of (found, sig'') \<Rightarrow> apfst ((@) found) (search_loop pattern min_size path es sig'')))"

text \<open>The loop of \<open>run_worker\<close> over its directories.\<close>

fun search_dirs :: "string \<Rightarrow> int \<Rightarrow> entries \<Rightarrow> nat option \<Rightarrow> (string \<times> int) list \<times> nat option" where
  "search_dirs pattern min_size [] sig = ([], sig)"
| "search_dirs pattern min_size ((d, nd) # ds) sig =
     (case poll sig of
        (True, sig') \<Rightarrow> ([], sig')
      | (False, sig') \<Rightarrow>
          (case search_dir pattern min_size d nd sig' of
             (found, sig'') \<Rightarrow> apfst ((@) found) (search_dirs pattern min_size ds sig'')))"

text \<open>The line of a match, on the standard output and in the result file.\<close>

definition match_line :: "int \<Rightarrow> string \<times> int \<Rightarrow> string" where
  "match_line pid f =
     ''[Worker PID:'' @ show_int pid @ ''] MATCH: '' @ fst f @ '' ('' @ show_int (snd f) @ '' bytes)'' @ [newline]"

text \<open>What a worker leaves behind: its exit code, the text of its result file and of its standard
  output, and whether it sent SIGUSR1 to the parent.\<close>

record worker_out =
  exit_code :: nat
  result_text :: string
  worker_stdout :: string
  notified :: bool

text \<open>\<open>run_worker\<close>; \<open>opened\<close> says whether the result file could be opened. Otherwise it stays the
  empty file that \<open>mkstemp\<close> created.\<close>

definition run_worker :: "int \<Rightarrow> string \<Rightarrow> int \<Rightarrow> entries \<Rightarrow> bool \<Rightarrow> nat option \<Rightarrow> worker_out" where
  "run_worker pid pattern min_size dirs opened sig =
     (case search_dirs pattern min_size dirs sig of (found, sig') \<Rightarrow>
        let printed = concat (map (match_line pid) found);
            count = length found
        in if fst (poll sig')
           then \<lparr>exit_code = count mod 256, result_text = (if opened then printed else []),
                 worker_stdout = printed @ ''[Worker PID:'' @ show_int pid @ ''] SIGTERM received. Partial matches: ''
                   @ show_nat count @ ''. Exiting.'' @ [newline],
                 notified = False\<rparr>
           else \<lparr>exit_code = count mod 256, result_text = (if opened then printed else []),
                 worker_stdout = printed, notified = True\<rparr>)"

declare search_dir.simps [simp del] search_loop.simps(2) [simp del]

section \<open>The search without a signal\<close>

text \<open>The matches of one entry and of a list of entries.\<close>

fun hits :: "string \<Rightarrow> int \<Rightarrow> string \<Rightarrow> entries \<Rightarrow> (string \<times> int) list" where
  "hits pattern min_size path [] = []"
| "hits pattern min_size path ((name, nd) # es) =
     (if is_dots name \<or> length (fullpath path name) \<ge> 4096 then []
      else (case nd of
          Dir sub \<Rightarrow> hits pattern min_size (fullpath path name) sub
        | Reg sz \<Rightarrow> (if \<not> too_small min_size sz \<and> match_pattern pattern name then [(fullpath path name, sz)] else [])
        | _ \<Rightarrow> []))
     @ hits pattern min_size path es"

definition hits_in :: "string \<Rightarrow> int \<Rightarrow> string \<Rightarrow> node \<Rightarrow> (string \<times> int) list" where
  "hits_in pattern min_size path nd = (case nd of Dir es \<Rightarrow> hits pattern min_size path es | _ \<Rightarrow> [])"

lemma search_loop_no_signal: "search_loop pattern min_size path es None = (hits pattern min_size path es, None)"
proof (induction pattern min_size path es rule: hits.induct)
  case (2 pattern min_size path name nd es)
  then show ?case by (cases nd) (auto simp: search_loop.simps(2) search_dir.simps)
qed simp

lemma search_no_signal: "search_dir pattern min_size path nd None = (hits_in pattern min_size path nd, None)"
  by (cases nd) (simp_all add: search_dir.simps hits_in_def search_loop_no_signal)

lemma search_dirs_no_signal:
  "search_dirs pattern min_size ds None = (concat (map (\<lambda>(d, nd). hits_in pattern min_size d nd) ds), None)"
  by (induction ds) (auto simp: search_no_signal)

text \<open>What a search returns when SIGTERM may arrive: all matches, or the matches up to the point at
  which the flag was seen.\<close>

definition cut_search :: "(string \<times> int) list \<times> nat option \<Rightarrow> (string \<times> int) list \<Rightarrow> bool" where
  "cut_search r all \<longleftrightarrow> prefix (fst r) all \<and> (fst r = all \<or> snd r = Some 0)"

lemma cut_search_full: "cut_search (xs, sig) xs"
  by (simp add: cut_search_def)

lemma cut_search_stop: "cut_search ([], Some 0) xs"
  by (simp add: cut_search_def)

text \<open>A loop that goes on after a cut search sees the flag at its next test.\<close>

lemma cut_search_append:
  assumes "cut_search r xs" and "\<And>sig. cut_search (next_loop sig) ys" and "next_loop (Some 0) = ([], Some 0)"
  shows "cut_search (case r of (found, sig) \<Rightarrow> apfst ((@) found) (next_loop sig)) (xs @ ys)"
proof -
  obtain found t where r: "r = (found, t)" by (cases r)
  show ?thesis
  proof (cases "found = xs")
    case True
    with assms(2) [of t] show ?thesis by (auto simp: r cut_search_def apfst_def map_prod_def split: prod.splits)
  next
    case False
    with assms(1,3) show ?thesis by (auto simp: r cut_search_def)
  qed
qed

lemma search_loop_stop: "search_loop pattern min_size path es (Some 0) = ([], Some 0)"
  by (cases "(pattern, min_size, path, es, Some (0::nat))" rule: search_loop.cases) (auto simp: search_loop.simps(2))

lemma poll_cases: "poll sig = (True, Some 0) \<and> sig = Some 0 \<or> (\<exists>sig'. poll sig = (False, sig') \<and> sig \<noteq> Some 0)"
  by (cases sig rule: poll.cases) auto

lemma search_loop_cut: "cut_search (search_loop pattern min_size path es sig) (hits pattern min_size path es)"
proof (induction pattern min_size path es arbitrary: sig rule: hits.induct)
  case (2 pattern min_size path name nd es)
  show ?case
  proof (cases "sig = Some 0")
    case True
    then show ?thesis by (simp add: search_loop_stop cut_search_stop)
  next
    case False
    then obtain sig' where p: "poll sig = (False, sig')" using poll_cases [of sig] by auto
    have dir: "cut_search (search_dir pattern min_size (fullpath path name) (Dir sub) sig')
        (hits pattern min_size (fullpath path name) sub)"
      if "nd = Dir sub" "\<not> (is_dots name \<or> length (fullpath path name) \<ge> 4096)" for sub
      using 2(1) [OF that(2,1)] poll_cases [of sig'] by (auto simp: search_dir.simps cut_search_stop)
    have lock: "cut_search (search_dir pattern min_size q Locked sig') []" for q
      using poll_cases [of sig'] by (auto simp: search_dir.simps cut_search_stop cut_search_full)
    show ?thesis unfolding search_loop.simps(2) hits.simps(2) p prod.case bool.case
      by (rule cut_search_append [where next_loop = "search_loop pattern min_size path es", OF _ 2(2) search_loop_stop])
        (use dir lock in \<open>auto simp: cut_search_full split: node.splits\<close>)
  qed
qed (simp add: cut_search_full)

lemma search_dir_cut: "cut_search (search_dir pattern min_size path nd sig) (hits_in pattern min_size path nd)"
  using poll_cases [of sig] by (cases nd)
    (auto simp: search_dir.simps hits_in_def cut_search_stop cut_search_full search_loop_cut)

lemma search_dirs_stop: "search_dirs pattern min_size ds (Some 0) = ([], Some 0)"
  by (cases ds) auto

lemma search_dirs_cut:
  "cut_search (search_dirs pattern min_size ds sig) (concat (map (\<lambda>(d, nd). hits_in pattern min_size d nd) ds))"
proof (induction ds arbitrary: sig)
  case (Cons e ds)
  obtain d nd where e: "e = (d, nd)" by (cases e)
  show ?case
  proof (cases "sig = Some 0")
    case True
    then show ?thesis by (simp add: search_dirs_stop cut_search_stop)
  next
    case False
    then obtain sig' where p: "poll sig = (False, sig')" using poll_cases [of sig] by auto
    show ?thesis
      using cut_search_append [where next_loop = "search_dirs pattern min_size ds", OF search_dir_cut Cons.IH search_dirs_stop]
      by (simp add: e p)
  qed
qed (simp add: cut_search_full)

section \<open>The files of a tree\<close>

text \<open>A regular file below a directory: its full path, its name and its size. Paths of 4096 bytes or
  more cannot be opened.\<close>

inductive file_below :: "string \<Rightarrow> entries \<Rightarrow> string \<Rightarrow> string \<Rightarrow> int \<Rightarrow> bool" where
  here: "(name, Reg sz) \<in> set es \<Longrightarrow> \<not> is_dots name \<Longrightarrow> length (fullpath path name) < 4096 \<Longrightarrow>
     file_below path es (fullpath path name) name sz"
| deeper: "(d, Dir sub) \<in> set es \<Longrightarrow> \<not> is_dots d \<Longrightarrow> length (fullpath path d) < 4096 \<Longrightarrow>
     file_below (fullpath path d) sub p name sz \<Longrightarrow> file_below path es p name sz"

inductive_simps file_below_Nil [simp]: "file_below path [] p name sz"

lemma file_below_Cons:
  "file_below path ((n, nd) # es) p name sz \<longleftrightarrow>
     (\<not> is_dots n \<and> length (fullpath path n) < 4096 \<and>
        (nd = Reg sz \<and> name = n \<and> p = fullpath path n \<or>
         (\<exists>sub. nd = Dir sub \<and> file_below (fullpath path n) sub p name sz))) \<or>
     file_below path es p name sz"
  unfolding file_below.simps [of path "(n, nd) # es" p name sz] file_below.simps [of path es p name sz] by auto

lemma hits_iff:
  "(p, sz) \<in> set (hits pattern min_size path es) \<longleftrightarrow>
     (\<exists>name. file_below path es p name sz \<and> \<not> too_small min_size sz \<and> match_pattern pattern name)"
proof (induction pattern min_size path es rule: hits.induct)
  case (2 pattern min_size path name nd es)
  show ?case
  proof (cases nd)
    case (Dir sub)
    with 2 show ?thesis by (auto simp: file_below_Cons)
  qed (use 2 in \<open>auto simp: file_below_Cons\<close>)
qed simp

text \<open>A file system keeps the names of a directory apart and has no slash in them.\<close>

fun wf_entries :: "entries \<Rightarrow> bool" where
  "wf_entries [] \<longleftrightarrow> True"
| "wf_entries ((name, nd) # es) \<longleftrightarrow>
     CHR ''/'' \<notin> set name \<and> name \<notin> fst ` set es \<and>
     (case nd of Dir sub \<Rightarrow> wf_entries sub | _ \<Rightarrow> True) \<and> wf_entries es"

lemma wf_entries_member:
  "wf_entries es \<Longrightarrow> (name, nd) \<in> set es \<Longrightarrow> CHR ''/'' \<notin> set name \<and> (case nd of Dir sub \<Rightarrow> wf_entries sub | _ \<Rightarrow> True)"
  by (induction es rule: wf_entries.induct) auto

text \<open>The paths found below an entry start with the path of the entry.\<close>

definition at_or_below :: "string \<Rightarrow> string \<Rightarrow> bool" where
  "at_or_below p q \<longleftrightarrow> q = p \<or> prefix (p @ ''/'') q"

lemma file_below_prefix: "file_below path es p name sz \<Longrightarrow> \<exists>(n, nd) \<in> set es. at_or_below (fullpath path n) p"
proof (induction rule: file_below.induct)
  case (deeper d sub es path p name sz)
  then obtain n where "at_or_below (fullpath (fullpath path d) n) p" by blast
  then have "at_or_below (fullpath path d) p" by (auto simp: at_or_below_def fullpath_def prefix_def)
  with deeper(1) show ?case by blast
qed (auto simp: at_or_below_def)

text \<open>Two names without a slash that start the same path are the same name.\<close>

lemma slash_free_split:
  "CHR ''/'' \<notin> set a \<Longrightarrow> CHR ''/'' \<notin> set b \<Longrightarrow> a @ x = b @ y \<Longrightarrow> x = [] \<or> hd x = CHR ''/'' \<Longrightarrow>
     y = [] \<or> hd y = CHR ''/'' \<Longrightarrow> a = b"
proof (induction a arbitrary: b)
  case Nil
  then show ?case by (cases b) auto
next
  case (Cons c a)
  then show ?case by (cases b) (auto dest: sym)
qed

lemma at_or_below_rest: "at_or_below (fullpath path n) p \<longleftrightarrow> (\<exists>x. p = path @ CHR ''/'' # n @ x \<and> (x = [] \<or> hd x = CHR ''/''))"
proof
  assume "\<exists>x. p = path @ CHR ''/'' # n @ x \<and> (x = [] \<or> hd x = CHR ''/'')"
  then obtain x where "p = path @ CHR ''/'' # n @ x" "x = [] \<or> hd x = CHR ''/''" by blast
  then show "at_or_below (fullpath path n) p" by (cases x) (auto simp: at_or_below_def fullpath_def prefix_def)
qed (auto simp: at_or_below_def fullpath_def prefix_def)

lemma at_or_below_same_name:
  assumes "at_or_below (fullpath path a) p" and "at_or_below (fullpath path b) p"
    and "CHR ''/'' \<notin> set a" and "CHR ''/'' \<notin> set b"
  shows "a = b"
  using assms slash_free_split [of a b] unfolding at_or_below_rest by force

lemma hits_distinct: "wf_entries es \<Longrightarrow> distinct (map fst (hits pattern min_size path es))"
proof (induction pattern min_size path es rule: hits.induct)
  case (2 pattern min_size path name nd es)
  let ?h = "if is_dots name \<or> length (fullpath path name) \<ge> 4096 then []
      else (case nd of
          Dir sub \<Rightarrow> hits pattern min_size (fullpath path name) sub
        | Reg sz \<Rightarrow> (if \<not> too_small min_size sz \<and> match_pattern pattern name then [(fullpath path name, sz)] else [])
        | _ \<Rightarrow> [])"
  have first: "distinct (map fst ?h)" using 2 by (auto split: node.splits)
  have below: "at_or_below (fullpath path name) p" if "p \<in> fst ` set ?h" for p
  proof -
    from that obtain sz where "(p, sz) \<in> set (hits pattern min_size path [(name, nd)])" by auto
    then show ?thesis unfolding hits_iff using file_below_prefix [of path "[(name, nd)]" p] by auto
  qed
  have "p \<notin> fst ` set ?h" if "p \<in> fst ` set (hits pattern min_size path es)" for p
  proof
    assume "p \<in> fst ` set ?h"
    from below [OF this] have b: "at_or_below (fullpath path name) p" .
    from that obtain sz n2 where "file_below path es p n2 sz" by (auto simp: hits_iff)
    then obtain n nd' where n: "(n, nd') \<in> set es" "at_or_below (fullpath path n) p" using file_below_prefix by blast
    with b at_or_below_same_name [OF b n(2)] wf_entries_member [of es n nd'] 2(3) show False by force
  qed
  then have "fst ` set ?h \<inter> fst ` set (hits pattern min_size path es) = {}" by blast
  moreover have "distinct (map fst (hits pattern min_size path es))" using 2 by simp
  ultimately show ?case using first by simp
qed simp

section \<open>Properties\<close>

text \<open>The search of a directory finds every matching file: it reports exactly the regular files
  below the directory whose size reaches the minimum and whose name matches the pattern, each once.\<close>

theorem search_dir_finds_matches:
  assumes "wf_entries es"
  shows "set (fst (search_dir pattern min_size path (Dir es) None)) =
           {(p, sz). \<exists>name. file_below path es p name sz \<and> \<not> too_small min_size sz \<and> match_pattern pattern name} \<and>
         distinct (map fst (fst (search_dir pattern min_size path (Dir es) None)))"
  using hits_distinct [OF assms] by (auto simp: search_no_signal hits_in_def hits_iff)

text \<open>A small tree: the same name at two levels, a file that is too small, a link and a directory that
  cannot be opened.\<close>

definition sample_tree :: entries where
  "sample_tree =
     [(''.'', Locked), (''..'', Locked), (''loog.txt'', Reg 20), (''log'', Reg 3), (''link'', Other),
      (''sub'', Dir [(''LOG.1'', Reg 50), (''notes'', Reg 70)]), (''private'', Locked)]"

theorem search_dir_finds_matches_witness:
  "set [(''r/loog.txt'', 20), (''r/sub/LOG.1'', 50)] =
     {(p, sz). \<exists>name. file_below ''r'' sample_tree p name sz \<and> \<not> too_small 10 sz \<and> match_pattern ''lo+g'' name}"
proof -
  have wf: "wf_entries sample_tree" by code_simp
  have found: "fst (search_dir ''lo+g'' 10 ''r'' (Dir sample_tree) None) = [(''r/loog.txt'', 20), (''r/sub/LOG.1'', 50)]"
    by code_simp
  show ?thesis using search_dir_finds_matches [OF wf, of "''lo+g''" 10 "''r''"] by (simp only: found)
qed

text \<open>(C36) A worker that is stopped by SIGTERM at any moment has written the lines of the first matches
  of its complete search, and of all of them when it was not stopped; its exit code is the number of the
  lines modulo 256.\<close>

theorem terminated_worker_reports_prefix:
  "\<exists>found. (if notified (run_worker pid pattern min_size dirs True sig) then (=) else prefix) found
             (concat (map (\<lambda>(d, nd). fst (search_dir pattern min_size d nd None)) dirs)) \<and>
           result_text (run_worker pid pattern min_size dirs True sig) = concat (map (match_line pid) found) \<and>
           exit_code (run_worker pid pattern min_size dirs True sig) = length found mod 256"
proof -
  have all: "concat (map (\<lambda>(d, nd). fst (search_dir pattern min_size d nd None)) dirs) =
      concat (map (\<lambda>(d, nd). hits_in pattern min_size d nd) dirs)"
    by (simp add: search_no_signal)
  obtain found t where r: "search_dirs pattern min_size dirs sig = (found, t)" by (cases "search_dirs pattern min_size dirs sig")
  with search_dirs_cut [of pattern min_size dirs sig]
  have "prefix found (concat (map (\<lambda>(d, nd). hits_in pattern min_size d nd) dirs))"
    "found = concat (map (\<lambda>(d, nd). hits_in pattern min_size d nd) dirs) \<or> t = Some 0"
    by (auto simp: cut_search_def)
  then show ?thesis unfolding all by (intro exI [of _ found]) (auto simp: run_worker_def r Let_def)
qed

end
