(* ===== verification/Search_Output.thy ===== *)
theory Search_Output
  imports C_Stdlib
begin

text \<open>
  The output of the parallel search (\<open>HW2/output.c\<close>): the tree of the matches and the summary. The
  output is the list of the printed lines, without their newlines. \<open>None\<close> stands for the overflow of the
  \<open>int\<close> arithmetic of \<open>print_indent\<close>.
\<close>

section \<open>Model\<close>

record MatchEntry =
  entry_path :: string
  entry_size :: int
  entry_pid :: int

record WorkerResult =
  res_pid :: int
  match_count :: int

abbreviation slash :: char where "slash \<equiv> CHR ''/''"

definition relative_path :: "string \<Rightarrow> string \<Rightarrow> string" where
  "relative_path root_dir full_path =
     (let rel = drop (length root_dir) full_path
      in if rel \<noteq> [] \<and> hd rel = slash then tl rel else rel)"

text \<open>The loop that computes \<open>2 ^ depth\<close> in an \<open>int\<close>.\<close>

fun double :: "nat \<Rightarrow> int \<Rightarrow> int option" where
  "double 0 p = Some p"
| "double (Suc n) p = (case int_mul p 2 of None \<Rightarrow> None | Some q \<Rightarrow> double n q)"

definition print_indent :: "int \<Rightarrow> string option" where
  "print_indent depth =
     (case double (nat (if depth \<le> 0 then 1 else depth)) 1 of
        None \<Rightarrow> None
      | Some pw \<Rightarrow>
          (case int_mul 2 (pw - 1) of
             None \<Rightarrow> None
           | Some num_dashes \<Rightarrow> Some (CHR ''|'' # replicate (nat num_dashes) (CHR ''-'') @ '' '')))"

text \<open>\<open>get_component\<close> into a buffer of 256 bytes.\<close>

fun get_component :: "string \<Rightarrow> nat \<Rightarrow> string option" where
  "get_component s 0 = None"
| "get_component s (Suc k) =
     (if s = [] then None
      else if k = 0 then Some (fit 256 (takeWhile (\<lambda>c. c \<noteq> slash) s))
      else if slash \<notin> set s then None
      else get_component (tl (dropWhile (\<lambda>c. c \<noteq> slash) s)) k)"

definition path_depth :: "string \<Rightarrow> nat" where
  "path_depth rel = 1 + length (filter (\<lambda>c. c = slash) rel)"

fun strcmp :: "string \<Rightarrow> string \<Rightarrow> int" where
  "strcmp [] [] = 0"
| "strcmp [] (y # ys) = - 1"
| "strcmp (x # xs) [] = 1"
| "strcmp (x # xs) (y # ys) = (if x = y then strcmp xs ys else int (code x) - int (code y))"

definition entry_cmp :: "MatchEntry \<Rightarrow> MatchEntry \<Rightarrow> int" where
  "entry_cmp a b = strcmp (entry_path a) (entry_path b)"

text \<open>The loop that joins the first components of a relative path with \<open>strncat\<close>.\<close>

fun build_partial :: "string \<Rightarrow> nat list \<Rightarrow> string \<Rightarrow> string" where
  "build_partial rel [] acc = acc"
| "build_partial rel (level # levels) acc =
     (case get_component rel level of
        None \<Rightarrow> acc
      | Some part \<Rightarrow>
          build_partial rel levels (fit 4096 ((if level > 1 then fit 4096 (acc @ [slash]) else acc) @ part)))"

definition partial_path :: "string \<Rightarrow> nat \<Rightarrow> string" where
  "partial_path rel depth = build_partial rel [1..<depth + 1] []"

text \<open>The loop over the directories above a match; \<open>printed\<close> holds the first 64 directories printed.\<close>

fun print_dirs :: "string \<Rightarrow> nat list \<Rightarrow> string list \<Rightarrow> (string list \<times> string list) option" where
  "print_dirs rel [] printed = Some ([], printed)"
| "print_dirs rel (depth # depths) printed =
     (case get_component rel depth of
        None \<Rightarrow> Some ([], printed)
      | Some dir_name \<Rightarrow>
          (if partial_path rel depth \<in> set printed then print_dirs rel depths printed
           else (case print_indent (int depth) of
                   None \<Rightarrow> None
                 | Some indent \<Rightarrow>
                     map_option (apfst ((#) (indent @ dir_name)))
                       (print_dirs rel depths
                         (if length printed < 64 then printed @ [take 4095 (partial_path rel depth)] else printed)))))"

definition file_line :: "string \<Rightarrow> MatchEntry \<Rightarrow> string" where
  "file_line filename e =
     filename @ '' ('' @ show_int (entry_size e) @ '' bytes) [Worker '' @ show_int (entry_pid e) @ '']''"

text \<open>The lines of one match: its new directories, then the file.\<close>

definition print_entry :: "string \<Rightarrow> MatchEntry \<Rightarrow> string list \<Rightarrow> (string list \<times> string list) option" where
  "print_entry root_dir e printed =
     (let rel = relative_path root_dir (entry_path e); total_depth = path_depth rel
      in case print_dirs rel [1..<total_depth] printed of
           None \<Rightarrow> None
         | Some (ls, printed') \<Rightarrow>
             (case get_component rel total_depth of
                None \<Rightarrow> Some (ls, printed')
              | Some filename \<Rightarrow>
                  (case print_indent (int total_depth) of
                     None \<Rightarrow> None
                   | Some indent \<Rightarrow> Some (ls @ [indent @ file_line filename e], printed'))))"

fun print_entries :: "string \<Rightarrow> MatchEntry list \<Rightarrow> string list \<Rightarrow> string list option" where
  "print_entries root_dir [] printed = Some []"
| "print_entries root_dir (e # es) printed =
     (case print_entry root_dir e printed of
        None \<Rightarrow> None
      | Some (ls, printed') \<Rightarrow> map_option ((@) ls) (print_entries root_dir es printed'))"

definition print_tree :: "string \<Rightarrow> MatchEntry list \<Rightarrow> string list option" where
  "print_tree root_dir entries =
     (if entries = [] then Some [root_dir, ''No matching files found.'']
      else map_option ((#) root_dir) (print_entries root_dir (qsort_by entry_cmp entries) []))"

definition print_summary :: "nat \<Rightarrow> int \<Rightarrow> int \<Rightarrow> WorkerResult list \<Rightarrow> string list" where
  "print_summary num_workers total_scanned total_matches results =
     [[], ''--- Summary ---'',
      ''Total workers used  : '' @ show_nat num_workers,
      ''Total files scanned : '' @ show_int total_scanned,
      ''Total matches found : '' @ show_int total_matches] @
     map (\<lambda>r. ''Worker PID '' @ show_int (res_pid r) @ '' : '' @ show_int (match_count r) @
            (if match_count r = 1 then '' match'' else '' matches'')) results"

section \<open>Indentation\<close>

lemma double_power: "1 \<le> p \<Longrightarrow> double n p = (if n = 0 \<or> p * 2 ^ n \<le> INT_MAX then Some (p * 2 ^ n) else None)"
proof (induction n arbitrary: p)
  case (Suc n)
  show ?case
  proof (cases "p * 2 \<le> INT_MAX")
    case True
    with Suc show ?thesis by (auto simp: int_mul_def in_int_def INT_MIN_def mult.assoc)
  next
    case False
    have "p * 2 \<le> p * 2 ^ Suc n" using Suc(2) by simp
    with False have "\<not> p * 2 ^ Suc n \<le> INT_MAX" by linarith
    with False show ?thesis by (simp add: int_mul_def in_int_def)
  qed
qed simp

lemma print_indent_eq:
  assumes "1 \<le> d"
  shows "print_indent (int d) = (if d \<le> 30 then Some (CHR ''|'' # replicate (2 * (2 ^ d - 1)) (CHR ''-'') @ '' '') else None)"
proof (cases "d \<le> 30")
  case True
  then have "(2::int) ^ d \<le> 2 ^ 30" by (rule power_increasing) simp
  then have le: "(2::int) ^ d \<le> 1073741824" by simp
  moreover have "int (2 * (2 ^ d - 1)) = 2 * (2 ^ d - 1)" by (simp add: of_nat_diff)
  ultimately show ?thesis using assms True
    by (simp add: print_indent_def double_power int_mul_def in_int_def INT_MAX_def INT_MIN_def nat_mult_distrib nat_diff_distrib nat_power_eq)
next
  case False
  then have "(2::int) ^ 31 \<le> 2 ^ d" by (intro power_increasing) auto
  with assms False show ?thesis by (simp add: print_indent_def double_power INT_MAX_def)
qed

section \<open>The order of the tree\<close>

lemma strcmp_refl [simp]: "strcmp s s = 0"
  by (induction s) auto

lemma strcmp_sign: "strcmp a b < 0 \<longleftrightarrow> strcmp b a > 0"
  by (induction a b rule: strcmp.induct) auto

lemma strcmp_trans: "strcmp a b \<le> 0 \<Longrightarrow> strcmp b c \<le> 0 \<Longrightarrow> strcmp a c \<le> 0"
proof (induction a b arbitrary: c rule: strcmp.induct)
  case (4 x xs y ys)
  then show ?case by (cases c) (auto split: if_splits)
qed (case_tac c; simp split: if_splits)+

interpretation path_order: comparator entry_cmp
proof
  fix x y z :: MatchEntry
  show "entry_cmp x y \<le> 0 \<or> entry_cmp y x \<le> 0"
    using strcmp_sign [of "entry_path y" "entry_path x"] by (auto simp: entry_cmp_def)
  show "entry_cmp x y \<le> 0 \<Longrightarrow> entry_cmp y z \<le> 0 \<Longrightarrow> entry_cmp x z \<le> 0"
    by (simp add: entry_cmp_def strcmp_trans)
qed

section \<open>Paths and their components\<close>

fun join :: "string list \<Rightarrow> string" where
  "join [] = []"
| "join [n] = n"
| "join (n # m # ns) = n @ slash # join (m # ns)"

definition name_ok :: "string \<Rightarrow> bool" where
  "name_ok n \<longleftrightarrow> n \<noteq> [] \<and> slash \<notin> set n"

definition components :: "string \<Rightarrow> string list" where
  "components rel = strtok (\<lambda>c. c = slash) rel"

lemma components_ok: "list_all name_ok (components rel)"
  using strtok_no_sep [of "\<lambda>c. c = slash" rel] by (auto simp: components_def list_all_iff name_ok_def)

lemma join_Cons: "ns \<noteq> [] \<Longrightarrow> join (n # ns) = n @ slash # join ns"
  by (cases ns) auto

lemma join_snoc: "ns \<noteq> [] \<Longrightarrow> join (ns @ [n]) = join ns @ slash # n"
  by (induction ns rule: join.induct) auto

lemma name_takeWhile: "name_ok n \<Longrightarrow> takeWhile (\<lambda>c. c \<noteq> slash) (n @ slash # r) = n"
  "name_ok n \<Longrightarrow> dropWhile (\<lambda>c. c \<noteq> slash) (n @ slash # r) = slash # r"
  "name_ok n \<Longrightarrow> takeWhile (\<lambda>c. c \<noteq> slash) n = n"
  "name_ok n \<Longrightarrow> dropWhile (\<lambda>c. c \<noteq> slash) n = []"
proof -
  assume ok: "name_ok n"
  then have all: "\<forall>c\<in>set n. c \<noteq> slash" by (auto simp: name_ok_def)
  show "takeWhile (\<lambda>c. c \<noteq> slash) (n @ slash # r) = n" "dropWhile (\<lambda>c. c \<noteq> slash) (n @ slash # r) = slash # r"
    using takeWhile_all [OF all, of "slash # r"] dropWhile_all [OF all, of "slash # r"] by simp_all
  show "takeWhile (\<lambda>c. c \<noteq> slash) n = n" "dropWhile (\<lambda>c. c \<noteq> slash) n = []"
    using takeWhile_all [OF all, of "[]"] dropWhile_all [OF all, of "[]"] by simp_all
qed

lemma components_join: "list_all name_ok ns \<Longrightarrow> components (join ns) = ns"
proof (induction ns rule: join.induct)
  case (2 n)
  then show ?case using strtok_token [of n "\<lambda>c. c = slash" "[]"] by (auto simp: components_def name_ok_def)
next
  case (3 n m ns)
  then show ?case using strtok_token [of n "\<lambda>c. c = slash" "slash # join (m # ns)"]
    by (auto simp: components_def name_ok_def strtok_sep)
qed (simp add: components_def)

lemma join_inject: "list_all name_ok a \<Longrightarrow> list_all name_ok b \<Longrightarrow> join a = join b \<longleftrightarrow> a = b"
  by (metis components_join)

lemma join_Nil_iff: "list_all name_ok ns \<Longrightarrow> join ns = [] \<longleftrightarrow> ns = []"
  by (cases ns rule: join.cases) (auto simp: name_ok_def)

lemma get_component_join:
  "list_all name_ok ns \<Longrightarrow> k < length ns \<Longrightarrow> get_component (join ns) (Suc k) = Some (fit 256 (ns ! k))"
proof (induction ns arbitrary: k rule: join.induct)
  case (2 n)
  then show ?case by (simp add: name_takeWhile name_ok_def)
next
  case (3 n m ns)
  then have ok: "name_ok n" by simp
  show ?case
  proof (cases k)
    case 0
    with ok show ?thesis by (simp add: name_takeWhile)
  next
    case (Suc j)
    with 3 have "get_component (join (m # ns)) (Suc j) = Some (fit 256 ((m # ns) ! j))" by simp
    with ok Suc show ?thesis by (simp add: name_takeWhile del: join.simps(2,3) get_component.simps(2) join.simps)
        (simp add: name_takeWhile)
  qed
qed simp

declare get_component.simps [simp del]

lemma path_depth_join: "list_all name_ok ns \<Longrightarrow> ns \<noteq> [] \<Longrightarrow> path_depth (join ns) = length ns"
proof (induction ns rule: join.induct)
  case (3 n m ns)
  then have "filter (\<lambda>c. c = slash) n = []" by (auto simp: name_ok_def filter_empty_conv)
  with 3 show ?case by (simp add: path_depth_def)
qed (auto simp: path_depth_def name_ok_def filter_empty_conv)

lemma length_join_take: "length (join (take d ns)) \<le> length (join ns)"
proof (induction ns arbitrary: d rule: join.induct)
  case (2 n)
  then show ?case by (cases d) auto
next
  case (3 n m ns)
  show ?case
  proof (cases d)
    case (Suc j)
    show ?thesis
    proof (cases j)
      case (Suc i)
      with 3 [of j] \<open>d = Suc j\<close> show ?thesis by simp
    qed (simp add: Suc)
  qed simp
qed simp

text \<open>Names of at most 255 bytes fit into the buffers.\<close>

definition names_ok :: "string list \<Rightarrow> bool" where
  "names_ok ns \<longleftrightarrow> list_all (\<lambda>n. name_ok n \<and> length n \<le> 255) ns \<and> length (join ns) < 4096"

lemma names_ok_name: "names_ok ns \<Longrightarrow> list_all name_ok ns"
  by (simp add: names_ok_def list_all_iff)

lemma component_of: "names_ok ns \<Longrightarrow> k < length ns \<Longrightarrow> get_component (join ns) (Suc k) = Some (ns ! k)"
  using get_component_join [OF names_ok_name, of ns k] by (auto simp: names_ok_def list_all_length fit_def)

lemma build_partial_append:
  "list_all (\<lambda>l. get_component rel l \<noteq> None) xs \<Longrightarrow>
     build_partial rel (xs @ ys) acc = build_partial rel ys (build_partial rel xs acc)"
  by (induction xs arbitrary: acc) (auto split: option.splits)

lemma partial_path_join: "names_ok ns \<Longrightarrow> d \<le> length ns \<Longrightarrow> partial_path (join ns) d = join (take d ns)"
proof (induction d)
  case 0
  then show ?case by (simp add: partial_path_def)
next
  case (Suc d)
  have "get_component (join ns) l \<noteq> None" if "l \<in> set [1..<d + 1]" for l
    using component_of [OF Suc(2), of "l - 1"] that Suc(3) by (cases l) auto
  then have some: "list_all (\<lambda>l. get_component (join ns) l \<noteq> None) [1..<d + 1]" by (simp add: list_all_iff del: upt_Suc)
  have "build_partial (join ns) ([1..<d + 1] @ [Suc d]) [] = build_partial (join ns) [Suc d] (partial_path (join ns) d)"
    using build_partial_append [OF some, of "[Suc d]" "[]"] by (simp add: partial_path_def)
  moreover have "[1..<Suc d + 1] = [1..<d + 1] @ [Suc d]" by simp
  ultimately have "partial_path (join ns) (Suc d) = build_partial (join ns) [Suc d] (join (take d ns))"
    using Suc by (simp only: partial_path_def [of _ "Suc d"])
  moreover have "join (take (Suc d) ns) = (if d > 0 then join (take d ns) @ [slash] else join (take d ns)) @ ns ! d"
    using Suc(3) join_snoc [of "take d ns" "ns ! d"] take_Suc_conv_app_nth [of d ns]
    by (cases "take d ns = []") auto
  moreover have "length (join (take (Suc d) ns)) < 4096" using Suc(2) length_join_take [of "Suc d" ns] by (simp add: names_ok_def)
  ultimately show ?case using component_of [OF Suc(2), of d] Suc(3)
    by (auto simp: fit_def)
qed

section \<open>The tree\<close>

text \<open>The reference: a directory is the list of its components; it is printed once, before the first
  match below it.\<close>

definition indent :: "nat \<Rightarrow> string" where
  "indent d = CHR ''|'' # replicate (2 * (2 ^ d - 1)) (CHR ''-'') @ '' ''"

definition parents :: "string list \<Rightarrow> string list list" where
  "parents ns = map (\<lambda>d. take d ns) [1..<length ns]"

definition new_dirs :: "string list list \<Rightarrow> string list \<Rightarrow> string list list" where
  "new_dirs seen ns = filter (\<lambda>dir. dir \<notin> set seen) (parents ns)"

definition dir_line :: "string list \<Rightarrow> string" where
  "dir_line dir = indent (length dir) @ last dir"

definition names_of :: "string \<Rightarrow> MatchEntry \<Rightarrow> string list" where
  "names_of root_dir e = components (relative_path root_dir (entry_path e))"

fun tree_lines :: "string \<Rightarrow> MatchEntry list \<Rightarrow> string list list \<Rightarrow> string list" where
  "tree_lines root_dir [] seen = []"
| "tree_lines root_dir (e # es) seen =
     (let ns = names_of root_dir e in
      map dir_line (new_dirs seen ns) @ [indent (length ns) @ file_line (last ns) e] @
      tree_lines root_dir es (seen @ new_dirs seen ns))"

fun seen_dirs :: "string \<Rightarrow> MatchEntry list \<Rightarrow> string list list \<Rightarrow> string list list" where
  "seen_dirs root_dir [] seen = seen"
| "seen_dirs root_dir (e # es) seen = seen_dirs root_dir es (seen @ new_dirs seen (names_of root_dir e))"

text \<open>A match that can be printed: its path consists of names of at most 255 bytes, at most 30 levels.\<close>

definition printable :: "string \<Rightarrow> MatchEntry \<Rightarrow> bool" where
  "printable root_dir e \<longleftrightarrow>
     (let ns = names_of root_dir e in
      relative_path root_dir (entry_path e) = join ns \<and> ns \<noteq> [] \<and> length ns \<le> 30 \<and> names_ok ns)"

lemma take_ok: "list_all name_ok ns \<Longrightarrow> list_all name_ok (take d ns)"
  by (auto simp: list_all_iff dest: in_set_takeD)

lemma print_dirs_lines:
  assumes "names_ok ns" and "length ns \<le> 30"
  shows "distinct ds \<Longrightarrow> list_all (\<lambda>d. 1 \<le> d \<and> d < length ns) ds \<Longrightarrow> list_all (list_all name_ok) seen \<Longrightarrow>
     length seen + length (filter (\<lambda>d. take d ns \<notin> set seen) ds) \<le> 64 \<Longrightarrow>
     print_dirs (join ns) ds (map join seen) =
       Some (map (\<lambda>d. indent d @ ns ! (d - 1)) (filter (\<lambda>d. take d ns \<notin> set seen) ds),
             map join (seen @ map (\<lambda>d. take d ns) (filter (\<lambda>d. take d ns \<notin> set seen) ds)))"
proof (induction ds arbitrary: seen)
  case (Cons d ds)
  then obtain k where d: "d = Suc k" "d < length ns" by (cases d) auto
  have comp: "get_component (join ns) d = Some (ns ! (d - 1))" using component_of [OF assms(1), of k] d by simp
  have part: "partial_path (join ns) d = join (take d ns)" using partial_path_join [OF assms(1), of d] d(2) by simp
  have ind: "print_indent (int d) = Some (indent d)" using print_indent_eq [of d] d assms(2) by (simp add: indent_def)
  have ok: "list_all name_ok (take d ns)" by (rule take_ok [OF names_ok_name [OF assms(1)]])
  have mem: "join (take d ns) \<in> join ` set seen \<longleftrightarrow> take d ns \<in> set seen"
    using ok Cons(4) join_inject by (auto simp: list_all_iff)
  show ?case
  proof (cases "take d ns \<in> set seen")
    case True
    with Cons mem show ?thesis by (simp add: comp part)
  next
    case False
    have "take e ns \<noteq> take d ns" if "e \<in> set ds" for e
    proof
      assume "take e ns = take d ns"
      then have "length (take e ns) = length (take d ns)" by simp
      moreover have "e < length ns" "e \<noteq> d" using that Cons(2,3) by (auto simp: list_all_iff)
      ultimately show False using d(2) by simp
    qed
    then have f: "filter (\<lambda>e. take e ns \<notin> set (seen @ [take d ns])) ds = filter (\<lambda>e. take e ns \<notin> set seen) ds"
      by (auto intro: filter_cong)
    have "length (join (take d ns)) \<le> 4095" using length_join_take [of d ns] assms(1) by (simp add: names_ok_def)
    moreover have "print_dirs (join ns) ds (map join (seen @ [take d ns])) =
       Some (map (\<lambda>d. indent d @ ns ! (d - 1)) (filter (\<lambda>d. take d ns \<notin> set seen) ds),
             map join ((seen @ [take d ns]) @ map (\<lambda>d. take d ns) (filter (\<lambda>d. take d ns \<notin> set seen) ds)))"
      using Cons(1) [of "seen @ [take d ns]"] Cons(2-5) False ok unfolding f by simp
    moreover have "length seen < 64" using Cons(5) False by simp
    ultimately show ?thesis using False mem by (simp add: comp part ind)
  qed
qed simp

lemma new_dirs_filter: "new_dirs seen ns = map (\<lambda>d. take d ns) (filter (\<lambda>d. take d ns \<notin> set seen) [1..<length ns])"
  by (simp add: new_dirs_def parents_def filter_map o_def)

lemma dir_line_take: "d \<in> set [1..<length ns] \<Longrightarrow> dir_line (take d ns) = indent d @ ns ! (d - 1)"
  by (cases d) (auto simp: dir_line_def take_Suc_conv_app_nth)

lemma new_dirs_ok: "list_all name_ok ns \<Longrightarrow> list_all (list_all name_ok) (new_dirs seen ns)"
  by (auto simp: new_dirs_def parents_def list_all_iff dest: in_set_takeD)

lemma print_entry_lines:
  assumes "printable root_dir e" and "list_all (list_all name_ok) seen"
    and "length seen + length (new_dirs seen (names_of root_dir e)) \<le> 64"
  shows "print_entry root_dir e (map join seen) =
     Some (map dir_line (new_dirs seen (names_of root_dir e)) @
             [indent (length (names_of root_dir e)) @ file_line (last (names_of root_dir e)) e],
           map join (seen @ new_dirs seen (names_of root_dir e)))"
proof -
  define ns where "ns = names_of root_dir e"
  have ns: "relative_path root_dir (entry_path e) = join ns" "ns \<noteq> []" "length ns \<le> 30" "names_ok ns"
    using assms(1) by (simp_all add: printable_def Let_def ns_def)
  have depth: "path_depth (join ns) = length ns" using path_depth_join [OF names_ok_name [OF ns(4)] ns(2)] .
  have "map dir_line (new_dirs seen ns) = map (\<lambda>d. indent d @ ns ! (d - 1)) (filter (\<lambda>d. take d ns \<notin> set seen) [1..<length ns])"
    unfolding new_dirs_filter using dir_line_take by (auto simp del: upt_Suc)
  moreover have "print_dirs (join ns) [1..<length ns] (map join seen) =
       Some (map (\<lambda>d. indent d @ ns ! (d - 1)) (filter (\<lambda>d. take d ns \<notin> set seen) [1..<length ns]), map join (seen @ new_dirs seen ns))"
    using print_dirs_lines [OF ns(4,3) distinct_upt _ assms(2)] assms(3) unfolding ns_def [symmetric] new_dirs_filter
    by (simp add: list_all_iff)
  moreover have "get_component (join ns) (length ns) = Some (last ns)"
    using component_of [OF ns(4), of "length ns - 1"] ns(2) by (simp add: last_conv_nth)
  moreover have "print_indent (int (length ns)) = Some (indent (length ns))"
    using print_indent_eq [of "length ns"] ns(2,3) by (simp add: indent_def Suc_le_eq)
  ultimately show ?thesis by (simp add: print_entry_def Let_def ns(1) depth ns_def [symmetric])
qed

lemma seen_dirs_length: "length seen \<le> length (seen_dirs root_dir es seen)"
proof (induction es arbitrary: seen)
  case (Cons e es)
  show ?case using Cons [of "seen @ new_dirs seen (names_of root_dir e)"] by simp
qed simp

lemma seen_dirs_set: "set (seen_dirs root_dir es seen) = set seen \<union> (\<Union>e\<in>set es. set (parents (names_of root_dir e)))"
  by (induction es arbitrary: seen) (auto simp: new_dirs_def)

lemma distinct_parents: "distinct (parents ns)"
proof -
  have "inj_on (\<lambda>d. take d ns) (set [1..<length ns])" by (rule inj_onI) (metis atLeastLessThan_iff length_take min.strict_order_iff order_less_imp_le set_upt min.absorb2)
  then show ?thesis by (simp add: parents_def distinct_map)
qed

lemma distinct_seen_dirs: "distinct seen \<Longrightarrow> distinct (seen_dirs root_dir es seen)"
proof (induction es arbitrary: seen)
  case (Cons e es)
  then have "distinct (seen @ new_dirs seen (names_of root_dir e))" by (auto simp: new_dirs_def distinct_parents)
  with Cons(1) show ?case by simp
qed simp

lemma print_entries_lines:
  "list_all (printable root_dir) es \<Longrightarrow> list_all (list_all name_ok) seen \<Longrightarrow> length (seen_dirs root_dir es seen) \<le> 64 \<Longrightarrow>
     print_entries root_dir es (map join seen) = Some (tree_lines root_dir es seen)"
proof (induction es arbitrary: seen)
  case (Cons e es)
  let ?new = "new_dirs seen (names_of root_dir e)"
  have ok: "list_all (list_all name_ok) (seen @ ?new)"
    using Cons(3) new_dirs_ok [OF components_ok] by (simp add: names_of_def)
  have "length seen + length ?new \<le> 64" using Cons(4) seen_dirs_length [of "seen @ ?new" root_dir es] by simp
  from print_entry_lines [OF _ Cons(3) this] Cons(1) [OF _ ok] Cons(2,4) show ?case
    by (simp add: Let_def del: map_append)
qed simp

section \<open>Properties\<close>

text \<open>(C37) The printed tree: the matches appear sorted by path, each exactly once, and every directory
  above a match is printed exactly once, before the first match below it. This needs names of at most
  255 bytes, at most 30 levels and at most 64 directories.\<close>

theorem print_tree_lines:
  assumes "entries \<noteq> []" and "list_all (printable root_dir) entries"
    and "card (\<Union>e\<in>set entries. set (parents (names_of root_dir e))) \<le> 64"
  shows "\<exists>es. mset es = mset entries \<and> sorted_wrt (\<lambda>a b. strcmp (entry_path a) (entry_path b) \<le> 0) es \<and>
     print_tree root_dir entries = Some (root_dir # tree_lines root_dir es [])"
proof (intro exI conjI)
  let ?es = "qsort_by entry_cmp entries"
  show m: "mset ?es = mset entries" by (rule path_order.mset_qsort_by)
  then have set: "set ?es = set entries" by (metis set_mset_mset)
  show "sorted_wrt (\<lambda>a b. strcmp (entry_path a) (entry_path b) \<le> 0) ?es"
    using path_order.sorted_qsort_by [of entries] by (simp add: entry_cmp_def)
  have "length (seen_dirs root_dir ?es []) = card (set (seen_dirs root_dir ?es []))"
    by (simp add: distinct_card distinct_seen_dirs)
  then have "length (seen_dirs root_dir ?es []) \<le> 64" using assms(3) by (simp add: seen_dirs_set set)
  with print_entries_lines [of root_dir ?es "[]"] assms(2) set
  have "print_entries root_dir ?es [] = Some (tree_lines root_dir ?es [])" by (simp add: list_all_iff)
  then show "print_tree root_dir entries = Some (root_dir # tree_lines root_dir ?es [])"
    using assms(1) by (simp add: print_tree_def)
qed

definition sample_entries :: "MatchEntry list" where
  "sample_entries =
     [\<lparr>entry_path = ''r/b/log'', entry_size = 7, entry_pid = 12\<rparr>, \<lparr>entry_path = ''r/a/x/log'', entry_size = 20, entry_pid = 11\<rparr>,
      \<lparr>entry_path = ''r/a/log'', entry_size = 5, entry_pid = 11\<rparr>]"

theorem print_tree_lines_witness:
  "\<exists>es. mset es = mset sample_entries \<and> print_tree ''r'' sample_entries = Some (''r'' # tree_lines ''r'' es [])"
proof -
  have "\<Union> ((\<lambda>e. set (parents (names_of ''r'' e))) ` set sample_entries) = {[''a''], [''a'', ''x''], [''b'']}"
    by (simp add: sample_entries_def) code_simp
  then have "card (\<Union>e\<in>set sample_entries. set (parents (names_of ''r'' e))) \<le> 64" by (simp add: card_insert_if)
  moreover have "list_all (printable ''r'') sample_entries" "sample_entries \<noteq> []" by code_simp+
  ultimately show ?thesis using print_tree_lines [of sample_entries "''r''"] by blast
qed

text \<open>A match that lies 31 or more levels below the root makes \<open>print_indent\<close> overflow an \<open>int\<close>, so
  that no tree with it can be printed; the deepest level that can be printed has a line of more than two
  billion dashes.\<close>

theorem print_indent_limit:
  "{d. print_indent (int d) = None} = {31..} \<and> map_option length (print_indent 30) = Some 2147483648"
proof -
  have "print_indent (int 0) = print_indent (int 1)" by (simp add: print_indent_def)
  then have "print_indent (int d) = None \<longleftrightarrow> 31 \<le> d" for d
    using print_indent_eq [of d] print_indent_eq [of 1] by (cases d) auto
  moreover have "print_indent 30 = Some (indent 30)" using print_indent_eq [of 30] by (simp add: indent_def)
  ultimately show ?thesis by (auto simp: indent_def)
qed

end
