(* ===== verification/Search_Main.thy ===== *)
theory Search_Main
  imports Search_Worker Search_Output
begin

text \<open>
  The parent process of the parallel search (\<open>HW2/main.c\<close>): options, subdirectories, the distribution of
  the work, the signal handlers and the loop that waits for the workers, the results that are read
  back, and the whole run. The tree does not change during a run. \<open>None\<close> in the functions that walk the
  tree in the parent stands for a path of 4096 bytes or more: \<open>snprintf\<close> cuts it and \<open>lstat\<close> then looks at
  another file.
\<close>

section \<open>Options\<close>

record search_args =
  root_dir :: "string option"
  num_workers :: int
  search_pattern :: "string option"
  min_size :: int

datatype usage_error = Usage | Bad_Workers

text \<open>The options that \<open>getopt\<close> returns, each with its argument.\<close>

fun search_opts :: "(char \<times> string) list \<Rightarrow> search_args \<Rightarrow> search_args option" where
  "search_opts [] a = Some a"
| "search_opts ((opt, optarg) # opts) a =
     (if opt = CHR ''d'' then search_opts opts (a\<lparr>root_dir := Some optarg\<rparr>)
      else if opt = CHR ''n'' then search_opts opts (a\<lparr>num_workers := atoi optarg\<rparr>)
      else if opt = CHR ''f'' then search_opts opts (a\<lparr>search_pattern := Some optarg\<rparr>)
      else if opt = CHR ''s'' then search_opts opts (a\<lparr>min_size := fst (strtol optarg)\<rparr>)
      else None)"

definition parse_search_args :: "(char \<times> string) list \<Rightarrow> usage_error + search_args" where
  "parse_search_args opts =
     (case search_opts opts \<lparr>root_dir = None, num_workers = 0, search_pattern = None, min_size = - 1\<rparr> of
        None \<Rightarrow> Inl Usage
      | Some a \<Rightarrow>
          if root_dir a = None \<or> search_pattern a = None \<or> num_workers a = 0 then Inl Usage
          else if num_workers a < 2 \<or> num_workers a > 8 then Inl Bad_Workers
          else Inr a)"

section \<open>Walking the tree in the parent\<close>

text \<open>The subdirectories of the root, at most 512.\<close>

fun list_subdirs :: "string \<Rightarrow> entries \<Rightarrow> nat \<Rightarrow> entries option" where
  "list_subdirs root [] n = Some []"
| "list_subdirs root ((name, nd) # es) n =
     (if n \<ge> 512 then Some []
      else if is_dots name then list_subdirs root es n
      else if length (fullpath root name) \<ge> 4096 then None
      else (case nd of
          Dir sub \<Rightarrow> map_option ((#) (fullpath root name, nd)) (list_subdirs root es (Suc n))
        | Locked \<Rightarrow> map_option ((#) (fullpath root name, nd)) (list_subdirs root es (Suc n))
        | _ \<Rightarrow> list_subdirs root es n))"

fun count_total_files :: "string \<Rightarrow> entries \<Rightarrow> nat option" where
  "count_total_files path [] = Some 0"
| "count_total_files path ((name, nd) # es) =
     (if is_dots name then count_total_files path es
      else if length (fullpath path name) \<ge> 4096 then None
      else (case nd of
          Dir sub \<Rightarrow> (case count_total_files (fullpath path name) sub of
                        None \<Rightarrow> None
                      | Some n \<Rightarrow> map_option ((+) n) (count_total_files path es))
        | Reg sz \<Rightarrow> map_option Suc (count_total_files path es)
        | _ \<Rightarrow> count_total_files path es))"

definition MAX_MATCHES :: nat where "MAX_MATCHES = 4096"

fun collect_matches :: "string \<Rightarrow> entries \<Rightarrow> string \<Rightarrow> int \<Rightarrow> int \<Rightarrow> MatchEntry list \<Rightarrow> MatchEntry list option" where
  "collect_matches path [] pattern minsz pid acc = Some acc"
| "collect_matches path ((name, nd) # es) pattern minsz pid acc =
     (if is_dots name then collect_matches path es pattern minsz pid acc
      else if length (fullpath path name) \<ge> 4096 then None
      else (case nd of
          Dir sub \<Rightarrow> (case collect_matches (fullpath path name) sub pattern minsz pid acc of
                        None \<Rightarrow> None
                      | Some acc' \<Rightarrow> collect_matches path es pattern minsz pid acc')
        | Reg sz \<Rightarrow>
            (if too_small minsz sz then collect_matches path es pattern minsz pid acc
             else if match_pattern pattern name \<and> length acc < MAX_MATCHES
             then collect_matches path es pattern minsz pid
                    (acc @ [\<lparr>entry_path = take 4095 (fullpath path name), entry_size = sz, entry_pid = pid\<rparr>])
             else collect_matches path es pattern minsz pid acc)
        | _ \<Rightarrow> collect_matches path es pattern minsz pid acc))"

section \<open>Distribution of the work\<close>

text \<open>The subdirectories are dealt to the workers in turn.\<close>

definition wdirs :: "nat \<Rightarrow> 'a list \<Rightarrow> 'a list list" where
  "wdirs n ds = foldl (\<lambda>ws i. ws[i mod n := ws ! (i mod n) @ [ds ! i]]) (replicate n []) [0..<length ds]"

section \<open>Signals\<close>

datatype status = Exited nat | Signaled int

fun status_code :: "status \<Rightarrow> int" where
  "status_code (Exited n) = int n"
| "status_code (Signaled _) = 0"

text \<open>The globals of the parent and the lines of its error output.\<close>

record parent =
  sigusr1_count :: nat
  sigint_received :: bool
  sigchld_received :: bool
  reaped :: "(int \<times> status) list"
  sigchld_processed :: nat
  results :: "WorkerResult list"
  err_lines :: "string list"

text \<open>A delivered signal; SIGCHLD comes with the children that \<open>waitpid\<close> returns in the handler.\<close>

datatype psignal = SIGUSR1 | SIGINT | SIGCHLD "(int \<times> status) list"

definition reap :: "(int \<times> status) list \<Rightarrow> int \<times> status \<Rightarrow> (int \<times> status) list" where
  "reap rs r = (if length rs < 8 then rs @ [r] else rs)"

fun handle_signal :: "parent \<Rightarrow> psignal \<Rightarrow> parent" where
  "handle_signal p SIGUSR1 = p\<lparr>sigusr1_count := sigusr1_count p + 1\<rparr>"
| "handle_signal p SIGINT = p\<lparr>sigint_received := True\<rparr>"
| "handle_signal p (SIGCHLD cs) = p\<lparr>reaped := foldl reap (reaped p) cs, sigchld_received := True\<rparr>"

definition add_result :: "int \<times> status \<Rightarrow> WorkerResult list \<Rightarrow> WorkerResult list" where
  "add_result r rs = (if length rs < 8 then rs @ [\<lparr>res_pid = fst r, match_count = status_code (snd r)\<rparr>] else rs)"

definition reap_lines :: "int list \<Rightarrow> int \<times> status \<Rightarrow> string list" where
  "reap_lines children r =
     [''[Parent] SIGCHLD received. Reaped child PID:'' @ show_int (fst r) @ '' (exit status: '' @ show_int (status_code (snd r)) @ '').'']
     @ (case snd r of
          Exited _ \<Rightarrow> []
        | Signaled _ \<Rightarrow>
            if fst r \<in> set children
            then [''[Parent] Worker PID:'' @ show_int (fst r) @ '' terminated unexpectedly (exit status: '' @ show_int (status_code (snd r)) @ '').'']
            else [])"

definition process_sigchld :: "int list \<Rightarrow> parent \<Rightarrow> parent" where
  "process_sigchld children p =
     (let fresh = drop (sigchld_processed p) (reaped p) in
      p\<lparr>err_lines := err_lines p @ concat (map (reap_lines children) fresh),
        results := foldl (\<lambda>rs r. if fst r \<in> set children then add_result r rs else rs) (results p) fresh,
        sigchld_processed := length (reaped p)\<rparr>)"

text \<open>The signals that \<open>terminate_all_workers\<close> sends. Every round before the deadline asks \<open>waitpid\<close>
  which children still run.\<close>

datatype killsig = SIGTERM | SIGKILL

definition terminate_all_workers :: "int list \<Rightarrow> (int \<Rightarrow> bool) list \<Rightarrow> (int \<times> killsig) list" where
  "terminate_all_workers children rounds =
     map (\<lambda>pid. (pid, SIGTERM)) children @
     (if list_ex (\<lambda>runs. list_all (\<lambda>pid. \<not> runs pid) children) rounds then [] else map (\<lambda>pid. (pid, SIGKILL)) children)"

datatype loop_end = All_Reaped | Interrupted

text \<open>One turn of the waiting loop up to \<open>sigsuspend\<close>: the end of the loop or the state in which it
  waits.\<close>

definition loop_turn :: "int list \<Rightarrow> nat \<Rightarrow> parent \<Rightarrow> (loop_end \<times> parent) + parent" where
  "loop_turn children n p =
     (if length (reaped p) \<ge> n then Inl (All_Reaped, p)
      else if sigint_received p then Inl (Interrupted, p)
      else Inr (if sigchld_received p then process_sigchld children (p\<lparr>sigchld_received := False\<rparr>) else p))"

text \<open>The loop; each element of the list holds the signals delivered during one \<open>sigsuspend\<close>. \<open>None\<close>
  when it still waits after the last of them.\<close>

fun parent_loop :: "int list \<Rightarrow> nat \<Rightarrow> psignal list list \<Rightarrow> parent \<Rightarrow> (loop_end \<times> parent) option" where
  "parent_loop children n [] p = (case loop_turn children n p of Inl r \<Rightarrow> Some r | Inr _ \<Rightarrow> None)"
| "parent_loop children n (batch # batches) p =
     (case loop_turn children n p of
        Inl r \<Rightarrow> Some r
      | Inr p' \<Rightarrow> parent_loop children n batches (foldl handle_signal p' batch))"

text \<open>The results after the loop: the reaped children, then the others, for which \<open>waitpid\<close> waits.\<close>

definition gather_results :: "int list \<Rightarrow> (int \<times> status) list \<Rightarrow> (int \<Rightarrow> status option) \<Rightarrow> WorkerResult list" where
  "gather_results children rs wait =
     foldl (\<lambda>acc pid. if pid \<in> res_pid ` set acc then acc
                      else (case wait pid of None \<Rightarrow> acc | Some st \<Rightarrow> add_result (pid, st) acc))
       (foldl (\<lambda>acc r. if fst r \<in> set children then add_result r acc else acc) [] rs)
       children"

section \<open>Reading the result files\<close>

definition match_format :: "scan_dir list" where
  "match_format = SLits ''[Worker PID:'' @ [SInt] @ SLits ''] MATCH: '' @ [SStr 4095] @ SLits '' ('' @ [SLong] @ SLits '' bytes)''"

definition parse_match_line :: "string \<Rightarrow> MatchEntry option" where
  "parse_match_line l =
     (case sscanf match_format l of
        [VInt pid, VStr path, VInt sz] \<Rightarrow> Some \<lparr>entry_path = path, entry_size = sz, entry_pid = pid\<rparr>
      | _ \<Rightarrow> None)"

definition chomp_line :: "string \<Rightarrow> string" where
  "chomp_line l = (if l \<noteq> [] \<and> last l = newline then butlast l else l)"

definition add_line :: "MatchEntry list \<Rightarrow> string \<Rightarrow> MatchEntry list" where
  "add_line acc l =
     (case parse_match_line (chomp_line l) of
        None \<Rightarrow> acc
      | Some e \<Rightarrow> if length acc < MAX_MATCHES then acc @ [e] else acc)"

definition read_results :: "string list \<Rightarrow> MatchEntry list" where
  "read_results files = foldl (\<lambda>acc f. foldl add_line acc (fgets_lines 512 f)) [] files"

section \<open>The run\<close>

record search_result =
  used_workers :: nat
  found_entries :: "MatchEntry list"
  total_scanned :: nat
  total_matches :: int
  worker_results :: "WorkerResult list"

definition report :: "string \<Rightarrow> search_result \<Rightarrow> string list option" where
  "report root r =
     map_option (\<lambda>ls. ls @ print_summary (used_workers r) (int (total_scanned r)) (total_matches r) (worker_results r))
       (print_tree root (found_entries r))"

definition initial_parent :: parent where
  "initial_parent = \<lparr>sigusr1_count = 0, sigint_received = False, sigchld_received = False, reaped = [],
     sigchld_processed = 0, results = [], err_lines = []\<rparr>"

text \<open>The directories of the workers and the outcome of every worker, which runs to its end.\<close>

definition worker_outs :: "int list \<Rightarrow> string \<Rightarrow> int \<Rightarrow> entries \<Rightarrow> worker_out list" where
  "worker_outs pids pattern minsz subdirs =
     map (\<lambda>(pid, ds). run_worker pid pattern minsz ds True None) (zip pids (wdirs (length pids) subdirs))"

text \<open>Without subdirectories the parent searches the root itself.\<close>

definition search_root_only :: "string \<Rightarrow> int \<Rightarrow> string \<Rightarrow> entries \<Rightarrow> int \<Rightarrow> search_result option" where
  "search_root_only pattern minsz root es self =
     (case (collect_matches root es pattern minsz self [], count_total_files root es) of
        (Some ms, Some n) \<Rightarrow>
          Some \<lparr>used_workers = 0, found_entries = ms, total_scanned = n, total_matches = int (length ms),
                worker_results = [\<lparr>res_pid = self, match_count = int (length ms)\<rparr>]\<rparr>
      | _ \<Rightarrow> None)"

text \<open>A run without SIGINT. \<open>pids\<close> are the process ids of the workers, \<open>batches\<close> the workers, by
  number, that each SIGCHLD reports.\<close>

definition search_run :: "string \<Rightarrow> int \<Rightarrow> string \<Rightarrow> entries \<Rightarrow> int \<Rightarrow> int list \<Rightarrow> nat list list \<Rightarrow> search_result option" where
  "search_run pattern minsz root es self pids batches =
     (case list_subdirs root es 0 of
        None \<Rightarrow> None
      | Some [] \<Rightarrow> search_root_only pattern minsz root es self
      | Some subdirs \<Rightarrow>
          let children = take (length subdirs) pids;
              outs = worker_outs children pattern minsz subdirs;
              status = (\<lambda>w. (children ! w, Exited (exit_code (outs ! w))))
          in (case (parent_loop children (length children) (map (\<lambda>b. [SIGCHLD (map status b)]) batches) initial_parent,
                    count_total_files root es) of
                (Some (All_Reaped, p), Some n) \<Rightarrow>
                  let rs = gather_results children (reaped p) (\<lambda>_. None)
                  in Some \<lparr>used_workers = length children, found_entries = read_results (map result_text outs),
                           total_scanned = n, total_matches = sum_list (map match_count rs), worker_results = rs\<rparr>
              | _ \<Rightarrow> None))"

end
