(* ===== verification/Search_Proofs.thy ===== *)
theory Search_Proofs
  imports Search_Main
begin

text \<open>
  Proofs about the whole parallel search: the distribution of the subdirectories, the waiting loop of
  the parent, the result files, and the correctness of a run.
\<close>

section \<open>Distribution of the work\<close>

lemma mset_concat_put: "k < length ws \<Longrightarrow> mset (concat (ws[k := ws ! k @ [x]])) = add_mset x (mset (concat ws))"
proof (induction ws arbitrary: k)
  case (Cons w ws)
  then show ?case by (cases k) auto
qed simp

lemma wdirs_fold:
  assumes "0 < n"
  shows "i \<le> length ds \<Longrightarrow>
     (let ws = foldl (\<lambda>ws i. ws[i mod n := ws ! (i mod n) @ [ds ! i]]) (replicate n []) [0..<i]
      in length ws = n \<and> mset (concat ws) = mset (take i ds) \<and>
         (\<forall>w<n. ws ! w = map ((!) ds) (filter (\<lambda>j. j mod n = w) [0..<i])))"
proof (induction i)
  case 0
  show ?case by (simp add: concat_replicate_trivial)
next
  case (Suc i)
  define ws where "ws = foldl (\<lambda>ws i. ws[i mod n := ws ! (i mod n) @ [ds ! i]]) (replicate n []) [0..<i]"
  have IH: "length ws = n" "mset (concat ws) = mset (take i ds)"
    "\<forall>w<n. ws ! w = map ((!) ds) (filter (\<lambda>j. j mod n = w) [0..<i])"
    using Suc by (simp_all add: Let_def ws_def)
  have "mset (concat (ws[i mod n := ws ! (i mod n) @ [ds ! i]])) = mset (take (Suc i) ds)"
    using IH(1,2) assms Suc(2) by (simp add: mset_concat_put take_Suc_conv_app_nth)
  moreover have "\<forall>w<n. ws[i mod n := ws ! (i mod n) @ [ds ! i]] ! w = map ((!) ds) (filter (\<lambda>j. j mod n = w) [0..<Suc i])"
    using IH(1,3) assms by (auto simp: nth_list_update)
  ultimately show ?case using IH(1) by (simp add: Let_def ws_def)
qed

lemma wdirs_spec:
  assumes "0 < n"
  shows "length (wdirs n ds) = n" "mset (concat (wdirs n ds)) = mset ds"
    "w < n \<Longrightarrow> wdirs n ds ! w = map ((!) ds) (filter (\<lambda>j. j mod n = w) [0..<length ds])"
  using wdirs_fold [OF assms, of "length ds" ds] by (auto simp: wdirs_def Let_def)

section \<open>The tree in the parent\<close>

definition is_dir :: "node \<Rightarrow> bool" where
  "is_dir nd \<longleftrightarrow> (case nd of Dir _ \<Rightarrow> True | Locked \<Rightarrow> True | _ \<Rightarrow> False)"

text \<open>The entries of the root that are subdirectories.\<close>

definition dir_entries :: "entries \<Rightarrow> entries" where
  "dir_entries es = filter (\<lambda>(name, nd). \<not> is_dots name \<and> is_dir nd) es"

lemma list_subdirs_eq:
  "count_total_files root es \<noteq> None \<Longrightarrow> n + length (dir_entries es) \<le> 512 \<Longrightarrow>
     list_subdirs root es n = Some (map (\<lambda>(name, nd). (fullpath root name, nd)) (dir_entries es))"
proof (induction root es n rule: list_subdirs.induct)
  case (2 root name nd es n)
  show ?case
  proof (cases "n \<ge> 512")
    case True
    with "2.prems"(2) have "length (dir_entries ((name, nd) # es)) = 0" by linarith
    then have "dir_entries ((name, nd) # es) = []" unfolding length_0_conv .
    with True show ?thesis by simp
  next
    case False
    with 2 show ?thesis
      by (cases nd) (auto simp: dir_entries_def is_dir_def split: if_splits option.splits)
  qed
qed (simp add: dir_entries_def)

lemma hits_dirs:
  "count_total_files root es \<noteq> None \<Longrightarrow>
     concat (map (\<lambda>(d, nd). hits_in pattern minsz d nd) (map (\<lambda>(name, nd). (fullpath root name, nd)) (dir_entries es))) =
     hits pattern minsz root (dir_entries es)"
proof (induction es)
  case (Cons e es)
  obtain name nd where e: "e = (name, nd)" by (cases e)
  show ?case
  proof (cases "is_dots name")
    case True
    with Cons show ?thesis by (auto simp: dir_entries_def e)
  next
    case False
    with Cons show ?thesis by (cases nd) (auto simp: dir_entries_def is_dir_def e hits_in_def split: if_splits option.splits)
  qed
qed (simp add: dir_entries_def)

lemma wf_dir_entries: "wf_entries es \<Longrightarrow> wf_entries (dir_entries es)"
proof (induction es rule: wf_entries.induct)
  case (2 name nd es)
  then show ?case by (auto simp: dir_entries_def)
qed (simp add: dir_entries_def)

section \<open>Waiting for the workers\<close>

lemma foldl_reap: "length rs + length cs \<le> 8 \<Longrightarrow> foldl reap rs cs = rs @ cs"
  by (induction cs arbitrary: rs) (auto simp: reap_def)

lemma process_sigchld_frame [simp]:
  "reaped (process_sigchld children p) = reaped p" "sigint_received (process_sigchld children p) = sigint_received p"
  by (simp_all add: process_sigchld_def Let_def)

text \<open>The children that a signal reports.\<close>

fun reported :: "psignal \<Rightarrow> (int \<times> status) list" where
  "reported (SIGCHLD cs) = cs"
| "reported _ = []"

lemma handle_batch:
  "SIGINT \<notin> set b \<Longrightarrow> length (reaped p) + length (concat (map reported b)) \<le> 8 \<Longrightarrow>
     reaped (foldl handle_signal p b) = reaped p @ concat (map reported b) \<and>
     sigint_received (foldl handle_signal p b) = sigint_received p"
proof (induction b arbitrary: p)
  case (Cons x b)
  then show ?case by (cases x) (auto simp: foldl_reap)
qed simp

lemma parent_loop_ends:
  assumes "n \<le> 8"
  shows "\<not> sigint_received p \<Longrightarrow> SIGINT \<notin> set (concat bs) \<Longrightarrow> length (reaped p) + length (concat (map reported (concat bs))) = n \<Longrightarrow>
     \<exists>p'. parent_loop children n bs p = Some (All_Reaped, p') \<and> reaped p' = reaped p @ concat (map reported (concat bs))"
proof (induction bs arbitrary: p)
  case Nil
  then show ?case by (simp add: loop_turn_def)
next
  case (Cons b bs)
  show ?case
  proof (cases "length (reaped p) \<ge> n")
    case True
    with Cons(4) have "length (concat (map reported (concat (b # bs)))) = 0" by linarith
    then have "concat (map reported (concat (b # bs))) = []" unfolding length_0_conv .
    with True show ?thesis by (simp add: loop_turn_def del: concat_eq_Nil_conv)
  next
    case False
    let ?p = "if sigchld_received p then process_sigchld children (p\<lparr>sigchld_received := False\<rparr>) else p"
    let ?q = "foldl handle_signal ?p b"
    have p: "loop_turn children n p = Inr ?p" using False Cons(2) by (simp add: loop_turn_def)
    have "length (reaped p) + length (concat (map reported b)) \<le> 8" using Cons(4) assms by simp
    then have q: "reaped ?q = reaped p @ concat (map reported b)" "\<not> sigint_received ?q"
      using handle_batch [of b ?p] Cons(2,3) by simp_all
    then have "\<exists>p'. parent_loop children n bs ?q = Some (All_Reaped, p') \<and> reaped p' = reaped ?q @ concat (map reported (concat bs))"
      using Cons(3,4) by (intro Cons(1)) simp_all
    then show ?thesis using p q(1) by simp
  qed
qed

lemma foldl_add_result:
  "length acc + length rs \<le> 8 \<Longrightarrow> fst ` set rs \<subseteq> set children \<Longrightarrow>
     foldl (\<lambda>acc r. if fst r \<in> set children then add_result r acc else acc) acc rs =
     acc @ map (\<lambda>r. \<lparr>res_pid = fst r, match_count = status_code (snd r)\<rparr>) rs"
  by (induction rs arbitrary: acc) (auto simp: add_result_def)

lemma foldl_no_wait:
  "set ps \<subseteq> res_pid ` set acc \<Longrightarrow>
     foldl (\<lambda>acc pid. if pid \<in> res_pid ` set acc then acc
                      else (case wait pid of None \<Rightarrow> acc | Some st \<Rightarrow> add_result (pid, st) acc)) acc ps = acc"
  by (induction ps) auto

lemma gather_results_eq:
  assumes "length rs \<le> 8" and "fst ` set rs = set children"
  shows "gather_results children rs wait = map (\<lambda>r. \<lparr>res_pid = fst r, match_count = status_code (snd r)\<rparr>) rs"
proof -
  have "set children \<subseteq> res_pid ` set (map (\<lambda>r. \<lparr>res_pid = fst r, match_count = status_code (snd r)\<rparr>) rs)"
    using assms(2) by (auto simp: image_image)
  from foldl_no_wait [OF this] show ?thesis
    using foldl_add_result [of "[]" rs children] assms by (simp add: gather_results_def)
qed

section \<open>Reading the result files\<close>

text \<open>A match whose line survives the round trip: a path without white space, on a line that fits into
  the buffer.\<close>

definition line_ok :: "int \<Rightarrow> string \<times> int \<Rightarrow> bool" where
  "line_ok pid f \<longleftrightarrow> fst f \<noteq> [] \<and> list_all (\<lambda>c. \<not> isspace c) (fst f) \<and> in_long (snd f) \<and> length (match_line pid f) \<le> 511"

definition entry_of :: "int \<Rightarrow> string \<times> int \<Rightarrow> MatchEntry" where
  "entry_of pid f = \<lparr>entry_path = fst f, entry_size = snd f, entry_pid = pid\<rparr>"

lemma entry_of_simps [simp]: "entry_path (entry_of pid f) = fst f" "entry_size (entry_of pid f) = snd f" "entry_pid (entry_of pid f) = pid"
  by (simp_all add: entry_of_def)

lemma newline_space: "isspace newline"
  by (simp add: isspace_def)

lemma parse_match_line_printed:
  assumes "in_int pid" and "line_ok pid f"
  shows "parse_match_line (butlast (match_line pid f)) = Some (entry_of pid f)"
proof -
  obtain path sz where f: "f = (path, sz)" by (cases f)
  have ok: "path \<noteq> []" "\<forall>c\<in>set path. \<not> isspace c" "in_long sz" "length path \<le> 4095"
    using assms(2) by (auto simp: line_ok_def f match_line_def list_all_iff)
  have start: "dropWhile isspace (path @ r) = path @ r" for r using ok(1,2) by (cases path) auto
  have "sscanf match_format (''[Worker PID:'' @ show_int pid @ ''] MATCH: '' @ path @ '' ('' @ show_int sz @ '' bytes)'') =
      [VInt pid, VStr path, VInt sz]"
    using sscanf_show_int [OF assms(1), of "''] MATCH: '' @ path @ '' ('' @ show_int sz @ '' bytes)''"]
      sscanf_show_word [OF ok(1,2,4), of "'' ('' @ show_int sz @ '' bytes)''"] sscanf_show_long [OF ok(3), of "'' bytes)''"]
    by (simp add: match_format_def isspace_def isdigit_def start del: sscanf.simps(4-6))
  moreover have "butlast (match_line pid f) = ''[Worker PID:'' @ show_int pid @ ''] MATCH: '' @ path @ '' ('' @ show_int sz @ '' bytes)''"
    by (simp add: match_line_def f butlast_append)
  ultimately show ?thesis by (simp add: parse_match_line_def entry_of_def f)
qed

lemma match_line_full: "line_ok pid f \<Longrightarrow> full_line 512 (match_line pid f)"
proof -
  assume ok: "line_ok pid f"
  have "newline \<notin> set (show_int v)" for v using show_int_not_space [of v] newline_space by blast
  moreover have "newline \<notin> set (fst f)" using ok newline_space by (auto simp: line_ok_def list_all_iff)
  ultimately show ?thesis using ok by (simp add: full_line_def line_ok_def match_line_def butlast_append)
qed

lemma add_line_printed:
  assumes "in_int pid" and "line_ok pid f" and "length acc < MAX_MATCHES"
  shows "add_line acc (match_line pid f) = acc @ [entry_of pid f]"
proof -
  have "chomp_line (match_line pid f) = butlast (match_line pid f)" by (simp add: chomp_line_def match_line_def)
  then show ?thesis using parse_match_line_printed [OF assms(1,2)] assms(3) by (simp add: add_line_def)
qed

lemma add_lines_printed:
  "in_int pid \<Longrightarrow> list_all (line_ok pid) fs \<Longrightarrow> length acc + length fs \<le> MAX_MATCHES \<Longrightarrow>
     foldl add_line acc (map (match_line pid) fs) = acc @ map (entry_of pid) fs"
  by (induction fs arbitrary: acc) (auto simp: add_line_printed)

text \<open>The files of several workers, each with its process id.\<close>

lemma read_results_printed:
  assumes "list_all (\<lambda>(pid, fs). in_int pid \<and> list_all (line_ok pid) fs) ws"
    and "length (concat (map snd ws)) \<le> MAX_MATCHES"
  shows "read_results (map (\<lambda>(pid, fs). concat (map (match_line pid) fs)) ws) =
     concat (map (\<lambda>(pid, fs). map (entry_of pid) fs) ws)"
proof -
  have "foldl (\<lambda>acc f. foldl add_line acc (fgets_lines 512 f)) acc (map (\<lambda>(pid, fs). concat (map (match_line pid) fs)) ws) =
      acc @ concat (map (\<lambda>(pid, fs). map (entry_of pid) fs) ws)"
    if "length acc + length (concat (map snd ws)) \<le> MAX_MATCHES" for acc
    using assms(1) that
  proof (induction ws arbitrary: acc)
    case (Cons w ws)
    obtain pid fs where w: "w = (pid, fs)" by (cases w)
    have "list_all (full_line 512) (map (match_line pid) fs)"
      using Cons(2) by (auto simp: w list_all_iff match_line_full)
    then have "fgets_lines 512 (concat (map (match_line pid) fs)) = map (match_line pid) fs" by (rule fgets_lines_full)
    moreover have "foldl add_line acc (map (match_line pid) fs) = acc @ map (entry_of pid) fs"
      using Cons(2,3) by (intro add_lines_printed) (auto simp: w)
    ultimately show ?case using Cons(1) [of "acc @ map (entry_of pid) fs"] Cons(2,3) by (simp add: w)
  qed simp
  from this [of "[]"] assms(2) show ?thesis by (simp add: read_results_def)
qed

section \<open>The whole run\<close>

definition found_by :: "string \<Rightarrow> int \<Rightarrow> nat \<Rightarrow> entries \<Rightarrow> (string \<times> int) list list" where
  "found_by pattern minsz n subdirs = map (\<lambda>ds. concat (map (\<lambda>(d, nd). hits_in pattern minsz d nd) ds)) (wdirs n subdirs)"

lemma worker_outs_eq:
  "worker_outs pids pattern minsz subdirs =
     map (\<lambda>(pid, fs). \<lparr>exit_code = length fs mod 256, result_text = concat (map (match_line pid) fs),
                        worker_stdout = concat (map (match_line pid) fs), notified = True\<rparr>)
       (zip pids (found_by pattern minsz (length pids) subdirs))"
  by (simp add: worker_outs_def found_by_def zip_map2 run_worker_def search_dirs_no_signal Let_def split_def o_def)

lemma mset_concat_map: "mset (concat (map (\<lambda>ds. concat (map f ds)) W)) = mset (concat (map f (concat W)))"
  by (induction W) auto

lemma found_by_mset:
  assumes "0 < n"
  shows "length (found_by pattern minsz n subdirs) = n"
    "mset (concat (found_by pattern minsz n subdirs)) = mset (concat (map (\<lambda>(d, nd). hits_in pattern minsz d nd) subdirs))"
proof -
  show "length (found_by pattern minsz n subdirs) = n" by (simp add: found_by_def wdirs_spec(1) assms)
  let ?h = "\<lambda>(d, nd). hits_in pattern minsz d nd"
  have "mset (map ?h (concat (wdirs n subdirs))) = mset (map ?h subdirs)"
    unfolding mset_map wdirs_spec(2) [OF assms] ..
  then have "mset (concat (map ?h (concat (wdirs n subdirs)))) = mset (concat (map ?h subdirs))"
    by (metis mset_concat mset_map sum_mset_sum_list)
  then show "mset (concat (found_by pattern minsz n subdirs)) = mset (concat (map ?h subdirs))"
    by (simp add: found_by_def mset_concat_map)
qed

lemma mset_entries: "length pids = length fss \<Longrightarrow>
     map (\<lambda>e. (entry_path e, entry_size e)) (concat (map (\<lambda>(pid, fs). map (entry_of pid) fs) (zip pids fss))) = concat fss"
  by (induction pids fss rule: list_induct2) (auto simp: o_def)

lemma filter_pid_entries:
  "length pids = length fss \<Longrightarrow> distinct pids \<Longrightarrow> w < length pids \<Longrightarrow>
     length (filter (\<lambda>e. entry_pid e = pids ! w) (concat (map (\<lambda>(pid, fs). map (entry_of pid) fs) (zip pids fss)))) = length (fss ! w)"
proof (induction pids fss arbitrary: w rule: list_induct2)
  case (Cons pid pids fs fss)
  have none: "filter (\<lambda>e. entry_pid e = q) (concat (map (\<lambda>(pid, fs). map (entry_of pid) fs) (zip pids fss))) = []"
    if "q \<notin> set pids" for q
    using that by (auto simp: filter_empty_conv dest: set_zip_leftD)
  show ?case
  proof (cases w)
    case 0
    with Cons none [of pid] show ?thesis by (simp add: o_def)
  next
    case (Suc v)
    with Cons have "pids ! v \<noteq> pid" by auto
    with Cons Suc show ?thesis by (simp add: o_def)
  qed
qed simp

text \<open>What a run needs to be faithful: no path is cut, at most 512 subdirectories and at least one, no
  more than 4096 matches, and every match survives the result file.\<close>

definition search_ok :: "string \<Rightarrow> int \<Rightarrow> string \<Rightarrow> entries \<Rightarrow> int list \<Rightarrow> bool" where
  "search_ok pattern minsz root es pids \<longleftrightarrow>
     wf_entries es \<and> count_total_files root es \<noteq> None \<and> dir_entries es \<noteq> [] \<and> length (dir_entries es) \<le> 512 \<and>
     pids \<noteq> [] \<and> length pids \<le> 8 \<and> distinct pids \<and> list_all in_int pids \<and>
     length (hits pattern minsz root (dir_entries es)) \<le> MAX_MATCHES \<and>
     list_all (\<lambda>f. list_all (\<lambda>pid. line_ok pid f) pids) (hits pattern minsz root (dir_entries es))"

text \<open>The results do not depend on the order in which the workers are reaped.\<close>

lemma sum_over_order:
  "mset order = mset [0..<n] \<Longrightarrow> sum_list (map f order) = (\<Sum>w<n. f w)" for f :: "nat \<Rightarrow> int"
  by (metis atLeast_upt mset_map sum_mset_sum_list sum_set_upt_conv_sum_list_nat)

lemma search_run_workers:
  assumes "list_subdirs root es 0 = Some subdirs" and "subdirs \<noteq> []" and "take (length subdirs) pids = children"
    and "parent_loop children (length children)
           (map (\<lambda>b. [SIGCHLD (map (\<lambda>w. (children ! w, Exited (exit_code (worker_outs children pattern minsz subdirs ! w)))) b)]) batches)
           initial_parent = Some (All_Reaped, p)"
    and "count_total_files root es = Some k"
  shows "search_run pattern minsz root es self pids batches =
     Some \<lparr>used_workers = length children, found_entries = read_results (map result_text (worker_outs children pattern minsz subdirs)),
           total_scanned = k, total_matches = sum_list (map match_count (gather_results children (reaped p) (\<lambda>_. None))),
           worker_results = gather_results children (reaped p) (\<lambda>_. None)\<rparr>"
proof -
  obtain d ds where d: "subdirs = d # ds" using assms(2) by (cases subdirs) auto
  show ?thesis unfolding search_run_def assms(1) option.case d list.case Let_def
    unfolding d [symmetric] assms(3) assms(4,5) by simp
qed

lemma search_run_result:
  assumes ok: "search_ok pattern minsz root es pids"
    and order: "mset (concat batches) = mset [0..<min (length (dir_entries es)) (length pids)]"
  defines "children \<equiv> take (length (dir_entries es)) pids"
    and "subdirs \<equiv> map (\<lambda>(name, nd). (fullpath root name, nd)) (dir_entries es)"
  shows "\<exists>r. search_run pattern minsz root es self pids batches = Some r \<and>
     found_entries r = concat (map (\<lambda>(pid, fs). map (entry_of pid) fs) (zip children (found_by pattern minsz (length children) subdirs))) \<and>
     total_matches r = (\<Sum>w<length children. int (length (found_by pattern minsz (length children) subdirs ! w) mod 256)) \<and>
     used_workers r = length children"
proof -
  note o = ok [unfolded search_ok_def]
  let ?n = "length children"
  define fss where "fss = found_by pattern minsz ?n subdirs"
  define outs where "outs = worker_outs children pattern minsz subdirs"
  define st where "st = (\<lambda>w. (children ! w, Exited (exit_code (outs ! w))))"
  have n: "0 < ?n" "?n \<le> 8" "?n = min (length (dir_entries es)) (length pids)" using o by (auto simp: children_def)
  have sub: "list_subdirs root es 0 = Some subdirs" "length subdirs = length (dir_entries es)" "subdirs \<noteq> []"
    using list_subdirs_eq [of root es 0] o by (auto simp: subdirs_def)
  have fss: "length fss = ?n" "mset (concat fss) = mset (hits pattern minsz root (dir_entries es))"
    using found_by_mset [OF n(1), of pattern minsz subdirs] hits_dirs [of root es pattern minsz] o
    by (simp_all add: fss_def subdirs_def)
  have len: "length (concat batches) = ?n" using arg_cong [OF order, of size] n(3) by simp
  have mem: "set (concat batches) = {0..<?n}" using arg_cong [OF order, of set_mset] n(3) by simp
  obtain p where p: "parent_loop children ?n (map (\<lambda>b. [SIGCHLD (map st b)]) batches) initial_parent = Some (All_Reaped, p)"
    "reaped p = map st (concat batches)"
    using parent_loop_ends [OF n(2), of initial_parent "map (\<lambda>b. [SIGCHLD (map st b)]) batches" children] len
    by (auto simp: initial_parent_def map_concat o_def length_concat)
  have "fst ` set (map st (concat batches)) = (!) children ` {0..<?n}" unfolding set_map mem by (auto simp: st_def image_image)
  then have pids: "fst ` set (map st (concat batches)) = set children" by (auto simp: set_conv_nth)
  have rs: "gather_results children (reaped p) (\<lambda>_. None) = map (\<lambda>r. \<lparr>res_pid = fst r, match_count = status_code (snd r)\<rparr>) (map st (concat batches))"
    unfolding p(2) using len n(2) by (intro gather_results_eq pids) (simp add: length_concat)
  have code: "exit_code (outs ! w) = length (fss ! w) mod 256" if "w < ?n" for w
    using that fss(1) by (simp add: outs_def worker_outs_eq fss_def [symmetric])
  have "sum_list (map match_count (gather_results children (reaped p) (\<lambda>_. None))) = (\<Sum>w<?n. int (exit_code (outs ! w)))"
    using sum_over_order [OF order, of "\<lambda>w. int (exit_code (outs ! w))"] n(3) by (simp add: rs st_def o_def)
  also have "\<dots> = (\<Sum>w<?n. int (length (fss ! w) mod 256))" using code by simp
  finally have total: "sum_list (map match_count (gather_results children (reaped p) (\<lambda>_. None))) = (\<Sum>w<?n. int (length (fss ! w) mod 256))" .
  have "set (concat fss) = set (hits pattern minsz root (dir_entries es))" using fss(2) by (metis set_mset_mset)
  then have "list_all (\<lambda>f. list_all (\<lambda>pid. line_ok pid f) pids) (concat fss)" using o by (simp add: list_all_iff)
  moreover have "pid \<in> set pids" "set fs \<subseteq> set (concat fss)" if "(pid, fs) \<in> set (zip children fss)" for pid fs
    using that by (auto simp: children_def dest: in_set_takeD set_zip_leftD set_zip_rightD)
  ultimately have "in_int pid \<and> list_all (line_ok pid) fs" if "(pid, fs) \<in> set (zip children fss)" for pid fs
    using that o unfolding list_all_iff by blast
  then have "list_all (\<lambda>(pid, fs). in_int pid \<and> list_all (line_ok pid) fs) (zip children fss)" by (auto simp: list_all_iff)
  moreover have "length (concat (map snd (zip children fss))) \<le> MAX_MATCHES"
    using arg_cong [OF fss(2), of size] o fss(1) by simp
  ultimately have read: "read_results (map result_text outs) = concat (map (\<lambda>(pid, fs). map (entry_of pid) fs) (zip children fss))"
    using read_results_printed [of "zip children fss"]
    by (simp add: outs_def worker_outs_eq fss_def [symmetric] o_def split_def)
  obtain k where k: "count_total_files root es = Some k" using o by blast
  have "take (length subdirs) pids = children" by (simp add: sub(2) children_def)
  from search_run_workers [OF sub(1,3) this p(1) [unfolded st_def outs_def] k] total read
  show ?thesis unfolding fss_def outs_def by simp
qed

section \<open>Properties\<close>

text \<open>A complete run of the parallel search: whatever the number of workers and the order in which
  they are reaped, the parent leaves its waiting loop, and the entries it reads back from the result files
  are exactly the matching files below the subdirectories of the root, each once. The reported total
  adds, for every worker, its number of matches modulo 256.\<close>

theorem search_run_correct:
  assumes "search_ok pattern minsz root es pids"
    and "mset (concat batches) = mset [0..<min (length (dir_entries es)) (length pids)]"
  shows "\<exists>r. search_run pattern minsz root es self pids batches = Some r \<and>
     set (map (\<lambda>e. (entry_path e, entry_size e)) (found_entries r)) =
       {(p, sz). \<exists>name. file_below root (dir_entries es) p name sz \<and> \<not> too_small minsz sz \<and> match_pattern pattern name} \<and>
     distinct (map entry_path (found_entries r)) \<and>
     total_matches r = (\<Sum>pid\<leftarrow>take (length (dir_entries es)) pids.
       int (length (filter (\<lambda>e. entry_pid e = pid) (found_entries r)) mod 256))"
proof -
  let ?c = "take (length (dir_entries es)) pids"
  let ?sub = "map (\<lambda>(name, nd). (fullpath root name, nd)) (dir_entries es)"
  note o = assms(1) [unfolded search_ok_def]
  define fss where "fss = found_by pattern minsz (length ?c) ?sub"
  from search_run_result [OF assms, of self] obtain r where r: "search_run pattern minsz root es self pids batches = Some r"
    "found_entries r = concat (map (\<lambda>(pid, fs). map (entry_of pid) fs) (zip ?c fss))"
    "total_matches r = (\<Sum>w<length ?c. int (length (fss ! w) mod 256))"
    unfolding fss_def by blast
  have n: "0 < length ?c" using o by auto
  have fss: "length fss = length ?c" "mset (concat fss) = mset (hits pattern minsz root (dir_entries es))"
    using found_by_mset [OF n, of pattern minsz ?sub] hits_dirs [of root es pattern minsz] o by (simp_all add: fss_def)
  have pairs: "map (\<lambda>e. (entry_path e, entry_size e)) (found_entries r) = concat fss"
    unfolding r(2) by (rule mset_entries) (simp add: fss(1))
  have "set (concat fss) = set (hits pattern minsz root (dir_entries es))" using fss(2) by (metis set_mset_mset)
  then have "set (concat fss) = {(p, sz). \<exists>name. file_below root (dir_entries es) p name sz \<and> \<not> too_small minsz sz \<and> match_pattern pattern name}"
    using hits_iff [of _ _ pattern minsz root "dir_entries es"] by auto
  moreover have "map entry_path (found_entries r) = map fst (concat fss)" unfolding pairs [symmetric] by simp
  moreover have "distinct (map fst (concat fss))"
    using hits_distinct [OF wf_dir_entries, of es pattern minsz root] o fss(2) by (metis mset_eq_imp_distinct_iff mset_map)
  moreover have "(\<Sum>pid\<leftarrow>?c. int (length (filter (\<lambda>e. entry_pid e = pid) (found_entries r)) mod 256)) = total_matches r"
  proof -
    have "length (filter (\<lambda>e. entry_pid e = ?c ! w) (found_entries r)) = length (fss ! w)" if "w < length ?c" for w
      unfolding r(2) using that o by (intro filter_pid_entries) (auto simp: fss(1))
    then show ?thesis unfolding r(3) by (simp add: sum_list_sum_nth lessThan_atLeast0)
  qed
  ultimately show ?thesis using r(1) by (intro exI [of _ r]) (simp only: pairs)
qed

text \<open>Three subdirectories, two workers.\<close>

definition sample_root :: entries where
  "sample_root =
     [(''top.log'', Reg 90), (''a'', Dir [(''x.log'', Reg 10), (''y.txt'', Reg 30)]), (''b'', Locked),
      (''c'', Dir [(''z'', Dir [(''x'', Reg 44)])])]"

theorem search_run_correct_witness:
  "\<exists>r. search_run ''x'' 5 ''r'' sample_root 1 [7, 8] [[1], [0]] = Some r \<and>
     distinct (map entry_path (found_entries r)) \<and>
     total_matches r = (\<Sum>pid\<leftarrow>[7, 8]. int (length (filter (\<lambda>e. entry_pid e = pid) (found_entries r)) mod 256))"
proof -
  have "search_ok ''x'' 5 ''r'' sample_root [7, 8]" by code_simp
  moreover have "mset (concat [[1], [0]]) = mset [0..<min (length (dir_entries sample_root)) (length [7::int, 8])]" by code_simp
  moreover have c: "take (length (dir_entries sample_root)) [7::int, 8] = [7, 8]" by code_simp
  ultimately show ?thesis using search_run_correct [of "''x''" 5 "''r''" sample_root "[7, 8]" "[[1], [0]]" 1] unfolding c by blast
qed

text \<open>A worker with 256 matches.\<close>

definition sixteen :: string where
  "sixteen = ''0123456789abcdef''"

definition crowded_root :: entries where
  "crowded_root = [(''d'', Dir (map (\<lambda>c. ([c], Dir (map (\<lambda>f. (''x.'' @ [f], Reg 1)) sixteen))) sixteen))]"

lemma crowded_match: "match_pattern ''x'' (''x.'' @ [f])"
  by (simp add: match_pattern_def stem_of_def)

lemma crowded_files:
  "length path < 4000 \<Longrightarrow>
     hits ''x'' 0 path (map (\<lambda>f. (''x.'' @ [f], Reg 1)) fs) = map (\<lambda>f. (path @ ''/x.'' @ [f], 1)) fs"
  using crowded_match by (induction fs) (auto simp: is_dots_def fullpath_def too_small_def)

lemma crowded_dirs:
  "length path < 3000 \<Longrightarrow> CHR ''.'' \<notin> set cs \<Longrightarrow>
     hits ''x'' 0 path (map (\<lambda>c. ([c], Dir (map (\<lambda>f. (''x.'' @ [f], Reg 1)) fs))) cs) =
     concat (map (\<lambda>c. map (\<lambda>f. (path @ ''/'' @ [c] @ ''/x.'' @ [f], 1)) fs) cs)"
  using crowded_files [of "path @ ''/'' @ [c]" fs for c]
  by (induction cs) (auto simp: is_dots_def fullpath_def)

lemma crowded_count_files:
  "length path < 4000 \<Longrightarrow> count_total_files path (map (\<lambda>f. (''x.'' @ [f], Reg 1)) fs) = Some (length fs)"
  by (induction fs) (auto simp: is_dots_def fullpath_def)

lemma crowded_count_dirs:
  "length path < 3000 \<Longrightarrow> CHR ''.'' \<notin> set cs \<Longrightarrow>
     count_total_files path (map (\<lambda>c. ([c], Dir (map (\<lambda>f. (''x.'' @ [f], Reg 1)) fs))) cs) = Some (length cs * length fs)"
  using crowded_count_files [of "path @ ''/'' @ [c]" fs for c]
  by (induction cs) (auto simp: is_dots_def fullpath_def)

lemma crowded_hits:
  "hits ''x'' 0 ''r'' crowded_root = concat (map (\<lambda>c. map (\<lambda>f. (''r/d/'' @ [c] @ ''/x.'' @ [f], 1)) sixteen) sixteen)"
proof -
  have "CHR ''.'' \<notin> set sixteen" by (simp add: sixteen_def)
  from crowded_dirs [OF _ this, of "''r/d''" sixteen] show ?thesis
    by (simp add: crowded_root_def is_dots_def fullpath_def)
qed

lemma sixteen_visible: "list_all (\<lambda>c. \<not> isspace c) sixteen"
  by code_simp

lemma crowded_line_ok:
  assumes "\<not> isspace c" and "\<not> isspace f"
  shows "line_ok 7 (''r/d/'' @ [c] @ ''/x.'' @ [f], 1)" "line_ok 8 (''r/d/'' @ [c] @ ''/x.'' @ [f], 1)"
proof -
  have "length (show_int 7) = 1" "length (show_int 8) = 1" "length (show_int 1) = 1" by code_simp+
  moreover have "\<not> isspace (CHR ''r'') \<and> \<not> isspace (CHR ''/'') \<and> \<not> isspace (CHR ''d'') \<and> \<not> isspace (CHR ''x'') \<and> \<not> isspace (CHR ''.'')"
    by (simp add: isspace_def)
  ultimately show "line_ok 7 (''r/d/'' @ [c] @ ''/x.'' @ [f], 1)" "line_ok 8 (''r/d/'' @ [c] @ ''/x.'' @ [f], 1)"
    using assms by (simp_all add: line_ok_def match_line_def c_int_simps)
qed

text \<open>(C38) The exit code carries the number of matches modulo 256: a worker with 256 matches is reported
  with none, although the tree that is printed shows all of them.\<close>

theorem match_total_wraps:
  "\<exists>r. search_run ''x'' 0 ''r'' crowded_root 1 [7, 8] [[0]] = Some r \<and>
     length (found_entries r) = 256 \<and> total_matches r = 0"
proof -
  have "wf_entries crowded_root" by code_simp
  moreover have count: "count_total_files ''r'' crowded_root \<noteq> None"
    using crowded_count_dirs [of "''r/d''" sixteen sixteen] by (simp add: crowded_root_def is_dots_def fullpath_def sixteen_def)
  moreover have "dir_entries crowded_root = crowded_root" by (simp add: crowded_root_def dir_entries_def is_dots_def is_dir_def)
  moreover have "length (hits ''x'' 0 ''r'' crowded_root) = 256" by (simp add: crowded_hits length_concat o_def sixteen_def)
  moreover have "list_all (\<lambda>f. list_all (\<lambda>pid. line_ok pid f) [7, 8]) (hits ''x'' 0 ''r'' crowded_root)"
    unfolding crowded_hits using sixteen_visible crowded_line_ok by (auto simp: list_all_iff)
  moreover have "length crowded_root = 1" by (simp add: crowded_root_def)
  ultimately
  have ok: "search_ok ''x'' 0 ''r'' crowded_root [7, 8]" by (auto simp: search_ok_def MAX_MATCHES_def c_int_simps)
  have one: "length (dir_entries crowded_root) = 1" by (simp add: crowded_root_def dir_entries_def is_dots_def is_dir_def)
  let ?sub = "map (\<lambda>(name, nd). (fullpath ''r'' name, nd)) (dir_entries crowded_root)"
  obtain d where d: "?sub = [d]" using one by (cases "dir_entries crowded_root") auto
  have "found_by ''x'' 0 1 ?sub = [concat (map (\<lambda>(d, nd). hits_in ''x'' 0 d nd) ?sub)]"
    unfolding d by (simp add: found_by_def wdirs_def)
  also have "\<dots> = [hits ''x'' 0 ''r'' crowded_root]"
    using hits_dirs [OF count, of "''x''" 0] \<open>dir_entries crowded_root = crowded_root\<close> by simp
  finally have len: "map length (found_by ''x'' 0 1 ?sub) = [256]"
    using \<open>length (hits ''x'' 0 ''r'' crowded_root) = 256\<close> by simp
  from search_run_result [OF ok, of "[[0]]" 1] len show ?thesis
    by (auto simp: one length_concat o_def)
qed

end
