(* ===== verification/Search_Start.thy ===== *)
theory Search_Start
  imports Search_Proofs
begin

text \<open>
  The whole of \<open>main\<close> of the parallel search (\<open>HW2/main.c\<close>): the checks, the result files and their removal at
  exit, the creation of the workers, the waiting loop with SIGINT, and the report. \<open>mkstemp\<close>, \<open>fork\<close> and the lookup
  of the root are arguments; the result files that exist are a list of names.
\<close>

section \<open>Result files\<close>

text \<open>The globals of the result files; \<open>at_exit\<close> is whether \<open>cleanup_tmpfiles\<close> has been registered.\<close>

record tmp_globals =
  g_tmpfiles :: "string list"
  g_is_parent :: bool
  at_exit :: bool

definition cleanup_tmpfiles :: "tmp_globals \<Rightarrow> string list \<Rightarrow> string list" where
  "cleanup_tmpfiles g tmp = (if \<not> g_is_parent g then tmp else filter (\<lambda>f. f \<notin> set (g_tmpfiles g)) tmp)"

text \<open>A process that returns from \<open>main\<close> or calls \<open>exit\<close>.\<close>

definition exit_process :: "tmp_globals \<Rightarrow> string list \<Rightarrow> string list" where
  "exit_process g tmp = (if at_exit g then cleanup_tmpfiles g tmp else tmp)"

definition tmp_template :: "int \<Rightarrow> string" where
  "tmp_template self = ''/tmp/procsearch_'' @ show_int self @ ''_XXXXXX''"

text \<open>The loop over \<open>mkstemp\<close>: whether it succeeded, the globals and the existing files.\<close>

fun make_tmpfiles ::
  "(string \<Rightarrow> string list \<Rightarrow> string option) \<Rightarrow> string \<Rightarrow> nat \<Rightarrow> tmp_globals \<Rightarrow> string list \<Rightarrow> bool \<times> tmp_globals \<times> string list" where
  "make_tmpfiles mkstemp template 0 g tmp = (True, g, tmp)"
| "make_tmpfiles mkstemp template (Suc n) g tmp =
     (case mkstemp template tmp of
        None \<Rightarrow> (False, g, tmp)
      | Some f \<Rightarrow> make_tmpfiles mkstemp template n (g\<lparr>g_tmpfiles := g_tmpfiles g @ [f]\<rparr>) (tmp @ [f]))"

section \<open>Workers\<close>

text \<open>The loop over \<open>fork\<close>: whether it succeeded and the process ids.\<close>

fun fork_workers :: "(nat \<Rightarrow> int) \<Rightarrow> nat \<Rightarrow> int list \<Rightarrow> bool \<times> int list" where
  "fork_workers forks 0 pids = (True, pids)"
| "fork_workers forks (Suc n) pids =
     (if forks (length pids) < 0 then (False, pids) else fork_workers forks n (pids @ [forks (length pids)]))"

definition workers_notice :: "nat \<Rightarrow> int \<Rightarrow> string list" where
  "workers_notice num_subdirs asked =
     (if int num_subdirs < asked
      then [''Notice: only '' @ show_nat num_subdirs @ '' subdirector'' @ (if num_subdirs = 1 then ''y'' else ''ies'') @
            '' found; using '' @ show_nat num_subdirs @ '' worker'' @ (if num_subdirs = 1 then [] else ''s'') @
            '' instead of '' @ show_int asked @ ''.'']
      else [])"

section \<open>The program\<close>

text \<open>What can happen while the parent waits: workers, by number, end and are reaped, a worker reports with SIGUSR1
  that it has searched its directories, or the user interrupts. Several signals can come during one \<open>sigsuspend\<close>.\<close>

datatype search_event = Ended "nat list" | Reported | Ctrl_C

fun event_signal :: "(nat \<Rightarrow> int \<times> status) \<Rightarrow> search_event \<Rightarrow> psignal" where
  "event_signal outcome (Ended ws) = SIGCHLD (map outcome ws)"
| "event_signal outcome Reported = SIGUSR1"
| "event_signal outcome Ctrl_C = SIGINT"

fun ended :: "search_event \<Rightarrow> nat list" where
  "ended (Ended ws) = ws"
| "ended _ = []"

datatype search_exit = Search_Failed string | Search_Interrupted "(int \<times> killsig) list" | Search_Done "string list" search_result

text \<open>\<open>Search_Done\<close> has the notices that are printed before the search.

  From the start of the workers to the exit; \<open>n\<close> is the number of workers. Every worker has a copy of the
  globals from before \<open>g_is_parent\<close> is set, and exits with it. A result file that is gone is skipped.\<close>

definition run_workers ::
  "string list \<Rightarrow> (nat \<Rightarrow> int) \<Rightarrow> string \<Rightarrow> int \<Rightarrow> string \<Rightarrow> entries \<Rightarrow> entries \<Rightarrow> nat \<Rightarrow> search_event list list \<Rightarrow> (int \<Rightarrow> bool) list \<Rightarrow>
   tmp_globals \<Rightarrow> string list \<Rightarrow> (search_exit \<times> string list) option" where
  "run_workers notices forks pattern minsz root es subdirs n events rounds g tmp =
     (case fork_workers forks n [] of
        (False, pids) \<Rightarrow> Some (Search_Failed ''fork'', exit_process g tmp)
      | (True, pids) \<Rightarrow>
          let tmp' = foldl (\<lambda>t _. exit_process g t) tmp pids;
              g' = g\<lparr>g_is_parent := True\<rparr>;
              outs = worker_outs pids pattern minsz subdirs;
              outcome = (\<lambda>w. (pids ! w, Exited (exit_code (outs ! w))))
          in (case parent_loop pids n (map (map (event_signal outcome)) events) initial_parent of
                None \<Rightarrow> None
              | Some (Interrupted, p) \<Rightarrow> Some (Search_Interrupted (terminate_all_workers pids rounds), exit_process g' tmp')
              | Some (All_Reaped, p) \<Rightarrow>
                  (let rs = gather_results pids (reaped p) (\<lambda>_. None);
                       texts = map (\<lambda>(f, out). if f \<in> set tmp' then result_text out else []) (zip (g_tmpfiles g) outs)
                   in map_option (\<lambda>k. (Search_Done notices \<lparr>used_workers = n, found_entries = read_results texts, total_scanned = k,
                                         total_matches = sum_list (map match_count rs), worker_results = rs\<rparr>, exit_process g' tmp'))
                        (count_total_files root es))))"

text \<open>\<open>main\<close>: how it ends and the result files that exist afterwards. \<open>None\<close> while it waits, or when a path is cut.\<close>

definition search_main ::
  "(string \<Rightarrow> string list \<Rightarrow> string option) \<Rightarrow> (nat \<Rightarrow> int) \<Rightarrow> (string \<Rightarrow> node option) \<Rightarrow> int \<Rightarrow> (char \<times> string) list \<Rightarrow>
   search_event list list \<Rightarrow> (int \<Rightarrow> bool) list \<Rightarrow> string list \<Rightarrow> (search_exit \<times> string list) option" where
  "search_main mkstemp forks lookup self opts events rounds tmp =
     (case parse_search_args opts of
        Inl _ \<Rightarrow> Some (Search_Failed ''usage'', tmp)
      | Inr a \<Rightarrow>
          let root = the (root_dir a); pattern = the (search_pattern a) in
          (case lookup root of
             Some (Dir es) \<Rightarrow>
               (case list_subdirs root es 0 of
                  None \<Rightarrow> None
                | Some subdirs \<Rightarrow>
                    if subdirs = [] then map_option (\<lambda>r. (Search_Done [''Notice: no subdirectories found; parent will search root directly.''] r, tmp)) (search_root_only pattern (min_size a) root es self)
                    else let n = min (nat (num_workers a)) (length subdirs) in
                      (case make_tmpfiles mkstemp (tmp_template self) n \<lparr>g_tmpfiles = [], g_is_parent = False, at_exit = False\<rparr> tmp of
                         (False, g, tmp1) \<Rightarrow> Some (Search_Failed ''mkstemp'', exit_process g tmp1)
                       | (True, g, tmp1) \<Rightarrow>
                           run_workers (workers_notice (length subdirs) (num_workers a)) forks pattern (min_size a) root es subdirs n events rounds (g\<lparr>at_exit := True\<rparr>) tmp1))
           | Some Locked \<Rightarrow> Some (Search_Failed ''opendir'', tmp)
           | _ \<Rightarrow> Some (Search_Failed ''not a directory'', tmp)))"

section \<open>Facts\<close>

lemma make_tmpfiles_ok:
  assumes "\<And>t F. \<exists>f. mkstemp t F = Some f \<and> f \<notin> set F"
  shows "\<exists>fs. make_tmpfiles mkstemp t n g tmp = (True, g\<lparr>g_tmpfiles := g_tmpfiles g @ fs\<rparr>, tmp @ fs) \<and> length fs = n \<and> set fs \<inter> set tmp = {}"
proof (induction n arbitrary: g tmp)
  case (Suc n)
  obtain f where f: "mkstemp t tmp = Some f" "f \<notin> set tmp" using assms by blast
  obtain fs where "make_tmpfiles mkstemp t n (g\<lparr>g_tmpfiles := g_tmpfiles g @ [f]\<rparr>) (tmp @ [f]) =
      (True, g\<lparr>g_tmpfiles := g_tmpfiles g @ f # fs\<rparr>, tmp @ f # fs)" "length fs = n" "set fs \<inter> set (tmp @ [f]) = {}"
    using Suc.IH [of "g\<lparr>g_tmpfiles := g_tmpfiles g @ [f]\<rparr>" "tmp @ [f]"] by auto
  with f show ?case by (intro exI [of _ "f # fs"]) auto
qed auto

lemma fork_workers_ok:
  "(\<And>k. k < length pids + n \<Longrightarrow> 0 \<le> forks k) \<Longrightarrow> fork_workers forks n pids = (True, pids @ map forks [length pids..<length pids + n])"
proof (induction n arbitrary: pids)
  case (Suc n)
  have "fork_workers forks n (pids @ [forks (length pids)]) =
      (True, pids @ forks (length pids) # map forks [Suc (length pids)..<Suc (length pids + n)])"
    using Suc.IH [of "pids @ [forks (length pids)]"] Suc.prems by (simp del: upt_Suc)
  moreover have "\<not> forks (length pids) < 0" using Suc.prems [of "length pids"] by simp
  moreover have "[length pids..<length pids + Suc n] = length pids # [Suc (length pids)..<Suc (length pids + n)]"
    by (subst upt_conv_Cons) simp_all
  ultimately show ?case by (simp del: upt_Suc)
qed simp

text \<open>A worker that exits leaves the result files alone.\<close>

lemma worker_exit_keeps: "\<not> g_is_parent g \<Longrightarrow> foldl (\<lambda>t _. exit_process g t) tmp pids = tmp"
proof -
  assume "\<not> g_is_parent g"
  then have "exit_process g t = t" for t by (simp add: exit_process_def cleanup_tmpfiles_def)
  then show ?thesis by (induction pids) simp_all
qed

lemma parent_exit_cleans:
  "at_exit g \<Longrightarrow> g_is_parent g \<Longrightarrow> set (g_tmpfiles g) \<inter> set tmp = {} \<Longrightarrow> exit_process g (tmp @ g_tmpfiles g) = tmp"
  by (auto simp: exit_process_def cleanup_tmpfiles_def filter_id_conv filter_empty_conv)

text \<open>A start that fails leaves the result files made so far: \<open>mkstemp\<close> fails before the removal is registered, \<open>fork\<close>
  before the process counts as the parent.\<close>

lemma failed_mkstemp_leaves_files:
  "make_tmpfiles mkstemp t n \<lparr>g_tmpfiles = [], g_is_parent = False, at_exit = False\<rparr> tmp = (False, g, tmp1) \<Longrightarrow> exit_process g tmp1 = tmp1"
proof -
  have "at_exit g' = at_exit g0" if "make_tmpfiles mkstemp t n g0 tmp = (b, g', tmp')" for b g0 g' tmp'
    using that by (induction n arbitrary: g0 tmp) (auto split: option.splits)
  then show "make_tmpfiles mkstemp t n \<lparr>g_tmpfiles = [], g_is_parent = False, at_exit = False\<rparr> tmp = (False, g, tmp1) \<Longrightarrow> exit_process g tmp1 = tmp1"
    by (fastforce simp: exit_process_def)
qed

lemma failed_fork_leaves_files:
  "fork_workers forks n [] = (False, pids) \<Longrightarrow> \<not> g_is_parent g \<Longrightarrow>
     run_workers notices forks pattern minsz root es subdirs n events rounds g tmp = Some (Search_Failed ''fork'', tmp)"
  by (simp add: run_workers_def exit_process_def cleanup_tmpfiles_def)

lemma parse_search_workers: "parse_search_args opts = Inr a \<Longrightarrow> 2 \<le> num_workers a"
  by (auto simp: parse_search_args_def split: option.splits if_splits)

text \<open>Without SIGINT, the other signals do not matter for the waiting loop.\<close>

lemma parent_loop_events:
  assumes "n \<le> 8" and "Ctrl_C \<notin> set (concat events)" and "length (concat (map ended (concat events))) = n"
    and "parent_loop pids n (map (\<lambda>b. [SIGCHLD (map outcome b)]) (map ended (concat events))) initial_parent = Some (All_Reaped, p)"
  shows "\<exists>p'. parent_loop pids n (map (map (event_signal outcome)) events) initial_parent = Some (All_Reaped, p') \<and> reaped p' = reaped p"
proof -
  have rep: "reported (event_signal outcome e) = map outcome (ended e)" for e by (cases e) simp_all
  have "event_signal outcome e = SIGINT \<Longrightarrow> e = Ctrl_C" for e by (cases e) simp_all
  then have "SIGINT \<notin> event_signal outcome ` set (concat events)" using assms(2) by (metis imageE)
  then have no: "SIGINT \<notin> set (concat (map (map (event_signal outcome)) events))" by (simp add: map_concat [symmetric] image_UN)
  have a: "concat (map reported (concat (map (map (event_signal outcome)) events))) = map outcome (concat (map ended (concat events)))"
    by (induction events) (simp_all add: o_def rep map_concat)
  have b: "concat (map reported (concat (map (\<lambda>b. [SIGCHLD (map outcome b)]) (map ended (concat events))))) = map outcome (concat (map ended (concat events)))"
    unfolding concat_map_singleton by (simp only: map_map o_def reported.simps map_concat)
  obtain p' where "parent_loop pids n (map (map (event_signal outcome)) events) initial_parent = Some (All_Reaped, p')"
    "reaped p' = map outcome (concat (map ended (concat events)))"
    using parent_loop_ends [OF assms(1), of initial_parent "map (map (event_signal outcome)) events" pids] no assms(3)
    unfolding a by (auto simp: initial_parent_def)
  moreover have "reaped p = map outcome (concat (map ended (concat events)))"
    using parent_loop_ends [OF assms(1), of initial_parent "map (\<lambda>b. [SIGCHLD (map outcome b)]) (map ended (concat events))" pids] assms(3,4)
    unfolding b by (auto simp: initial_parent_def)
  ultimately show ?thesis by simp
qed

text \<open>A run without SIGINT is a run of \<open>search_run\<close>, and it leaves the result files as they were before.\<close>

lemma search_main_run:
  assumes a: "parse_search_args opts = Inr a" "lookup (the (root_dir a)) = Some (Dir es)"
    and sub: "list_subdirs (the (root_dir a)) es 0 = Some subdirs" "subdirs \<noteq> []"
    and mk: "\<And>t F. \<exists>f. mkstemp t F = Some f \<and> f \<notin> set F" and fk: "\<And>k. 0 \<le> forks k"
    and n: "n = min (nat (num_workers a)) (length subdirs)"
    and run: "search_run (the (search_pattern a)) (min_size a) (the (root_dir a)) es self (map forks [0..<n]) (map ended (concat events)) = Some r"
    and ev: "n \<le> 8" "Ctrl_C \<notin> set (concat events)" "length (concat (map ended (concat events))) = n"
  shows "search_main mkstemp forks lookup self opts events rounds tmp =
     Some (Search_Done (workers_notice (length subdirs) (num_workers a)) r, tmp)"
proof -
  let ?pids = "map forks [0..<n]"
  let ?outs = "worker_outs ?pids (the (search_pattern a)) (min_size a) subdirs"
  let ?outcome = "\<lambda>w. (?pids ! w, Exited (exit_code (?outs ! w)))"
  let ?g = "\<lambda>fs. \<lparr>g_tmpfiles = fs, g_is_parent = False, at_exit = True\<rparr>"
  obtain fs where fs: "make_tmpfiles mkstemp (tmp_template self) n \<lparr>g_tmpfiles = [], g_is_parent = False, at_exit = False\<rparr> tmp =
      (True, \<lparr>g_tmpfiles = fs, g_is_parent = False, at_exit = False\<rparr>, tmp @ fs)" "length fs = n" "set fs \<inter> set tmp = {}"
    using make_tmpfiles_ok [of mkstemp "tmp_template self" n "\<lparr>g_tmpfiles = [], g_is_parent = False, at_exit = False\<rparr>" tmp, OF mk] by auto
  have f: "fork_workers forks n [] = (True, ?pids)" using fork_workers_ok [of "[]" n forks] fk by simp
  have t: "take (length subdirs) ?pids = ?pids" using n by simp
  have npos: "0 < n" using parse_search_workers [OF a(1)] sub(2) n by simp
  obtain d ds where d: "subdirs = d # ds" using sub(2) by (cases subdirs) auto
  have "length ?outs = n" unfolding worker_outs_def by (simp add: wdirs_spec(1) npos)
  then have texts: "map (\<lambda>(f, out). if f \<in> set (tmp @ fs) then result_text out else []) (zip fs ?outs) = map result_text ?outs"
    using fs(2) by (auto simp: list_eq_iff_nth_eq)
  from run obtain q k where loop': "parent_loop ?pids n (map (\<lambda>b. [SIGCHLD (map ?outcome b)]) (map ended (concat events))) initial_parent = Some (All_Reaped, q)"
    and k: "count_total_files (the (root_dir a)) es = Some k"
    and r: "r = \<lparr>used_workers = n, found_entries = read_results (map result_text ?outs), total_scanned = k,
       total_matches = sum_list (map match_count (gather_results ?pids (reaped q) (\<lambda>_. None))),
       worker_results = gather_results ?pids (reaped q) (\<lambda>_. None)\<rparr>"
    unfolding search_run_def sub(1) option.case d list.case Let_def unfolding d [symmetric] t
    by (auto split: option.splits loop_end.splits prod.splits)
  obtain p where loop: "parent_loop ?pids n (map (map (event_signal ?outcome)) events) initial_parent = Some (All_Reaped, p)"
    and q: "reaped q = reaped p"
    using parent_loop_events [OF ev loop'] by auto
  have ex: "exit_process (?g fs\<lparr>g_is_parent := True\<rparr>) (tmp @ fs) = tmp"
    using parent_exit_cleans [of "?g fs\<lparr>g_is_parent := True\<rparr>" tmp] fs(3) by simp
  have keep: "foldl (\<lambda>t _. exit_process (?g fs) t) (tmp @ fs) ?pids = tmp @ fs" by (rule worker_exit_keeps) simp
  have "run_workers (workers_notice (length subdirs) (num_workers a)) forks (the (search_pattern a)) (min_size a) (the (root_dir a)) es
      subdirs n events rounds (?g fs) (tmp @ fs) = Some (Search_Done (workers_notice (length subdirs) (num_workers a)) r, tmp)"
    unfolding run_workers_def f prod.case bool.case Let_def keep loop option.case loop_end.case tmp_globals.simps(1) texts k ex r q option.map ..
  then show ?thesis
    using a sub fs(1) n by (simp add: search_main_def Let_def)
qed

section \<open>Property\<close>

text \<open>(C35) The whole parallel search, from the command line to the exit: with options that are accepted and a root that
  can be read, and whatever the number of workers, the order in which they are reaped and the SIGUSR1 that come in
  between, but without SIGINT, the parent reads back exactly
  the matching files below the subdirectories of the root, each once; the reported total adds, for every worker, its
  number of matches modulo 256; no worker removes a result file, and the parent has removed all of them at exit. This holds
  within the limits of the program, \<open>search_ok\<close>: no path is cut, the root has from 1 to 512 subdirectories, there are at
  most 4096 matches, and the line of every match has at most 511 bytes and no blank in its path.\<close>

theorem search_main_correct:
  assumes "parse_search_args opts = Inr a" and "lookup (the (root_dir a)) = Some (Dir es)"
    and "\<forall>t F. \<exists>f. mkstemp t F = Some f \<and> f \<notin> set F" and "\<forall>k. 0 \<le> forks k"
    and "pids = map forks [0..<min (nat (num_workers a)) (length (dir_entries es))]"
    and "search_ok (the (search_pattern a)) (min_size a) (the (root_dir a)) es pids"
    and "Ctrl_C \<notin> set (concat events)" and "mset (concat (map ended (concat events))) = mset [0..<length pids]"
  shows "\<exists>notices r. search_main mkstemp forks lookup self opts events rounds tmp = Some (Search_Done notices r, tmp) \<and>
     set (map (\<lambda>e. (entry_path e, entry_size e)) (found_entries r)) =
       {(p, sz). \<exists>name. file_below (the (root_dir a)) (dir_entries es) p name sz \<and> \<not> too_small (min_size a) sz \<and>
                        match_pattern (the (search_pattern a)) name} \<and>
     distinct (map entry_path (found_entries r)) \<and>
     total_matches r = (\<Sum>pid\<leftarrow>pids. int (length (filter (\<lambda>e. entry_pid e = pid) (found_entries r)) mod 256))"
proof -
  let ?n = "min (nat (num_workers a)) (length (dir_entries es))"
  have len: "length pids = ?n" "min (length (dir_entries es)) (length pids) = length pids" "take (length (dir_entries es)) pids = pids"
    using assms(5) by simp_all
  let ?batches = "map ended (concat events)"
  have order: "mset (concat ?batches) = mset [0..<min (length (dir_entries es)) (length pids)]" using assms(8) len(2) by argo
  from search_run_correct [OF assms(6) order, of self] obtain r where
    r: "search_run (the (search_pattern a)) (min_size a) (the (root_dir a)) es self pids ?batches = Some r"
    and rest: "set (map (\<lambda>e. (entry_path e, entry_size e)) (found_entries r)) =
       {(p, sz). \<exists>name. file_below (the (root_dir a)) (dir_entries es) p name sz \<and> \<not> too_small (min_size a) sz \<and>
                        match_pattern (the (search_pattern a)) name}"
      "distinct (map entry_path (found_entries r))"
      "total_matches r = (\<Sum>pid\<leftarrow>pids. int (length (filter (\<lambda>e. entry_pid e = pid) (found_entries r)) mod 256))"
    unfolding len(3) by blast
  let ?subdirs = "map (\<lambda>(name, nd). (fullpath (the (root_dir a)) name, nd)) (dir_entries es)"
  have sub: "list_subdirs (the (root_dir a)) es 0 = Some ?subdirs" "?subdirs \<noteq> []"
    using list_subdirs_eq [of "the (root_dir a)" es 0] assms(6) by (simp_all add: search_ok_def)
  have lim: "?n \<le> 8" "length (concat ?batches) = ?n"
    using assms(6) len(1) arg_cong [OF assms(8), of size] by (simp_all add: search_ok_def)
  have "\<exists>notices. search_main mkstemp forks lookup self opts events rounds tmp = Some (Search_Done notices r, tmp)"
    using search_main_run [where lookup = lookup and n = ?n, OF assms(1,2) sub] assms(3,4) r [unfolded assms(5)] lim assms(7) by auto
  with rest show ?thesis by blast
qed

definition next_name :: "string \<Rightarrow> string list \<Rightarrow> string option" where
  "next_name t F = Some (replicate (Suc (sum_list (map length F))) (CHR ''t''))"

definition sample_search :: "(char \<times> string) list" where
  "sample_search = [(CHR ''d'', ''r''), (CHR ''n'', ''2''), (CHR ''f'', ''x''), (CHR ''s'', ''5'')]"

theorem search_main_correct_witness:
  "\<exists>notices r. search_main next_name (\<lambda>k. 7 + int k) (\<lambda>p. if p = ''r'' then Some (Dir sample_root) else None) 1
       sample_search [[Reported], [Reported, Ended [1]], [Ended [0]]] [] [''other''] = Some (Search_Done notices r, [''other'']) \<and>
     distinct (map entry_path (found_entries r))"
proof -
  let ?a = "\<lparr>root_dir = Some ''r'', num_workers = 2, search_pattern = Some ''x'', min_size = 5\<rparr>"
  have a: "parse_search_args sample_search = Inr ?a" by code_simp
  have fresh: "\<forall>t F. \<exists>f. next_name t F = Some f \<and> f \<notin> set F"
  proof (intro allI exI conjI)
    fix t F
    show "next_name t F = Some (the (next_name t F))" by (simp add: next_name_def)
    have "length f \<le> sum_list (map length F)" if "f \<in> set F" for f using member_le_sum_list [of "length f" "map length F"] that by simp
    then show "the (next_name t F) \<notin> set F" by (fastforce simp: next_name_def)
  qed
  have p: "[7, 8] = map (\<lambda>k. 7 + int k) [0..<min (nat (num_workers ?a)) (length (dir_entries sample_root))]" by code_simp
  have ok: "search_ok (the (search_pattern ?a)) (min_size ?a) (the (root_dir ?a)) sample_root [7, 8]" by code_simp
  let ?ev = "[[Reported], [Reported, Ended [1]], [Ended [0]]]"
  have b: "Ctrl_C \<notin> set (concat ?ev)" "mset (concat (map ended (concat ?ev))) = mset [0..<length [7::int, 8]]" by code_simp+
  have l: "(\<lambda>p. if p = ''r'' then Some (Dir sample_root) else None) (the (root_dir ?a)) = Some (Dir sample_root)" by simp
  from search_main_correct [where lookup = "\<lambda>p. if p = ''r'' then Some (Dir sample_root) else None", OF a l fresh _ p ok b, of 1 "[]" "[''other'']"]
  show ?thesis by auto
qed

end
