(* ===== verification/My_Find.thy ===== *)
theory My_Find
  imports Search_Pattern "HOL-Library.Word"
begin

unbundle bit_operations_syntax

text \<open>
  The file finder \<open>myFind\<close> (\<open>HW1/HW1.c\<close>): its criteria, the test of a file against them and the
  recursive search. The tree is a term; a node holds what \<open>lstat\<close> returns for it and the entries that
  \<open>opendir\<close> and \<open>readdir\<close> give for it. SIGINT ends the process at once and is left out.
\<close>

section \<open>Criteria\<close>

record stat =
  st_mode :: "32 word"
  st_size :: int
  st_nlink :: "64 word"

record criteria =
  c_path :: "string option"
  c_filename :: "string option"
  c_size :: int
  c_type :: char
  c_permissions :: "string option"
  c_nlinks :: int

abbreviation nul :: char where "nul \<equiv> CHR 0x00"

definition init_criteria :: criteria where
  "init_criteria = \<lparr>c_path = None, c_filename = None, c_size = - 1, c_type = nul, c_permissions = None, c_nlinks = - 1\<rparr>"

text \<open>A line on the standard output or on the error output.\<close>

datatype find_line = Out string | Err string

text \<open>The options that \<open>getopt\<close> returns, each with its argument; an unknown option comes as \<open>?\<close> and is only
  reported. The criteria are \<open>None\<close> when the program exits.\<close>

fun parse_criteria :: "(char \<times> string) list \<Rightarrow> criteria \<Rightarrow> find_line list \<times> criteria option" where
  "parse_criteria [] cr = ([], Some cr)"
| "parse_criteria ((opt, optarg) # opts) cr =
     (if opt = CHR ''w'' then parse_criteria opts (cr\<lparr>c_path := Some optarg\<rparr>)
      else if opt = CHR ''f'' then parse_criteria opts (cr\<lparr>c_filename := Some optarg\<rparr>)
      else if opt = CHR ''b'' then parse_criteria opts (cr\<lparr>c_size := atoi optarg\<rparr>)
      else if opt = CHR ''t'' then parse_criteria opts (cr\<lparr>c_type := (if optarg = [] then nul else hd optarg)\<rparr>)
      else if opt = CHR ''p'' then
        (if length optarg \<noteq> 9 then ([Err ''Invalid permissions format. Use 9 characters (e.g. rwxr-xr--)''], None)
         else parse_criteria opts (cr\<lparr>c_permissions := Some optarg\<rparr>))
      else if opt = CHR ''l'' then parse_criteria opts (cr\<lparr>c_nlinks := atoi optarg\<rparr>)
      else apfst ((#) (Err ''Invalid criteria.'')) (parse_criteria opts cr))"

section \<open>Matching a file\<close>

text \<open>The file type bits of \<open>sys/stat.h\<close>.\<close>

definition file_type :: "32 word \<Rightarrow> 32 word" where
  "file_type mode = mode AND 0xF000"

definition s_isdir :: "32 word \<Rightarrow> bool" where
  "s_isdir mode \<longleftrightarrow> file_type mode = 0x4000"

definition match_type :: "stat \<Rightarrow> criteria \<Rightarrow> bool" where
  "match_type st cr =
     (if c_type cr = CHR ''d'' then s_isdir (st_mode st)
      else if c_type cr = CHR ''s'' then file_type (st_mode st) = 0xC000
      else if c_type cr = CHR ''b'' then file_type (st_mode st) = 0x6000
      else if c_type cr = CHR ''c'' then file_type (st_mode st) = 0x2000
      else if c_type cr = CHR ''f'' then file_type (st_mode st) = 0x8000
      else if c_type cr = CHR ''p'' then file_type (st_mode st) = 0x1000
      else if c_type cr = CHR ''l'' then file_type (st_mode st) = 0xA000
      else False)"

text \<open>The loop of \<open>match_filename\<close>: a repetition takes the whole run of its character.\<close>

fun match_filename :: "string \<Rightarrow> string \<Rightarrow> bool" where
  "match_filename [] s \<longleftrightarrow> s = []"
| "match_filename [c] s \<longleftrightarrow> s \<noteq> [] \<and> tolower c = tolower (hd s) \<and> match_filename [] (tl s)"
| "match_filename (c # d # p) s \<longleftrightarrow>
     (if d = plus_sign
      then s \<noteq> [] \<and> tolower c = tolower (hd s) \<and> match_filename p (dropWhile (\<lambda>x. tolower c = tolower x) (tl s))
      else s \<noteq> [] \<and> tolower c = tolower (hd s) \<and> match_filename (d # p) (tl s))"

definition match_size :: "stat \<Rightarrow> criteria \<Rightarrow> bool" where
  "match_size st cr \<longleftrightarrow> st_size st = c_size cr"

text \<open>The \<open>int\<close> is converted to the unsigned type of \<open>st_nlink\<close>.\<close>

definition match_nlinks :: "stat \<Rightarrow> criteria \<Rightarrow> bool" where
  "match_nlinks st cr \<longleftrightarrow> st_nlink st = word_of_int (c_nlinks cr)"

definition parse_permission :: "string \<Rightarrow> nat list" where
  "parse_permission permission = map (\<lambda>i. if permission ! i = CHR ''-'' then 0 else 1) [0..<9]"

text \<open>\<open>S_IRUSR\<close>, \<open>S_IWUSR\<close> and so on down to \<open>S_IXOTH\<close>.\<close>

definition permission_macros :: "32 word list" where
  "permission_macros = [0x100, 0x80, 0x40, 0x20, 0x10, 0x8, 0x4, 0x2, 0x1]"

definition match_permission :: "32 word \<Rightarrow> string \<Rightarrow> bool" where
  "match_permission mode permission =
     list_all (\<lambda>(b, mac). if b = 1 then mode AND mac \<noteq> 0 else mode AND mac = 0)
       (zip (parse_permission permission) permission_macros)"

definition check_criteria :: "stat \<Rightarrow> criteria \<Rightarrow> string \<Rightarrow> bool" where
  "check_criteria st cr filename =
     (if c_size cr \<noteq> - 1 \<and> \<not> match_size st cr then False
      else if (case c_filename cr of None \<Rightarrow> False | Some pattern \<Rightarrow> \<not> match_filename pattern filename) then False
      else if c_type cr \<noteq> nul \<and> \<not> match_type st cr then False
      else if (case c_permissions cr of None \<Rightarrow> False | Some permission \<Rightarrow> \<not> match_permission (st_mode st) permission) then False
      else if c_nlinks cr \<noteq> - 1 \<and> \<not> match_nlinks st cr then False
      else True)"

section \<open>The search\<close>

text \<open>\<open>Missing\<close> is an entry for which \<open>lstat\<close> fails; \<open>None\<close> for the entries means that \<open>opendir\<close> fails.\<close>

datatype fnode = Missing | FNode stat "(string \<times> fnode) list option"

definition print_result :: "string \<Rightarrow> nat \<Rightarrow> string" where
  "print_result name depth = CHR ''|'' # replicate (depth * 4 - 2) (CHR ''-'') @ name"

definition child_path :: "string \<Rightarrow> string \<Rightarrow> string" where
  "child_path path name = path @ CHR ''/'' # name"

definition dot_name :: "string \<Rightarrow> bool" where
  "dot_name name \<longleftrightarrow> name = ''.'' \<or> name = ''..''"

text \<open>The loop over the entries of an open directory: the lines on both outputs, in order.\<close>

fun search_entries :: "criteria \<Rightarrow> string \<Rightarrow> (string \<times> fnode) list \<Rightarrow> nat \<Rightarrow> find_line list" where
  "search_entries cr path [] depth = []"
| "search_entries cr path ((name, nd) # es) depth =
     (if dot_name name then []
      else if length (child_path path name) \<ge> 1024 then [Err (''Path too long: '' @ child_path path name)]
      else (case nd of
          Missing \<Rightarrow> [Err (''lstat failed: '' @ child_path path name)]
        | FNode st sub \<Rightarrow>
            (if check_criteria st cr name then [Out (print_result name depth)] else []) @
            (if s_isdir (st_mode st)
             then (case sub of
                 None \<Rightarrow> [Err (''Dir can't open: '' @ child_path path name)]
               | Some ds \<Rightarrow> search_entries cr (child_path path name) ds (depth + 1))
             else [])))
     @ search_entries cr path es depth"

definition search :: "criteria \<Rightarrow> string \<Rightarrow> (string \<times> fnode) list option \<Rightarrow> nat \<Rightarrow> find_line list" where
  "search cr path dir depth =
     (case dir of
        None \<Rightarrow> [Err (''Dir can't open: '' @ path)]
      | Some es \<Rightarrow> search_entries cr path es depth)"

text \<open>The counter \<open>found\<close> counts the printed results.\<close>

definition found :: "find_line list \<Rightarrow> nat" where
  "found ls = length (filter (\<lambda>l. case l of Out _ \<Rightarrow> True | Err _ \<Rightarrow> False) ls)"

text \<open>\<open>main\<close>: the exit code and the lines; \<open>open_dir\<close> gives the entries of the directory to search.\<close>

definition find_main :: "(char \<times> string) list \<Rightarrow> (string \<Rightarrow> (string \<times> fnode) list option) \<Rightarrow> int \<times> find_line list" where
  "find_main opts open_dir =
     (case parse_criteria opts init_criteria of
        (msgs, None) \<Rightarrow> (1, msgs)
      | (msgs, Some cr) \<Rightarrow>
          (case c_path cr of
             None \<Rightarrow> (1, msgs @ [Err ''Usage: ./myFind -w path [-f filename] [-b size] [-t type] [-p permissions] [-l nlinks]''])
           | Some path \<Rightarrow>
               let ls = search cr path (open_dir path) 1
               in (0, msgs @ ls @ (if found ls = 0 then [Out ''No file found!''] else []))))"

section \<open>The language of greedy patterns\<close>

text \<open>No repetition is followed by an item of the same letter.\<close>

fun item_char :: "item \<Rightarrow> char" where
  "item_char (One c) = c"
| "item_char (Many c) = c"

fun separated :: "item list \<Rightarrow> bool" where
  "separated (Many c # i # is) \<longleftrightarrow> \<not> same_letter c (item_char i) \<and> separated (i # is)"
| "separated (One c # is) \<longleftrightarrow> separated is"
| "separated _ \<longleftrightarrow> True"

lemma separated_tl: "separated (i # is) \<Longrightarrow> separated is"
  by (cases "i # is" rule: separated.cases) auto

lemma in_lang_first: "in_lang (i # is) s \<Longrightarrow> s \<noteq> [] \<and> same_letter (item_char i) (hd s)"
proof (cases i)
  case (Many c)
  assume "in_lang (i # is) s"
  with Many obtain k where "1 \<le> k" "k \<le> run_length c s" unfolding Many in_lang_Many_iff by blast
  then have "0 < run_length c s" by linarith
  then show ?thesis using Many by (simp add: run_pos same_letter_def)
qed (simp add: in_lang_One_iff)

lemma drop_run: "s \<noteq> [] \<Longrightarrow> tolower (hd s) = tolower c \<Longrightarrow>
     dropWhile (\<lambda>x. tolower c = tolower x) (tl s) = drop (run_length c s) s"
proof -
  assume s: "s \<noteq> []" "tolower (hd s) = tolower c"
  have eq: "(\<lambda>x. tolower c = tolower x) = (\<lambda>x. tolower x = tolower c)" by (rule ext) (rule eq_commute)
  show ?thesis unfolding run_length_def eq dropWhile_eq_drop [symmetric] using s by (cases s) simp_all
qed

text \<open>Where the next item is of another letter, only the whole run can be cut off.\<close>

lemma in_lang_Many_greedy:
  assumes "separated (Many c # is)"
  shows "in_lang (Many c # is) s \<longleftrightarrow> 0 < run_length c s \<and> in_lang is (drop (run_length c s) s)"
proof
  assume "in_lang (Many c # is) s"
  then obtain k where k: "1 \<le> k" "k \<le> run_length c s" "in_lang is (drop k s)" unfolding in_lang_Many_iff by blast
  have "k = run_length c s"
  proof (rule ccontr)
    assume "k \<noteq> run_length c s"
    with k(2) have lt: "k < length (takeWhile (\<lambda>x. tolower x = tolower c) s)" by (simp add: run_length_def)
    then have "k < length s" using length_takeWhile_le [of "\<lambda>x. tolower x = tolower c" s] by linarith
    have run: "tolower (s ! k) = tolower c" using set_takeWhileD [OF nth_mem [OF lt]] takeWhile_nth [OF lt] by simp
    show False
    proof (cases "is")
      case Nil
      with k(3) \<open>k < length s\<close> show False by simp
    next
      case (Cons i js)
      with k(3) in_lang_first [of i js "drop k s"] \<open>k < length s\<close>
      have "tolower (s ! k) = tolower (item_char i)" by (auto simp: same_letter_def hd_drop_conv_nth)
      with run assms Cons show False by (simp add: same_letter_def)
    qed
  qed
  with k show "0 < run_length c s \<and> in_lang is (drop (run_length c s) s)" by auto
next
  assume "0 < run_length c s \<and> in_lang is (drop (run_length c s) s)"
  then show "in_lang (Many c # is) s" unfolding in_lang_Many_iff by (intro exI [of _ "run_length c s"]) auto
qed

lemma match_filename_lang: "separated (items_of p) \<Longrightarrow> match_filename p s \<longleftrightarrow> in_lang (items_of p) s"
proof (induction p s rule: match_filename.induct)
  case (2 c s)
  then show ?case by (auto simp: in_lang_One_iff same_letter_def)
next
  case (3 c d p s)
  show ?case
  proof (cases "d = plus_sign")
    case True
    with 3(3) have sep: "separated (Many c # items_of p)" by simp
    show ?thesis
    proof (cases "s \<noteq> [] \<and> tolower c = tolower (hd s)")
      case run: True
      then have "dropWhile (\<lambda>x. tolower c = tolower x) (tl s) = drop (run_length c s) s" by (intro drop_run) auto
      moreover have "match_filename p (dropWhile (\<lambda>x. tolower c = tolower x) (tl s)) \<longleftrightarrow>
          in_lang (items_of p) (dropWhile (\<lambda>x. tolower c = tolower x) (tl s))"
        using 3(1) [OF True] run separated_tl [OF sep] by auto
      ultimately show ?thesis using True run run_pos [of c s] in_lang_Many_greedy [OF sep, of s] by auto
    next
      case False
      then show ?thesis using True run_pos [of c s] in_lang_Many_greedy [OF sep, of s] by auto
    qed
  next
    case False
    with 3(2,3) separated_tl show ?thesis by (auto simp: in_lang_One_iff same_letter_def)
  qed
qed simp

interpretation greedy: pattern_matcher match_filename "\<lambda>p. separated (items_of p)"
  by unfold_locales (rule match_filename_lang)

text \<open>On the patterns that the greedy matcher supports, both programs accept the same names.\<close>

lemma greedy_backtracking: "separated (items_of p) \<Longrightarrow> match_filename p s \<longleftrightarrow> match_rec p s"
  using greedy.accepts_lang backtracking.accepts_lang by simp

section \<open>Permissions\<close>

lemma and_power_zero: "(mode :: 32 word) AND 2 ^ n = 0 \<longleftrightarrow> \<not> bit mode n"
  by (simp add: bit_iff_and_push_bit_not_eq_0)

lemma permission_macros_bits: "permission_macros = map (\<lambda>i. push_bit (8 - i) 1) [0..<9]"
  by (simp add: permission_macros_def upt_rec push_bit_eq_mult)

text \<open>The nine lowest bits of the mode are exactly the ones that are not dashes in the text.\<close>

lemma match_permission_bits:
  "match_permission mode permission \<longleftrightarrow> list_all (\<lambda>i. bit mode (8 - i) \<longleftrightarrow> permission ! i \<noteq> CHR ''-'') [0..<9]"
proof -
  have "zip (parse_permission permission) permission_macros =
      map (\<lambda>i. (if permission ! i = CHR ''-'' then 0 else 1, push_bit (8 - i) 1)) [0..<9]"
    unfolding parse_permission_def permission_macros_bits by (simp add: zip_map_map zip_same_conv_map del: upt_Suc)
  then show ?thesis
    by (simp only: match_permission_def list.pred_map)
      (intro arg_cong [where f = "\<lambda>P. list_all P [0..<9]"], simp add: fun_eq_iff and_power_zero)
qed

section \<open>The entries of a tree\<close>

text \<open>An entry that the search reaches: its path, its name, what \<open>lstat\<close> returns and its depth. Only readable
  directories are entered, and paths of 1024 bytes or more are skipped.\<close>

inductive entry_at :: "string \<Rightarrow> (string \<times> fnode) list \<Rightarrow> nat \<Rightarrow> string \<Rightarrow> string \<Rightarrow> stat \<Rightarrow> nat \<Rightarrow> bool" where
  here: "(name, FNode st sub) \<in> set es \<Longrightarrow> \<not> dot_name name \<Longrightarrow> length (child_path path name) < 1024 \<Longrightarrow>
     entry_at path es depth (child_path path name) name st depth"
| below: "(d, FNode st' (Some ds)) \<in> set es \<Longrightarrow> \<not> dot_name d \<Longrightarrow> length (child_path path d) < 1024 \<Longrightarrow>
     s_isdir (st_mode st') \<Longrightarrow> entry_at (child_path path d) ds (depth + 1) p name st depth' \<Longrightarrow>
     entry_at path es depth p name st depth'"

inductive_simps entry_at_Nil [simp]: "entry_at path [] depth p name st depth'"

lemma entry_at_Cons:
  "entry_at path ((n, nd) # es) depth p name st depth' \<longleftrightarrow>
     (\<not> dot_name n \<and> length (child_path path n) < 1024 \<and>
        (\<exists>st' sub. nd = FNode st' sub \<and>
           (p = child_path path n \<and> name = n \<and> st = st' \<and> depth' = depth \<or>
            s_isdir (st_mode st') \<and> (\<exists>ds. sub = Some ds \<and> entry_at (child_path path n) ds (depth + 1) p name st depth')))) \<or>
     entry_at path es depth p name st depth'"
  unfolding entry_at.simps [of path "(n, nd) # es" depth p name st depth'] entry_at.simps [of path es depth p name st depth']
  by (simp, blast)

text \<open>The same entries in the order of a traversal that visits a directory before what it holds.\<close>

fun reached :: "string \<Rightarrow> (string \<times> fnode) list \<Rightarrow> nat \<Rightarrow> (string \<times> string \<times> stat \<times> nat) list" where
  "reached path [] depth = []"
| "reached path ((name, nd) # es) depth =
     (if dot_name name \<or> length (child_path path name) \<ge> 1024 then []
      else (case nd of
          Missing \<Rightarrow> []
        | FNode st sub \<Rightarrow> (child_path path name, name, st, depth) #
            (case sub of
               None \<Rightarrow> []
             | Some ds \<Rightarrow> if s_isdir (st_mode st) then reached (child_path path name) ds (depth + 1) else [])))
     @ reached path es depth"

text \<open>A directory as a file system has them: no name twice, and no slash in a name.\<close>

fun proper :: "(string \<times> fnode) list \<Rightarrow> bool" where
  "proper [] \<longleftrightarrow> True"
| "proper ((name, nd) # es) \<longleftrightarrow>
     CHR ''/'' \<notin> set name \<and> name \<notin> fst ` set es \<and>
     (case nd of Missing \<Rightarrow> True | FNode st sub \<Rightarrow> (case sub of None \<Rightarrow> True | Some ds \<Rightarrow> proper ds)) \<and> proper es"

lemma entry_at_reached: "(p, name, st, d) \<in> set (reached path es depth) \<longleftrightarrow> entry_at path es depth p name st d"
  by (induction path es depth rule: reached.induct)
    (auto simp: entry_at_Cons not_le split: fnode.splits option.splits if_splits)

lemma reached_below:
  "p \<in> fst ` set (reached path es depth) \<Longrightarrow> \<exists>n r. n \<in> fst ` set es \<and> p = child_path path n @ r \<and> (r = [] \<or> hd r = CHR ''/'')"
proof (induction path es depth rule: reached.induct)
  case (2 path name nd es depth)
  show ?case
  proof (cases "p \<in> fst ` set (reached path es depth)")
    case True
    from 2(2) [OF this] obtain n r where "n \<in> fst ` set es" "p = child_path path n @ r" "r = [] \<or> hd r = CHR ''/''" by blast
    then show ?thesis by (intro exI [of _ n] exI [of _ r]) simp
  next
    case False
    with 2(3) consider (top) "p = child_path path name"
      | (deep) st ds where "\<not> (dot_name name \<or> length (child_path path name) \<ge> 1024)" "nd = FNode st (Some ds)"
          "s_isdir (st_mode st)" "p \<in> fst ` set (reached (child_path path name) ds (depth + 1))"
      by (auto split: if_splits fnode.splits option.splits)
    then show ?thesis
    proof cases
      case top
      then show ?thesis by (intro exI [of _ name] exI [of _ "[]"]) simp
    next
      case deep
      from 2(1) [OF deep(1,2) refl deep(3,4)] obtain n r where "p = child_path (child_path path name) n @ r" by blast
      then show ?thesis by (intro exI [of _ name] exI [of _ "CHR ''/'' # n @ r"]) (simp add: child_path_def)
    qed
  qed
qed simp

lemma slash_prefix:
  assumes "n @ r = m @ q" and "CHR ''/'' \<notin> set n" and "CHR ''/'' \<notin> set m"
    and "r = [] \<or> hd r = CHR ''/''" and "q = [] \<or> hd q = CHR ''/''"
  shows "n = m"
proof -
  have cut: "takeWhile (\<lambda>c. c \<noteq> CHR ''/'') (x @ y) = x" if "CHR ''/'' \<notin> set x" "y = [] \<or> hd y = CHR ''/''" for x y
    using that by (cases y) (auto simp: takeWhile_append)
  show ?thesis using cut [OF assms(2,4)] cut [OF assms(3,5)] assms(1) by simp
qed

lemma proper_slash: "proper es \<Longrightarrow> n \<in> fst ` set es \<Longrightarrow> CHR ''/'' \<notin> set n"
  by (induction es rule: proper.induct) auto

text \<open>In such a tree no path is visited twice.\<close>

lemma reached_distinct: "proper es \<Longrightarrow> distinct (map fst (reached path es depth))"
proof (induction path es depth rule: reached.induct)
  case (2 path name nd es depth)
  let ?c = "child_path path name"
  have pr: "proper es" "name \<notin> fst ` set es" "CHR ''/'' \<notin> set name" using 2(3) by auto
  have other: "?c @ r \<notin> fst ` set (reached path es depth)" if r: "r = [] \<or> hd r = CHR ''/''" for r
  proof
    assume "?c @ r \<in> fst ` set (reached path es depth)"
    then obtain n q where n: "n \<in> fst ` set es" "?c @ r = child_path path n @ q" "q = [] \<or> hd q = CHR ''/''"
      using reached_below [of "?c @ r"] by blast
    then have "name @ r = n @ q" by (simp add: child_path_def)
    then have "name = n" using slash_prefix [OF _ pr(3) proper_slash [OF pr(1) n(1)] r n(3)] by blast
    with n(1) pr(2) show False by simp
  qed
  show ?case
  proof (cases "\<exists>st ds. \<not> (dot_name name \<or> length ?c \<ge> 1024) \<and> nd = FNode st (Some ds) \<and> s_isdir (st_mode st)")
    case True
    then obtain st ds where nd: "\<not> (dot_name name \<or> length ?c \<ge> 1024)" "nd = FNode st (Some ds)" "s_isdir (st_mode st)" by blast
    have sub: "p \<noteq> ?c \<and> p \<notin> fst ` set (reached path es depth)" if "p \<in> fst ` set (reached ?c ds (depth + 1))" for p
    proof -
      from reached_below [OF that] obtain n r where "p = ?c @ CHR ''/'' # n @ r" by (auto simp: child_path_def)
      then show ?thesis using other [of "CHR ''/'' # n @ r"] by simp
    qed
    have d: "distinct (map fst (reached ?c ds (depth + 1)))" using 2(1) [OF nd(1,2) refl nd(3)] 2(3) nd(2) by simp
    from sub have s1: "?c \<notin> fst ` set (reached ?c ds (depth + 1))" by blast
    from sub have s2: "fst ` set (reached ?c ds (depth + 1)) \<inter> fst ` set (reached path es depth) = {}" by blast
    have s3: "?c \<notin> fst ` set (reached path es depth)" using other [of "[]"] by simp
    have "map fst (reached path ((name, nd) # es) depth) =
        ?c # map fst (reached ?c ds (depth + 1)) @ map fst (reached path es depth)" using nd by simp
    then show ?thesis using d s1 s2 s3 2(2) [OF pr(1)] by simp
  next
    case False
    have "?c \<notin> fst ` set (reached path es depth)" using other [of "[]"] by simp
    with 2(2) [OF pr(1)] False show ?thesis by (auto split: fnode.splits option.splits)
  qed
qed simp

text \<open>The lines on the standard output.\<close>

definition out_lines :: "find_line list \<Rightarrow> string list" where
  "out_lines ls = concat (map (\<lambda>l. case l of Out x \<Rightarrow> [x] | Err _ \<Rightarrow> []) ls)"

lemma out_lines_simps [simp]:
  "out_lines [] = []" "out_lines (Out x # ls) = x # out_lines ls" "out_lines (Err x # ls) = out_lines ls"
  "out_lines (ls @ ls') = out_lines ls @ out_lines ls'"
  by (simp_all add: out_lines_def)

lemma found_out_lines: "found ls = length (out_lines ls)"
  by (induction ls) (auto simp: found_def split: find_line.splits)

lemma search_entries_lines:
  "out_lines (search_entries cr path es depth) =
     map (\<lambda>(p, name, st, d). print_result name d)
       (filter (\<lambda>(p, name, st, d). check_criteria st cr name) (reached path es depth))"
  by (induction cr path es depth rule: search_entries.induct) (auto split: fnode.splits option.splits)

text \<open>What the criteria mean; an option that was not given asks for nothing.\<close>

definition satisfies :: "criteria \<Rightarrow> string \<Rightarrow> stat \<Rightarrow> bool" where
  "satisfies cr name st \<longleftrightarrow>
     (c_size cr = - 1 \<or> st_size st = c_size cr) \<and>
     list_all (\<lambda>p. match_filename p name) (case c_filename cr of None \<Rightarrow> [] | Some p \<Rightarrow> [p]) \<and>
     (c_type cr = nul \<or>
      (c_type cr, file_type (st_mode st)) \<in>
        {(CHR ''d'', 0x4000), (CHR ''s'', 0xC000), (CHR ''b'', 0x6000), (CHR ''c'', 0x2000), (CHR ''f'', 0x8000),
         (CHR ''p'', 0x1000), (CHR ''l'', 0xA000)}) \<and>
     list_all (\<lambda>p. list_all (\<lambda>i. bit (st_mode st) (8 - i) \<longleftrightarrow> p ! i \<noteq> CHR ''-'') [0..<9])
       (case c_permissions cr of None \<Rightarrow> [] | Some p \<Rightarrow> [p]) \<and>
     (c_nlinks cr = - 1 \<or> st_nlink st = word_of_int (c_nlinks cr))"

lemma check_criteria_iff: "check_criteria st cr name \<longleftrightarrow> satisfies cr name st"
proof -
  have "match_type st cr \<longleftrightarrow> (c_type cr, file_type (st_mode st)) \<in>
        {(CHR ''d'', 0x4000), (CHR ''s'', 0xC000), (CHR ''b'', 0x6000), (CHR ''c'', 0x2000), (CHR ''f'', 0x8000),
         (CHR ''p'', 0x1000), (CHR ''l'', 0xA000)}"
    unfolding match_type_def s_isdir_def by auto
  then show ?thesis
    by (auto simp: check_criteria_def satisfies_def match_size_def match_nlinks_def match_permission_bits
        simp del: upt_Suc split: option.splits)
qed

section \<open>Properties\<close>

text \<open>(C39) The finder prints one line for every reachable entry that satisfies all given criteria, in the order
  of the traversal and indented by the depth of the entry, and counts these lines; the traversal meets exactly
  the reachable entries, and none twice when every directory has distinct names without slashes. A permission
  text fixes the nine lowest bits of the mode, every character other than a dash standing for a set bit.\<close>

theorem find_prints_matches:
  assumes "proper es"
  shows "out_lines (search cr path (Some es) 1) =
       map (\<lambda>(p, name, st, d). print_result name d)
         (filter (\<lambda>(p, name, st, d). satisfies cr name st) (reached path es 1)) \<and>
     found (search cr path (Some es) 1) =
       card {(p, name, st, d). entry_at path es 1 p name st d \<and> satisfies cr name st} \<and>
     set (reached path es 1) = {(p, name, st, d). entry_at path es 1 p name st d} \<and>
     distinct (map fst (reached path es 1))"
proof -
  let ?r = "filter (\<lambda>(p, name, st, d). satisfies cr name st) (reached path es 1)"
  have lines: "out_lines (search cr path (Some es) 1) = map (\<lambda>(p, name, st, d). print_result name d) ?r"
    by (simp add: search_def search_entries_lines check_criteria_iff)
  have dist: "distinct (map fst (reached path es 1))" by (rule reached_distinct [OF assms])
  then have "distinct ?r" by (simp add: distinct_map)
  then have "length ?r = card (set ?r)" by (rule distinct_card [symmetric])
  also have "set ?r = {(p, name, st, d). entry_at path es 1 p name st d \<and> satisfies cr name st}"
    by (auto simp: entry_at_reached)
  finally have "found (search cr path (Some es) 1) = card {(p, name, st, d). entry_at path es 1 p name st d \<and> satisfies cr name st}"
    unfolding found_out_lines lines by simp
  then show ?thesis using lines dist by (auto simp: entry_at_reached)
qed

text \<open>A directory \<open>d\<close> that holds a file \<open>f\<close>, beside another file \<open>f\<close>: both files are printed, each at its depth.\<close>

theorem find_prints_matches_witness:
  "\<exists>es. proper es \<and> out_lines (search (init_criteria\<lparr>c_filename := Some ''f''\<rparr>) ''r'' (Some es) 1) = [''|------f'', ''|--f''] \<and>
     found (search (init_criteria\<lparr>c_filename := Some ''f''\<rparr>) ''r'' (Some es) 1) =
       card {(p, name, st, d). entry_at ''r'' es 1 p name st d \<and> satisfies (init_criteria\<lparr>c_filename := Some ''f''\<rparr>) name st}"
proof -
  let ?f = "FNode \<lparr>st_mode = 0x8000, st_size = 0, st_nlink = 1\<rparr> None"
  let ?es = "[(''.'', Missing), (''d'', FNode \<lparr>st_mode = 0x4000, st_size = 0, st_nlink = 2\<rparr> (Some [(''f'', ?f)])), (''f'', ?f)]"
  have "proper ?es" by code_simp
  moreover from find_prints_matches [OF this, of "init_criteria\<lparr>c_filename := Some ''f''\<rparr>" "''r''"]
  have "found (search (init_criteria\<lparr>c_filename := Some ''f''\<rparr>) ''r'' (Some ?es) 1) =
       card {(p, name, st, d). entry_at ''r'' ?es 1 p name st d \<and> satisfies (init_criteria\<lparr>c_filename := Some ''f''\<rparr>) name st}"
    by blast
  moreover have "out_lines (search (init_criteria\<lparr>c_filename := Some ''f''\<rparr>) ''r'' (Some ?es) 1) = [''|------f'', ''|--f'']"
    by code_simp
  ultimately show ?thesis by blast
qed

text \<open>(C40) The greedy matcher of the finder: when no repetition is followed by the same letter, it accepts
  exactly the language of the pattern, as the backtracking matcher of the parallel search does.\<close>

theorem greedy_matcher_language:
  assumes "separated (items_of p)"
  shows "(match_filename p s \<longleftrightarrow> in_lang (items_of p) s) \<and> (match_filename p s \<longleftrightarrow> match_rec p s)"
  using greedy.accepts_lang [OF assms] greedy_backtracking [OF assms] by simp

theorem greedy_matcher_language_witness:
  "match_filename ''lo+st'' ''LOOst'' = in_lang (items_of ''lo+st'') ''LOOst'' \<and> match_filename ''lo+st'' ''LOOst''"
proof -
  have "separated (items_of ''lo+st'')" "match_rec ''lo+st'' ''LOOst''" by code_simp+
  with greedy_matcher_language [of "''lo+st''" "''LOOst''"] show ?thesis by blast
qed

text \<open>A repetition followed by the same letter never matches: the run is taken whole and the letter is
  missing afterwards.\<close>

lemma greedy_matcher_misses: "\<not> match_filename ''a+a'' ''aa'' \<and> match_rec ''a+a'' ''aa''"
  by code_simp

end
