(* ===== verification/Spec2Isabelle.thy ===== *)
theory Spec2Isabelle
  imports Courier_Main Log_Wait Log_Setup Log_Sync Hogwarts_Main Tower_Sync Search_Start My_Find
begin

text \<open>
  A verification library for six system programs in C: a file finder (\<open>HW1\<close>), a parallel file search
  (\<open>HW2\<close>), a tower of processes that carry and sort letters (\<open>HW3\<close>), a log analyser (\<open>HW4\<close>), a courier
  simulation (\<open>HW5\<close>) and an inventory server with its clients (\<open>HW6\<close>). The programs are independent of each
  other; they share the C library, which the first two theories model.

  \<^bold>\<open>Conventions.\<close> A struct is a \<open>record\<close>, an enum or a program counter a \<open>datatype\<close>. Pure functions are HOL
  functions; a process or thread is a step on an explicit state, one step for each critical section, and a
  program with several of them is a step relation or a transition function over an actor. The results of
  system calls (\<open>read\<close>, \<open>select\<close>, \<open>waitpid\<close>, \<open>time\<close>, \<open>malloc\<close>) are arguments. \<open>int\<close> arithmetic that can
  overflow is an \<open>option\<close> (\<open>int_add\<close>, \<open>int_mul\<close>), unsigned counters are words. Counters that only count the events
  of a run (the \<open>int\<close> and \<open>_Atomic int\<close> totals of \<open>HW5\<close>, the statistics of \<open>HW3\<close>) are unbounded. Strings are the bytes before the
  NUL. Every definition that stands for code computes, so that the witnesses evaluate it.

  \<^bold>\<open>The C library.\<close> \<open>C_Prelude\<close> has the ranges of \<open>int\<close> and \<open>long\<close>, checked arithmetic, the character
  classes of the ``C'' locale and the lemma collections; \<open>C_Stdlib\<close> has decimal printing, \<open>strtol\<close>, \<open>sscanf\<close>,
  \<open>strtok_r\<close>, \<open>fgets\<close>, the truncation of \<open>snprintf\<close> and \<open>qsort\<close> with the locale \<open>comparator\<close> of comparison
  functions, which is interpreted for every comparison function of the programs that is a total preorder.

  \<^bold>\<open>HW5, couriers.\<close> \<open>Order_Queue\<close> models the linked list of \<open>order_queue.c\<close> over an explicit heap, where an
  access outside the heap is \<open>None\<close>; the locale \<open>priority_queue\<close> states what a client may rely on, and pushing
  refines insertion into a sorted list. \<open>Courier_Shift\<close> models \<open>main.c\<close>: the loader, the couriers with
  condition waits and spurious wake-ups, SIGINT, cancellation and the summary file, as the step relation
  \<open>cstep\<close>. \<open>Courier_Proofs\<close> shows that no order is lost or delivered twice under any interleaving, that
  deliveries start in priority order, that no thread, the main thread included, is stuck and no wake-up is lost,
  and that the work of a shift ends after a bounded number of steps, one more for each spurious wake-up. \<open>Courier_Load\<close> has the loader and \<open>Courier_Main\<close> the composition from the orders file to the exit
  of \<open>main\<close>, after which no node of the queue is left.

  \<^bold>\<open>HW4, log analyser.\<close> \<open>Log_Common\<close> parses and prints log lines and counts keywords; \<open>Log_Reader\<close> splits a
  file into the ranges of the reader threads and shows that every line is read exactly once; \<open>Log_Ring\<close> has the
  private buffer and the shared regions A, B and D as one ring buffer that refines a bounded queue;
  \<open>Log_Score\<close> has the analyser, the aggregator and the output files; \<open>Log_Options\<close> the command line and the
  configuration files; \<open>Log_Watchdog\<close> the watchdog thread and the waiting loop of the parent; \<open>Log_Setup\<close> the
  shared regions, pipes and child processes and \<open>main\<close> around them; \<open>Log_Sync\<close> the semaphore and the barrier that
  \<open>common.h\<close> builds from a mutex and a condition variable, with the correctness of the barrier. \<open>Log_Pipeline\<close>
  composes the processes into the transition function \<open>pstep\<close>, in which a thread can move as soon as its condition
  holds. \<open>Log_Flow\<close>, \<open>Log_Eof\<close> and \<open>Log_Totals\<close> hold its
  invariants (entries in flight, end markers, scores), \<open>Log_Correct\<close> the correctness of the report for every
  interleaving and \<open>Log_Liveness\<close> that the condition of some thread always holds, and the two ways in which the
  program hangs when the dispatcher times out or a file is missing. \<open>Wait_Sets\<close> states in the locale \<open>wait_sets\<close> when
  signals and broadcasts are enough for sleeping threads, and \<open>Log_Wait\<close> interprets it for the condition variables of
  the pipeline: with every file readable, a thread that is awake can always move. A \<open>double\<close> of this program always holds an integer below
  the bound at which its additions are exact, so it is an \<open>int\<close>.

  \<^bold>\<open>HW6, inventory server.\<close> \<open>Hogwarts\<close> models \<open>hogwarts.c\<close> and \<open>magic_common.c\<close>: inventory, client slots, line
  framing, the commands, timeouts and one round of the \<open>select\<close> loop. The clock is an argument: one reading each for
  the expiry and the timeout at the top of the loop, and one for all commands of a round. \<open>Hogwarts_Proofs\<close> shows that the stock
  covers the spellbooks, that names are unique, that the byte stream may be cut anywhere, that commands are
  confined to their client, how idle clients expire and when \<open>BREW\<close> overflows. \<open>Hogwarts_Client\<close> models \<open>client_common.c\<close> and
  composes a client with the server. \<open>Hogwarts_Main\<close> has the start of the server, with the results of the system
  calls as arguments, its end, the connection and the loop of the clients, and that each of them releases what it
  opened on every path.

  \<^bold>\<open>HW3, tower.\<close> \<open>Tower_Word\<close> has the shared word and the sorter's pass over its sorting area (the locale
  \<open>exchange_order\<close> captures the exchange sort of the elevators), \<open>Tower_Elevator\<close> the request tables and
  batches, \<open>Tower\<close> the processes as one transition function, \<open>Tower_Input\<close> the command line, the input and
  output files and the initial state. \<open>Tower_Letters\<close> and \<open>Tower_Control\<close> hold the invariants, \<open>Tower_Proofs\<close>
  the properties: letters are neither lost nor duplicated, floors keep their capacity, request tables do not
  overflow, and an increment of \<open>completed_words\<close> can be lost; \<open>Tower_End\<close> has the end of the program and the
  composition from the input file to the output file; \<open>Tower_Sync\<close> the named semaphores over a run, the waits
  and the shutdown. The processes start after the set-up; a move of a carrier is one step, the statistics counters
  are atomic, and signals are not part of the steps.

  \<^bold>\<open>HW2, parallel search.\<close> \<open>Search_Pattern\<close> has the backtracking matcher, equivalent to the language of the
  pattern, and the locale \<open>pattern_matcher\<close> of matchers; \<open>Search_Worker\<close> the walk of a worker over a file tree,
  with SIGTERM at any test of its flag; \<open>Search_Output\<close> the printed tree; \<open>Search_Main\<close> the parent with its
  signal handlers and result files; \<open>Search_Proofs\<close> the correctness of a run for every number of workers and
  every order in which they end, and the wrap-around of the reported total; \<open>Search_Start\<close> the whole of \<open>main\<close>
  with the result files, which are removed at exit, the creation of the workers and the signals SIGCHLD, SIGUSR1 and
  SIGINT in any number and order during each wait. A tree is a term and does not change
  during a run.

  \<^bold>\<open>HW1, file finder.\<close> \<open>My_Find\<close> models the criteria, the matchers and the recursive search, shows that exactly
  the entries that satisfy the criteria are printed, each once and in the order of the traversal, and interprets \<open>pattern_matcher\<close> for the patterns on which
  the greedy matcher is complete.

  \<^bold>\<open>Loops.\<close> Loops over data are structural recursions or have a measure. The loops over the heap of the order
  queue are \<open>partial_function (option)\<close>, and it is proved that they return on every well-formed queue. Loops that
  wait for the outside world consume a list of its answers; \<open>None\<close> says that they still wait after the last
  one, and the theorems show for which answers they end.

  \<^bold>\<open>Not modelled.\<close> The installation of signal handlers and the signal masks beyond the points at which a signal
  is taken, the initialisation and destruction of mutexes and condition variables (only their failure), the wrappers
  that print and end the program when a call fails, usage messages, the seeds of \<open>rand_r\<close>, whose choices are
  arguments, and the progress messages on the standard output of \<open>HW3\<close> and \<open>HW4\<close>: calls of the operating system and
  of the C library without logic of their own. \<open>getopt\<close> is represented by the options it returns.
\<close>

end
